(* ===== verification/C_Prelude.thy ===== *)
theory C_Prelude
  imports Main "HOL-Library.Word" "HOL-Library.Monad_Syntax"
begin

section \<open>Prelude: C values, memory objects and shared lemmas\<close>

text \<open>
  What every component of the model shares: the C types the program uses
  (\<open>char\<close>, \<open>size_t\<close>, addresses), memory objects as lists with checked access, C strings
  inside such objects, and the generic lemmas on options and lists the component
  theories build on.

  Partiality. A C operation of the model has type \<open>\<dots> \<Rightarrow> 'a option\<close>. The value
  \<^term>\<open>None\<close> stands for an execution that has no defined C result: an access outside an
  object, a dereference of NULL, a failed \<open>assert\<close>, or a loop that does not end.
  Everything the code itself reports (a return value of -1, a NULL result) is an
  ordinary value inside \<^term>\<open>Some\<close>. A theorem of the form \<open>f x = Some y\<close> is therefore a
  statement of total correctness: it includes memory safety and termination.
\<close>

subsection \<open>Collections of facts\<close>

named_theorems c_step \<open>one checked memory access or one loop step, as a rewrite rule\<close>
named_theorems c_frame \<open>what an operation leaves unchanged\<close>

subsection \<open>C types\<close>

text \<open>
  \<open>char\<close> is a signed byte on the target (x86-64 Linux): a \<open>8 word\<close>, read through
  \<open>sint\<close> where the code compares or widens it. Addresses are natural numbers, and 0 is
  NULL. A \<open>size_t\<close> is a natural number; where the code subtracts two of them the
  wrap-around at \<open>2 ^ 64\<close> is written out (\<open>size_sub\<close>).
\<close>

type_synonym byte = "8 word"
type_synonym addr = nat
type_synonym bytes = "8 word list"

text \<open>A \<open>char *\<close> argument: NULL, or the bytes from the pointer to the end of its object.\<close>

type_synonym cptr = "8 word list option"

definition size_sub :: "nat \<Rightarrow> nat \<Rightarrow> nat" where
  "size_sub a b = (a + 2 ^ 64 - b) mod 2 ^ 64"

lemma size_sub_le: "b \<le> a \<Longrightarrow> a < 2 ^ 64 \<Longrightarrow> size_sub a b = a - b"
  by (simp add: size_sub_def mod_if)

lemma size_sub_wrap: "a < b \<Longrightarrow> b \<le> 2 ^ 64 \<Longrightarrow> size_sub a b = 2 ^ 64 + a - b"
  by (simp add: size_sub_def)

lemma size_sub_self_le: "b \<le> a \<Longrightarrow> a < 2 ^ 64 \<Longrightarrow> size_sub a b \<le> a"
  by (simp add: size_sub_le)

subsection \<open>Checked access to a memory object\<close>

definition rd :: "'a list \<Rightarrow> nat \<Rightarrow> 'a option" where
  "rd xs i = (if i < length xs then Some (xs ! i) else None)"

definition wr :: "'a list \<Rightarrow> nat \<Rightarrow> 'a \<Rightarrow> 'a list option" where
  "wr xs i v = (if i < length xs then Some (xs[i := v]) else None)"

lemma rd_Some [c_step]: "i < length xs \<Longrightarrow> rd xs i = Some (xs ! i)"
  by (simp add: rd_def)

lemma rd_None: "length xs \<le> i \<Longrightarrow> rd xs i = None"
  by (simp add: rd_def)

lemma wr_Some [c_step]: "i < length xs \<Longrightarrow> wr xs i v = Some (xs[i := v])"
  by (simp add: wr_def)

lemma wr_None: "length xs \<le> i \<Longrightarrow> wr xs i v = None"
  by (simp add: wr_def)

lemma rd_append_mid [c_step]: "rd (xs @ y # ys) (length xs) = Some y"
  by (simp add: rd_def)

lemma rd_eq_Some_iff: "rd xs i = Some v \<longleftrightarrow> i < length xs \<and> xs ! i = v"
  by (auto simp: rd_def)

lemma wr_eq_Some_iff: "wr xs i v = Some ys \<longleftrightarrow> i < length xs \<and> ys = xs[i := v]"
  by (auto simp: wr_def)

lemma wr_length: "wr xs i v = Some ys \<Longrightarrow> length ys = length xs"
  by (auto simp: wr_def split: if_splits)

subsection \<open>C strings\<close>

text \<open>
  A C string in an object: the bytes before the first NUL, which must lie in the object.
\<close>

definition cstring :: "bytes \<Rightarrow> bytes" where
  "cstring m = takeWhile (\<lambda>c. c \<noteq> 0) m"

definition terminated :: "bytes \<Rightarrow> bool" where
  "terminated m \<longleftrightarrow> 0 \<in> set m"

lemma cstring_append [simp]: "0 \<notin> set s \<Longrightarrow> cstring (s @ 0 # r) = s"
proof -
  assume "0 \<notin> set s"
  then have "\<forall>x\<in>set s. x \<noteq> 0" by blast
  then show ?thesis by (simp add: cstring_def takeWhile_append2)
qed

lemma terminated_append [simp]: "terminated (s @ 0 # r)"
  by (simp add: terminated_def)

lemma cstring_no_nul [simp]: "0 \<notin> set (cstring m)"
  using set_takeWhileD [of 0 "\<lambda>c. c \<noteq> 0" m] by (auto simp: cstring_def)

lemma cstring_split: "terminated m \<Longrightarrow> \<exists>r. m = cstring m @ 0 # r"
proof -
  assume "terminated m"
  then have "dropWhile (\<lambda>c. c \<noteq> 0) m \<noteq> []"
    by (auto simp: terminated_def dropWhile_eq_Nil_conv)
  moreover from this have "hd (dropWhile (\<lambda>c. c \<noteq> 0) m) = 0"
    using hd_dropWhile [of "\<lambda>c. c \<noteq> 0" m] by simp
  ultimately obtain r where "dropWhile (\<lambda>c. c \<noteq> 0) m = 0 # r"
    by (cases "dropWhile (\<lambda>c. c \<noteq> 0) m") auto
  then show ?thesis
    unfolding cstring_def by (metis takeWhile_dropWhile_id)
qed

lemma cstring_nth: "i < length (cstring m) \<Longrightarrow> m ! i = cstring m ! i"
  unfolding cstring_def by (simp add: takeWhile_nth)

lemma cstring_length_less: "terminated m \<Longrightarrow> length (cstring m) < length m"
  using cstring_split [of m] by (auto dest: arg_cong [where f = length])

lemma cstring_end: "terminated m \<Longrightarrow> m ! length (cstring m) = 0"
  using cstring_split [of m] by (metis nth_append_length)

lemma cstring_nth_nonzero: "i < length (cstring m) \<Longrightarrow> m ! i \<noteq> 0"
  using cstring_no_nul [of m] nth_mem [of i "cstring m"] by (metis cstring_nth)

subsection \<open>Character classes\<close>

text \<open>
  \<open>isalpha\<close> of the "C" locale, the only locale the program runs in (it never calls
  \<open>setlocale\<close>): the ASCII letters.
\<close>

definition isalpha :: "byte \<Rightarrow> bool" where
  "isalpha c \<longleftrightarrow> (65 \<le> c \<and> c \<le> 90) \<or> (97 \<le> c \<and> c \<le> 122)"

lemma isalpha_zero [simp]: "\<not> isalpha 0"
  by (simp add: isalpha_def)

lemma isalpha_nonzero: "isalpha c \<Longrightarrow> c \<noteq> 0"
  by auto

text \<open>The bytes of a string literal of the source.\<close>

definition lit :: "string \<Rightarrow> bytes" where
  "lit s = map of_char s"

subsection \<open>Generic lemmas\<close>

lemma bind_Some_iff: "Option.bind m f = Some y \<longleftrightarrow> (\<exists>x. m = Some x \<and> f x = Some y)"
  by (cases m) auto

lemma drop_nth_Cons: "i < length xs \<Longrightarrow> drop i xs = xs ! i # drop (Suc i) xs"
  by (rule Cons_nth_drop_Suc [symmetric])

lemma takeWhile_drop_step:
  "i < length xs \<Longrightarrow> takeWhile P (drop i xs) =
     (if P (xs ! i) then xs ! i # takeWhile P (drop (Suc i) xs) else [])"
  by (simp add: drop_nth_Cons)

lemma list_update_drop_before: "i < k \<Longrightarrow> drop k (xs[i := v]) = drop k xs"
  by simp

lemma length_takeWhile_less_iff:
  "\<exists>x\<in>set xs. \<not> P x \<Longrightarrow> length (takeWhile P xs) < length xs"
  by (induction xs) auto

text \<open>A loop over a list whose body may have no defined result.\<close>

fun fold_option :: "('s \<Rightarrow> 'x \<Rightarrow> 's option) \<Rightarrow> 's \<Rightarrow> 'x list \<Rightarrow> 's option" where
  "fold_option f s [] = Some s"
| "fold_option f s (x # xs) = Option.bind (f s x) (\<lambda>s'. fold_option f s' xs)"

lemma fold_option_append:
  "fold_option f s (xs @ ys) = Option.bind (fold_option f s xs) (\<lambda>s'. fold_option f s' ys)"
  by (induction xs arbitrary: s) (auto split: Option.bind_splits)

subsection \<open>Linked structures\<close>

text \<open>
  A NULL-terminated chain in a heap, read through its successor function \<open>nx\<close>
  (\<^term>\<open>None\<close> for an address that holds no node): \<open>p\<close> leads through exactly the
  addresses \<open>as\<close>, in order.
\<close>

fun linked :: "(addr \<Rightarrow> addr option) \<Rightarrow> addr \<Rightarrow> addr list \<Rightarrow> bool" where
  "linked nx p [] \<longleftrightarrow> p = 0"
| "linked nx p (a # as) \<longleftrightarrow> p = a \<and> a \<noteq> 0 \<and> (\<exists>q. nx a = Some q \<and> linked nx q as)"

lemma linked_null [simp]: "linked nx 0 as \<longleftrightarrow> as = []"
  by (cases as) auto

lemma linked_nonnull: "p \<noteq> 0 \<Longrightarrow> linked nx p as \<longleftrightarrow>
    (\<exists>q bs. as = p # bs \<and> nx p = Some q \<and> linked nx q bs)"
  by (cases as) auto

lemma linked_cong: "(\<And>a. a \<in> set as \<Longrightarrow> nx a = nx' a) \<Longrightarrow> linked nx p as = linked nx' p as"
  by (induction as arbitrary: p) auto

lemma linked_nodes: "linked nx p as \<Longrightarrow> a \<in> set as \<Longrightarrow> a \<noteq> 0 \<and> nx a \<noteq> None"
  by (induction as arbitrary: p) auto

lemma linked_unique: "linked nx p as \<Longrightarrow> linked nx p bs \<Longrightarrow> as = bs"
proof (induction as arbitrary: p bs)
  case Nil
  then show ?case by simp
next
  case (Cons a as)
  then show ?case by (auto simp: linked_nonnull)
qed

lemma linked_suffix: "linked nx p (as @ bs) \<Longrightarrow> \<exists>q. linked nx q bs"
  by (induction as arbitrary: p) auto

lemma linked_distinct: "linked nx p as \<Longrightarrow> distinct as"
proof (induction as arbitrary: p)
  case Nil
  then show ?case by simp
next
  case (Cons a as)
  then obtain q where q: "nx a = Some q" "linked nx q as" "p = a" by auto
  have "a \<notin> set as"
  proof
    assume "a \<in> set as"
    then obtain us vs where as: "as = us @ a # vs" by (auto simp: in_set_conv_decomp)
    with q(2) obtain r where "linked nx r (a # vs)" by (auto dest: linked_suffix)
    then have "linked nx q vs" using q(1) by auto
    then have "vs = as" using q(2) by (rule linked_unique)
    with as show False by (auto dest: arg_cong [where f = length])
  qed
  with Cons q show ?case by auto
qed

end
