(* ===== verification/Str_Methods.thy ===== *)
theory Str_Methods
  imports C_Prelude
begin

section \<open>String methods (helper.c)\<close>

text \<open>
  The bounded string routines of \<open>helper.c\<close>. Each loop of the source is one recursive
  function over the loop's index; a \<open>char *\<close> argument is a \<open>cptr\<close>, and a destination is
  returned as the object's new contents beside the C result. \<open>fprintf(stderr, ...)\<close> is
  not modelled. What the lemmas show: each routine against the C string its argument
  holds, on the normal path and on the "buffer overflow" path; the scanning routines
  \<open>StrTok\<close>, \<open>StrStrip\<close> and \<open>StrSplit\<close> against \<open>takeWhile\<close>.
\<close>

subsection \<open>StrGetLength\<close>

function strlen_loop :: "bytes \<Rightarrow> nat \<Rightarrow> nat \<Rightarrow> nat option" where
  "strlen_loop s max_len curr_len =
     (if curr_len < max_len
      then case rd s curr_len of
             None \<Rightarrow> None
           | Some c \<Rightarrow> if c \<noteq> 0 then strlen_loop s max_len (Suc curr_len) else Some curr_len
      else Some curr_len)"
  by pat_completeness auto
termination
  by (relation "measure (\<lambda>(s, max_len, curr_len). max_len - curr_len)") auto

declare strlen_loop.simps [simp del]

definition StrGetLength :: "cptr \<Rightarrow> nat \<Rightarrow> nat option" where
  "StrGetLength pcSrc max_len =
     (case pcSrc of
        None \<Rightarrow> None
      | Some s \<Rightarrow>
          (case strlen_loop s max_len 0 of
             None \<Rightarrow> None
           | Some curr_len \<Rightarrow> Some (if max_len \<le> curr_len then 0 else curr_len)))"

lemma strlen_loop_cstring:
  assumes "terminated s" and "i \<le> length (cstring s)"
  shows "strlen_loop s max_len i = Some (max i (min max_len (length (cstring s))))"
  using assms(2)
proof (induction "length (cstring s) - i" arbitrary: i)
  case 0
  then have "i = length (cstring s)" by simp
  with assms(1) show ?case
    by (subst strlen_loop.simps) (auto simp: c_step cstring_length_less cstring_end)
next
  case (Suc n)
  then have i: "i < length (cstring s)" by simp
  moreover from this assms(1) have "i < length s"
    using cstring_length_less [of s] by simp
  ultimately show ?case
    using Suc cstring_nth_nonzero [OF i]
    by (subst strlen_loop.simps) (auto simp: c_step)
qed

lemma StrGetLength_cstring:
  "terminated s \<Longrightarrow> StrGetLength (Some s) max_len =
     Some (if length (cstring s) < max_len then length (cstring s) else 0)"
  by (simp add: StrGetLength_def strlen_loop_cstring)

lemma StrGetLength_NULL [simp]: "StrGetLength None max_len = None"
  by (simp add: StrGetLength_def)

subsection \<open>StrCopy\<close>

text \<open>
  The loop's test has the copy as its effect; \<open>cpy_size\<close> counts the bytes copied before
  the terminator, which is also how far both pointers have moved.
\<close>

function strcpy_loop :: "bytes \<Rightarrow> bytes \<Rightarrow> nat \<Rightarrow> nat \<Rightarrow> (nat \<times> bytes) option" where
  "strcpy_loop d s max_cpy_size cpy_size =
     (if cpy_size < max_cpy_size
      then case rd s cpy_size of
             None \<Rightarrow> None
           | Some c \<Rightarrow>
               (case wr d cpy_size c of
                  None \<Rightarrow> None
                | Some d' \<Rightarrow>
                    if c \<noteq> 0 then strcpy_loop d' s max_cpy_size (Suc cpy_size)
                    else Some (cpy_size, d'))
      else Some (cpy_size, d))"
  by pat_completeness auto
termination
  by (relation "measure (\<lambda>(d, s, max_cpy_size, cpy_size). max_cpy_size - cpy_size)") auto

declare strcpy_loop.simps [simp del]

text \<open>The result: whether the returned pointer is non-NULL, and the destination object.\<close>

definition StrCopy :: "cptr \<Rightarrow> cptr \<Rightarrow> nat \<Rightarrow> (bool \<times> bytes) option" where
  "StrCopy pcDest pcSrc max_cpy_size =
     (case (pcDest, pcSrc) of
        (Some d, Some s) \<Rightarrow>
          (case strcpy_loop d s max_cpy_size 0 of
             None \<Rightarrow> None
           | Some (cpy_size, d') \<Rightarrow> Some (\<not> max_cpy_size \<le> cpy_size, d'))
      | _ \<Rightarrow> None)"

lemma strcpy_loop_cstring:
  assumes "terminated s" and "length (cstring s) < max_len" and "length (cstring s) < length d"
    and "i \<le> length (cstring s)" and "take i d = take i (cstring s)"
  shows "strcpy_loop d s max_len i =
    Some (length (cstring s), cstring s @ 0 # drop (Suc (length (cstring s))) d)"
  using assms(3-)
proof (induction "length (cstring s) - i" arbitrary: i d)
  case 0
  then have i: "i = length (cstring s)" by simp
  with 0 have "d[i := 0] = cstring s @ 0 # drop (Suc i) d"
    by (simp add: upd_conv_take_nth_drop)
  with i 0 assms(1,2) show ?case
    by (subst strcpy_loop.simps) (simp add: c_step cstring_length_less cstring_end)
next
  case (Suc n)
  then have i: "i < length (cstring s)" by simp
  let ?d = "d[i := cstring s ! i]"
  have s: "i < length s" using i assms(1) cstring_length_less [of s] by simp
  have "take (Suc i) ?d = take (Suc i) (cstring s)"
    using Suc.prems i by (simp add: take_Suc_conv_app_nth)
  then have "strcpy_loop ?d s max_len (Suc i) =
    Some (length (cstring s), cstring s @ 0 # drop (Suc (length (cstring s))) ?d)"
    using Suc by simp
  moreover have "drop (Suc (length (cstring s))) ?d = drop (Suc (length (cstring s))) d"
    using i by simp
  ultimately show ?case
    using i s Suc.prems assms(2) cstring_nth_nonzero [OF i] cstring_nth [OF i]
    by (subst strcpy_loop.simps) (auto simp: c_step)
qed

lemma StrCopy_cstring:
  assumes "terminated s" and "length (cstring s) < max_len" and "length (cstring s) < length d"
  shows "StrCopy (Some d) (Some s) max_len =
    Some (True, cstring s @ 0 # drop (Suc (length (cstring s))) d)"
  using strcpy_loop_cstring [OF assms, of 0] assms(2) by (simp add: StrCopy_def)

text \<open>A destination too small for the string and its terminator is overrun.\<close>

lemma strcpy_loop_overrun:
  assumes "terminated s" and "length d \<le> length (cstring s)" and "length d < max_len"
    and "i \<le> length d"
  shows "strcpy_loop d s max_len i = None"
  using assms(2-)
proof (induction "length d - i" arbitrary: i d)
  case 0
  then show ?case
    using cstring_length_less [OF assms(1)]
    by (subst strcpy_loop.simps) (simp add: c_step wr_None)
next
  case (Suc n)
  then have i: "i < length (cstring s)" "i < length s"
    using cstring_length_less [OF assms(1)] by simp_all
  have "strcpy_loop (d[i := cstring s ! i]) s max_len (Suc i) = None"
    using Suc by simp
  then show ?case
    using i Suc.hyps(2) Suc.prems cstring_nth_nonzero [OF i(1)] cstring_nth [OF i(1)]
    by (subst strcpy_loop.simps) (auto simp: c_step)
qed

lemma StrCopy_overrun:
  assumes "terminated s" and "length d \<le> length (cstring s)" and "length d < max_len"
  shows "StrCopy (Some d) (Some s) max_len = None"
  using strcpy_loop_overrun [OF assms, of 0] by (simp add: StrCopy_def)

subsection \<open>StrCompare\<close>

function strcmp_loop :: "bytes \<Rightarrow> bytes \<Rightarrow> nat \<Rightarrow> nat \<Rightarrow> nat option" where
  "strcmp_loop s1 s2 max_len curr_len =
     (if curr_len < max_len
      then case rd s1 curr_len of
             None \<Rightarrow> None
           | Some c1 \<Rightarrow>
               if c1 \<noteq> 0
               then case rd s2 curr_len of
                      None \<Rightarrow> None
                    | Some c2 \<Rightarrow>
                        if c1 = c2 then strcmp_loop s1 s2 max_len (Suc curr_len)
                        else Some curr_len
               else Some curr_len
      else Some curr_len)"
  by pat_completeness auto
termination
  by (relation "measure (\<lambda>(s1, s2, max_len, curr_len). max_len - curr_len)") auto

declare strcmp_loop.simps [simp del]

definition StrCompare :: "cptr \<Rightarrow> cptr \<Rightarrow> nat \<Rightarrow> int option" where
  "StrCompare pcS1 pcS2 max_len =
     (case (pcS1, pcS2) of
        (Some s1, Some s2) \<Rightarrow> do {
          curr_len \<leftarrow> strcmp_loop s1 s2 max_len 0;
          if max_len \<le> curr_len then Some 0
          else do {
            c1 \<leftarrow> rd s1 curr_len;
            c2 \<leftarrow> rd s2 curr_len;
            Some (sint c1 - sint c2)
          }
        }
      | _ \<Rightarrow> None)"

lemma strcmp_loop_spec:
  assumes "terminated s1" and "terminated s2"
    and "i \<le> length (cstring s1)" and "i \<le> length (cstring s2)"
    and "take i (cstring s1) = take i (cstring s2)"
  shows "\<exists>k. strcmp_loop s1 s2 max_len i = Some k \<and> k \<le> length (cstring s1) \<and>
    k \<le> length (cstring s2) \<and> take k (cstring s1) = take k (cstring s2) \<and>
    (k < max_len \<longrightarrow> s1 ! k = 0 \<or> s1 ! k \<noteq> s2 ! k)"
  using assms(3-)
proof (induction "length (cstring s1) - i" arbitrary: i)
  case 0
  then have "strcmp_loop s1 s2 max_len i = Some i"
    using cstring_length_less [OF assms(1)] cstring_end [OF assms(1)]
    by (subst strcmp_loop.simps) (simp add: c_step)
  with 0 show ?case using cstring_end [OF assms(1)] by auto
next
  case (Suc n)
  then have i: "i < length (cstring s1)" by simp
  have in1: "i < length s1" and in2: "i < length s2"
    using i Suc.prems(2) cstring_length_less [OF assms(1)] cstring_length_less [OF assms(2)]
    by simp_all
  show ?case
  proof (cases "i < max_len \<and> s1 ! i = s2 ! i")
    case True
    have "i \<noteq> length (cstring s2)"
      using True cstring_nth_nonzero [OF i] cstring_end [OF assms(2)] by auto
    with Suc.prems have i2: "i < length (cstring s2)" by simp
    have "cstring s1 ! i = cstring s2 ! i"
      using True cstring_nth [OF i] cstring_nth [OF i2] by simp
    with Suc.prems i i2 have "take (Suc i) (cstring s1) = take (Suc i) (cstring s2)"
      by (simp add: take_Suc_conv_app_nth)
    moreover have "strcmp_loop s1 s2 max_len i = strcmp_loop s1 s2 max_len (Suc i)"
      using True in1 in2 cstring_nth_nonzero [OF i]
      by (subst strcmp_loop.simps) (simp add: c_step)
    ultimately show ?thesis
      using Suc.hyps(1) [of "Suc i"] Suc.hyps(2) i i2 by simp
  next
    case False
    then have "strcmp_loop s1 s2 max_len i = Some i"
      using in1 in2 by (subst strcmp_loop.simps) (simp add: c_step)
    with False Suc.prems show ?thesis by auto
  qed
qed

lemma cstring_eq_at_stop:
  assumes "terminated s1" and "terminated s2"
    and "k \<le> length (cstring s1)" and "k \<le> length (cstring s2)"
    and "take k (cstring s1) = take k (cstring s2)" and "s1 ! k = 0 \<or> s1 ! k \<noteq> s2 ! k"
  shows "s1 ! k = s2 ! k \<longleftrightarrow> cstring s1 = cstring s2"
proof
  assume eq: "s1 ! k = s2 ! k"
  with assms(6) have "s1 ! k = 0" by simp
  then have "k = length (cstring s1)" and "k = length (cstring s2)"
    using eq assms(3,4) cstring_nth_nonzero [of k s1] cstring_nth_nonzero [of k s2]
    by (auto simp: le_less)
  with assms(5) show "cstring s1 = cstring s2" by simp
next
  assume eq: "cstring s1 = cstring s2"
  show "s1 ! k = s2 ! k"
  proof (cases "k < length (cstring s1)")
    case True
    with eq show ?thesis using cstring_nth [of k s1] cstring_nth [of k s2] by simp
  next
    case False
    with eq assms(1-4) show ?thesis using cstring_end [of s1] cstring_end [of s2] by simp
  qed
qed

lemma StrCompare_zero_iff:
  assumes "terminated s1" and "terminated s2" and "length (cstring s1) < max_len"
  shows "\<exists>r. StrCompare (Some s1) (Some s2) max_len = Some r \<and>
    (r = 0 \<longleftrightarrow> cstring s1 = cstring s2)"
proof -
  obtain k where k: "strcmp_loop s1 s2 max_len 0 = Some k" "k \<le> length (cstring s1)"
      "k \<le> length (cstring s2)" "take k (cstring s1) = take k (cstring s2)"
      "k < max_len \<longrightarrow> s1 ! k = 0 \<or> s1 ! k \<noteq> s2 ! k"
    using strcmp_loop_spec [OF assms(1,2), of 0 max_len] by auto
  then have "k < max_len" using assms(3) by simp
  moreover have "k < length s1" and "k < length s2"
    using k cstring_length_less [OF assms(1)] cstring_length_less [OF assms(2)] by simp_all
  ultimately have "StrCompare (Some s1) (Some s2) max_len = Some (sint (s1 ! k) - sint (s2 ! k))"
    using k by (simp add: StrCompare_def c_step)
  moreover have "s1 ! k = s2 ! k \<longleftrightarrow> cstring s1 = cstring s2"
    using cstring_eq_at_stop [OF assms(1,2)] k \<open>k < max_len\<close> by simp
  ultimately show ?thesis by (simp flip: word_eq_iff_signed)
qed

text \<open>The sign of \<open>StrCompare\<close>: for two strings that first differ after a common prefix,
  the result is the difference of the differing characters, as signed values.\<close>

theorem StrCompare_first_difference:
  assumes "0 \<notin> set p" and "c1 \<noteq> c2" and "length p < max_len"
    and "terminated (p @ c1 # r1)" and "terminated (p @ c2 # r2)"
  shows "StrCompare (Some (p @ c1 # r1)) (Some (p @ c2 # r2)) max_len = Some (sint c1 - sint c2)"
proof -
  have "strcmp_loop (p @ c1 # r1) (p @ c2 # r2) max_len i = Some (length p)"
    if "i \<le> length p" for i
    using that
  proof (induction "length p - i" arbitrary: i)
    case 0
    with assms(2,3) show ?case by (subst strcmp_loop.simps) (auto simp: rd_def nth_append)
  next
    case (Suc n)
    then have "i < length p" and "p ! i \<noteq> 0" using assms(1) by (auto simp: in_set_conv_nth)
    with Suc assms(3) show ?case
      by (subst strcmp_loop.simps) (simp add: c_step nth_append)
  qed
  from this [of 0] assms(3) show ?thesis by (simp add: StrCompare_def c_step)
qed

theorem StrCompare_first_difference_witness:
  "StrCompare (Some (lit ''ab'' @ 99 # [0])) (Some (lit ''ab'' @ 0 # [])) 10240 = Some 99"
  using StrCompare_first_difference [of "lit ''ab''" 99 0 10240 "[0]" "[]"] by (simp add: lit_def terminated_def)

subsection \<open>StrTok, StrStrip and StrSplit\<close>

text \<open>
  The scanning loop of \<open>StrTok\<close> and \<open>StrStrip\<close>: \<open>P\<close> is the test on \<open>start[i]\<close> (which
  includes the test against NUL). It advances \<open>i\<close> and \<open>*index\<close> together; the bound is on
  \<open>*index\<close>, not on \<open>i\<close>.
\<close>

function scan_loop :: "(byte \<Rightarrow> bool) \<Rightarrow> bytes \<Rightarrow> nat \<Rightarrow> nat \<Rightarrow> nat \<Rightarrow> nat \<Rightarrow> (nat \<times> nat) option" where
  "scan_loop P buf start max_len i index =
     (if index < max_len
      then case rd buf (start + i) of
             None \<Rightarrow> None
           | Some c \<Rightarrow> if P c then scan_loop P buf start max_len (Suc i) (Suc index)
                       else Some (i, index)
      else Some (i, index))"
  by pat_completeness auto
termination
  by (relation "measure (\<lambda>(P, buf, start, max_len, i, index). max_len - index)") auto

declare scan_loop.simps [simp del]

text \<open>
  A pointer into the line buffer is an offset; the results are the returned pointer and
  the new \<open>*index\<close>.
\<close>

definition StrTok :: "bytes \<Rightarrow> nat \<Rightarrow> nat \<Rightarrow> nat \<Rightarrow> (nat \<times> nat) option" where
  "StrTok buf start max_len index = do {
     (i, index') \<leftarrow> scan_loop (\<lambda>c. c \<noteq> 0 \<and> isalpha c) buf start max_len 0 index;
     Some (start + i, index')
   }"

definition StrStrip :: "bytes \<Rightarrow> nat \<Rightarrow> nat \<Rightarrow> nat \<Rightarrow> (nat \<times> nat) option" where
  "StrStrip buf start max_len index = do {
     (i, index') \<leftarrow> scan_loop (\<lambda>c. c \<noteq> 0 \<and> \<not> isalpha c) buf start max_len 0 index;
     Some (start + i, index')
   }"

text \<open>\<open>StrSplit\<close> also writes the terminator, so it returns the buffer too.\<close>

definition StrSplit :: "bytes \<Rightarrow> nat \<Rightarrow> nat \<Rightarrow> nat \<Rightarrow> (bytes \<times> nat \<times> nat) option" where
  "StrSplit buf end_p max_len index = do {
     buf' \<leftarrow> wr buf end_p 0;
     let index' = Suc index;
     if max_len < index' then Some (buf', end_p, index')
     else do {
       (ptr, index'') \<leftarrow> StrStrip buf' (end_p + 1) (size_sub max_len index') index';
       Some (buf', ptr, index'')
     }
   }"

text \<open>
  The scan stops at the first byte that fails the test, or after \<open>max_len - index\<close> bytes.
  The byte it stops at has to lie in the buffer only if the bound does not stop it first.
\<close>

lemma scan_loop_spec:
  assumes "start + i + length (takeWhile P (drop (start + i) buf)) < length buf"
  shows "scan_loop P buf start max_len i index =
    (let n = min (length (takeWhile P (drop (start + i) buf))) (max_len - index)
     in Some (i + n, index + n))"
  using assms
proof (induction "max_len - index" arbitrary: i index)
  case 0
  then show ?case by (subst scan_loop.simps) (simp add: Let_def)
next
  case (Suc n)
  then have less: "start + i < length buf" and bound: "index < max_len" by simp_all
  show ?case
  proof (cases "P (buf ! (start + i))")
    case True
    then have tw: "length (takeWhile P (drop (start + i) buf)) =
        Suc (length (takeWhile P (drop (start + Suc i) buf)))"
      using less by (simp add: takeWhile_drop_step)
    have "scan_loop P buf start max_len i index = scan_loop P buf start max_len (Suc i) (Suc index)"
      using True less bound by (subst scan_loop.simps) (simp add: c_step)
    also have "\<dots> = (let n = min (length (takeWhile P (drop (start + Suc i) buf))) (max_len - Suc index)
        in Some (Suc i + n, Suc index + n))"
      using Suc.prems Suc.hyps tw by simp
    finally show ?thesis
      using tw Suc.hyps(2) by (auto simp: Let_def min_def)
  next
    case False
    then show ?thesis
      using less bound by (subst scan_loop.simps) (simp add: c_step takeWhile_drop_step Let_def)
  qed
qed

lemma takeWhile_stop_less:
  assumes "\<not> P 0" and "start < length buf" and "terminated (drop start buf)"
  shows "start + length (takeWhile P (drop start buf)) < length buf"
proof -
  have "\<exists>x\<in>set (drop start buf). \<not> P x"
    using assms(1,3) by (auto simp: terminated_def)
  then have "length (takeWhile P (drop start buf)) < length (drop start buf)"
    by (rule length_takeWhile_less_iff)
  then show ?thesis using assms(2) by simp
qed

text \<open>
  On a terminated buffer, within the bound, \<open>StrTok\<close> and \<open>StrStrip\<close> skip exactly the
  longest run of letters, respectively of bytes that are neither letters nor NUL.
\<close>

lemma StrTok_run:
  assumes "start < length buf" and "terminated (drop start buf)"
  defines "n \<equiv> length (takeWhile isalpha (drop start buf))"
  assumes "index + n \<le> max_len"
  shows "StrTok buf start max_len index = Some (start + n, index + n)"
proof -
  have P: "(\<lambda>c. c \<noteq> 0 \<and> isalpha c) = isalpha" by (auto simp: fun_eq_iff)
  show ?thesis
    using assms(4) takeWhile_stop_less [of isalpha start buf] assms(1,2)
    by (simp add: StrTok_def P scan_loop_spec Let_def n_def)
qed

definition non_word :: "byte \<Rightarrow> bool" where
  "non_word c \<longleftrightarrow> c \<noteq> 0 \<and> \<not> isalpha c"

lemma StrStrip_run:
  assumes "start < length buf" and "terminated (drop start buf)"
  defines "n \<equiv> length (takeWhile non_word (drop start buf))"
  assumes "index + n \<le> max_len"
  shows "StrStrip buf start max_len index = Some (start + n, index + n)"
proof -
  have P: "(\<lambda>c. c \<noteq> 0 \<and> \<not> isalpha c) = non_word" by (auto simp: fun_eq_iff non_word_def)
  have "\<not> non_word 0" by (simp add: non_word_def)
  then show ?thesis
    using assms(4) takeWhile_stop_less [of non_word start buf] assms(1,2)
    by (simp add: StrStrip_def P scan_loop_spec Let_def n_def)
qed

text \<open>Once \<open>*index\<close> has reached the bound, neither routine moves.\<close>

lemma scan_at_bound:
  "max_len \<le> index \<Longrightarrow> StrTok buf start max_len index = Some (start, index)"
  "max_len \<le> index \<Longrightarrow> StrStrip buf start max_len index = Some (start, index)"
  by (simp_all add: StrTok_def StrStrip_def scan_loop.simps)

subsection \<open>StrConcat\<close>

text \<open>
  The search for the end of the destination never increments \<open>curr_len\<close>, so its bound
  holds or fails once and for all: the loop runs to the terminator, wherever that is.
\<close>

function strend_loop :: "bytes \<Rightarrow> nat \<Rightarrow> nat \<Rightarrow> nat \<Rightarrow> nat option" where
  "strend_loop d max_len curr_len p =
     (if curr_len < max_len
      then case rd d p of
             None \<Rightarrow> None
           | Some c \<Rightarrow> if c \<noteq> 0 then strend_loop d max_len curr_len (Suc p) else Some p
      else Some p)"
  by pat_completeness auto
termination
  by (relation "measure (\<lambda>(d, max_len, curr_len, p). length d - p)")
    (auto simp: rd_def split: if_splits)

declare strend_loop.simps [simp del]

definition StrConcat :: "cptr \<Rightarrow> cptr \<Rightarrow> nat \<Rightarrow> (bool \<times> bytes) option" where
  "StrConcat pcDest pcSrc max_len =
     (case (pcDest, pcSrc) of
        (Some d, Some s) \<Rightarrow> do {
          let curr_len = 0;
          p \<leftarrow> strend_loop d max_len curr_len 0;
          if max_len \<le> curr_len then Some (False, d)
          else do {
            (_, d') \<leftarrow> StrCopy (Some (drop p d)) (Some s) (size_sub max_len p);
            Some (True, take p d @ d')
          }
        }
      | _ \<Rightarrow> None)"

lemma strend_loop_cstring:
  assumes "terminated d" and "0 < max_len" and "i \<le> length (cstring d)"
  shows "strend_loop d max_len 0 i = Some (length (cstring d))"
  using assms(3)
proof (induction "length (cstring d) - i" arbitrary: i)
  case 0
  with assms show ?case
    using cstring_length_less [OF assms(1)] cstring_end [OF assms(1)]
    by (subst strend_loop.simps) (simp add: rd_def)
next
  case (Suc n)
  then have i: "i < length (cstring d)" by simp
  with Suc assms(1,2) show ?case
    using cstring_nth_nonzero [OF i] cstring_length_less [OF assms(1)]
    by (subst strend_loop.simps) (simp add: c_step)
qed

lemma StrConcat_cstring:
  assumes "terminated d" and "terminated s" and "max_len < 2 ^ 64"
    and "length (cstring d) + length (cstring s) < length d"
    and "length (cstring d) + length (cstring s) < max_len"
  shows "\<exists>r. StrConcat (Some d) (Some s) max_len =
    Some (True, cstring d @ cstring s @ 0 # r) \<and> length (cstring d @ cstring s @ 0 # r) = length d"
proof -
  let ?n = "length (cstring d)"
  have "StrCopy (Some (drop ?n d)) (Some s) (max_len - ?n) =
      Some (True, cstring s @ 0 # drop (Suc (length (cstring s))) (drop ?n d))"
    using assms by (intro StrCopy_cstring) auto
  moreover have "take ?n d = cstring d"
    using cstring_split [OF assms(1)] by (metis append_eq_conv_conj)
  ultimately have "StrConcat (Some d) (Some s) max_len =
      Some (True, cstring d @ cstring s @ 0 # drop (Suc (length (cstring s))) (drop ?n d))"
    using assms by (simp add: StrConcat_def strend_loop_cstring size_sub_le)
  then show ?thesis using assms(4) by auto
qed

text \<open>A destination with no terminator is read past its end, whatever the bound.\<close>

lemma strend_loop_unterminated:
  "\<not> terminated d \<Longrightarrow> 0 < max_len \<Longrightarrow> strend_loop d max_len 0 i = None"
proof (induction "length d - i" arbitrary: i)
  case 0
  then show ?case by (subst strend_loop.simps) (simp add: rd_None)
next
  case (Suc n)
  then have "d ! i \<noteq> 0"
    by (metis nth_mem terminated_def zero_less_Suc zero_less_diff)
  with Suc show ?case by (subst strend_loop.simps) (simp add: c_step)
qed

text \<open>The bound of \<open>StrConcat\<close> does not stop the search for the end of the destination:
  a destination with no terminator is read past its end, whatever the bound.\<close>

theorem StrConcat_ignores_bound:
  "\<not> terminated d \<Longrightarrow> 0 < max_len \<Longrightarrow> StrConcat (Some d) src max_len = None"
  by (simp add: StrConcat_def strend_loop_unterminated split: option.split)

theorem StrConcat_ignores_bound_witness: "StrConcat (Some [65, 66, 67]) (Some [68, 0]) 2 = None"
  using StrConcat_ignores_bound [of "[65, 66, 67]" 2 "Some [68, 0]"] by (simp add: terminated_def)

subsection \<open>StrSearch\<close>

text \<open>
  \<open>curr_len\<close> is an automatic variable the source never initialises, so its first value is
  whatever the stack holds: the parameter \<open>curr_len\<close> of \<open>StrSearch\<close>. The inner loop
  returns the counter and the two pointers; the result of \<open>StrSearch\<close> is the returned
  pointer as an offset into the haystack, \<^term>\<open>None\<close> inside \<^term>\<open>Some\<close> for NULL.
\<close>

function strsearch_inner :: "bytes \<Rightarrow> bytes \<Rightarrow> nat \<Rightarrow> nat \<Rightarrow> nat \<Rightarrow> nat \<Rightarrow> (nat \<times> nat \<times> nat) option" where
  "strsearch_inner hay ndl max_len curr_len h n =
     (if curr_len < max_len
      then case rd hay h of
             None \<Rightarrow> None
           | Some ch \<Rightarrow>
               if ch \<noteq> 0
               then case rd ndl n of
                      None \<Rightarrow> None
                    | Some cn \<Rightarrow>
                        if cn \<noteq> 0
                        then if ch \<noteq> cn then Some (Suc curr_len, h, n)
                             else strsearch_inner hay ndl max_len (Suc curr_len) (Suc h) (Suc n)
                        else Some (curr_len, h, n)
               else Some (curr_len, h, n)
      else Some (curr_len, h, n))"
  by pat_completeness auto
termination
  by (relation "measure (\<lambda>(hay, ndl, max_len, curr_len, h, n). max_len - curr_len)") auto

declare strsearch_inner.simps [simp del]

function strsearch_outer :: "bytes \<Rightarrow> bytes \<Rightarrow> nat \<Rightarrow> nat \<Rightarrow> nat \<Rightarrow> nat option option" where
  "strsearch_outer hay ndl max_len curr_len p =
     (if curr_len < max_len
      then case rd hay p of
             None \<Rightarrow> None
           | Some c \<Rightarrow>
               if c \<noteq> 0
               then case rd ndl 0 of
                      None \<Rightarrow> None
                    | Some n0 \<Rightarrow>
                        if c = n0
                        then case strsearch_inner hay ndl max_len curr_len p 0 of
                               None \<Rightarrow> None
                             | Some (curr_len', h, n) \<Rightarrow>
                                 (case rd ndl n of
                                    None \<Rightarrow> None
                                  | Some cn \<Rightarrow>
                                      if cn = 0 then Some (Some p)
                                      else case rd hay h of
                                             None \<Rightarrow> None
                                           | Some ch \<Rightarrow>
                                               if ch = 0 then Some None
                                               else strsearch_outer hay ndl max_len curr_len' (Suc p))
                        else strsearch_outer hay ndl max_len curr_len (Suc p)
               else Some None
      else Some None)"
  by pat_completeness auto
termination
  by (relation "measure (\<lambda>(hay, ndl, max_len, curr_len, p). length hay - p)")
    (auto simp: rd_def split: if_splits)

declare strsearch_outer.simps [simp del]

definition StrSearch :: "cptr \<Rightarrow> cptr \<Rightarrow> nat \<Rightarrow> nat \<Rightarrow> nat option option" where
  "StrSearch pcHaystack pcNeedle max_len curr_len =
     (case (pcHaystack, pcNeedle) of
        (Some hay, Some ndl) \<Rightarrow> do {
          n0 \<leftarrow> rd ndl 0;
          if n0 = 0 then Some (Some 0)
          else strsearch_outer hay ndl max_len curr_len 0
        }
      | _ \<Rightarrow> None)"

text \<open>\<open>StrSearch\<close> never initialises its counter: when the stack happens to hold a value at or past the
  bound, it reports that the needle is absent without looking.\<close>

theorem StrSearch_uninitialised:
  "ndl \<noteq> [] \<Longrightarrow> hd ndl \<noteq> 0 \<Longrightarrow> max_len \<le> curr_len \<Longrightarrow>
    StrSearch (Some hay) (Some ndl) max_len curr_len = Some None"
  by (cases ndl) (simp_all add: StrSearch_def rd_def strsearch_outer.simps)

theorem StrSearch_uninitialised_witness:
  "StrSearch (Some (lit ''ab'' @ [0])) (Some (lit ''ab'' @ [0])) 100 12345 = Some None"
  using StrSearch_uninitialised [of "lit ''ab'' @ [0]" 100 12345 "lit ''ab'' @ [0]"] by (simp add: lit_def)

text \<open>
  With a counter that starts below a generous bound the search is the naive substring
  search: it finds the first position where the needle occurs.
\<close>

lemma strsearch_inner_spec:
  assumes "terminated hay" and "terminated ndl"
  defines "H \<equiv> cstring hay" and "N \<equiv> cstring ndl"
  assumes "j \<le> length N" and "p + j \<le> length H" and "take j (drop p H) = take j N"
    and "curr_len + (length N - j) < max_len"
  shows "\<exists>c n. strsearch_inner hay ndl max_len curr_len (p + j) j = Some (c, p + n, n) \<and>
    c \<le> curr_len + (length N - j) \<and> n \<le> length N \<and> p + n \<le> length H \<and>
    take n (drop p H) = take n N \<and> (n = length N \<or> p + n = length H \<or> H ! (p + n) \<noteq> N ! n)"
  using assms(5-)
proof (induction "length N - j" arbitrary: j curr_len)
  case 0
  then have "ndl ! j = 0" and "j < length ndl" and "p + j < length hay"
    using assms cstring_end [of ndl] cstring_length_less [of ndl] cstring_length_less [of hay]
    by simp_all
  then have "strsearch_inner hay ndl max_len curr_len (p + j) j = Some (curr_len, p + j, j)"
    using 0 by (subst strsearch_inner.simps) (simp add: c_step)
  with 0 show ?case by auto
next
  case (Suc m)
  then have bound: "curr_len < max_len" by linarith
  from Suc have j: "j < length N" and len: "p + j < length hay" "j < length ndl"
    using assms cstring_length_less [of ndl] cstring_length_less [of hay] by simp_all
  have nj: "ndl ! j = N ! j" "ndl ! j \<noteq> 0"
    using j cstring_nth [of j ndl] cstring_nth_nonzero [of j ndl] by (simp_all add: N_def)
  show ?case
  proof (cases "p + j < length H \<and> H ! (p + j) = N ! j")
    case True
    then have hj: "hay ! (p + j) = N ! j"
      using cstring_nth [of "p + j" hay] by (simp add: H_def)
    have "j < length (drop p H)" using True by auto
    then have "take (Suc j) (drop p H) = take (Suc j) N"
      using Suc.prems(3) take_Suc_conv_app_nth [OF j] take_Suc_conv_app_nth [of j "drop p H"] True
      by simp
    moreover have "strsearch_inner hay ndl max_len curr_len (p + j) j =
        strsearch_inner hay ndl max_len (Suc curr_len) (p + Suc j) (Suc j)"
      using bound len hj nj by (subst strsearch_inner.simps) (simp add: c_step)
    moreover have "Suc curr_len + (length N - Suc j) = curr_len + (length N - j)"
      using j by simp
    moreover have "m = length N - Suc j" and "Suc j \<le> length N" and "p + Suc j \<le> length H"
      using Suc.hyps(2) j True by simp_all
    ultimately show ?thesis
      using Suc.hyps(1) [of "Suc j" "Suc curr_len"] Suc.prems(4) by metis
  next
    case False
    have "\<exists>c \<le> Suc curr_len. strsearch_inner hay ndl max_len curr_len (p + j) j = Some (c, p + j, j)"
    proof (cases "p + j < length H")
      case True
      then have "hay ! (p + j) \<noteq> 0" "hay ! (p + j) \<noteq> ndl ! j"
        using False nj cstring_nth [of "p + j" hay] cstring_nth_nonzero [of "p + j" hay]
        by (auto simp: H_def)
      then show ?thesis
        using bound len nj by (subst strsearch_inner.simps) (simp add: c_step)
    next
      case False
      then have "hay ! (p + j) = 0"
        using Suc.prems(2) assms(1) cstring_end [of hay] by (simp add: H_def)
      then show ?thesis
        using bound len by (subst strsearch_inner.simps) (simp add: c_step)
    qed
    with False j Suc.prems show ?thesis by fastforce
  qed
qed

definition occurs_at :: "bytes \<Rightarrow> bytes \<Rightarrow> nat \<Rightarrow> bool" where
  "occurs_at N H q \<longleftrightarrow> take (length N) (drop q H) = N"

lemma occurs_at_too_short: "length H < q + length N \<Longrightarrow> N \<noteq> [] \<Longrightarrow> \<not> occurs_at N H q"
  by (auto simp: occurs_at_def dest!: arg_cong [where f = length])

lemma find_upt_step:
  "p < n \<Longrightarrow> find P [p..<n] = (if P p then Some p else find P [Suc p..<n])"
  by (simp add: upt_conv_Cons)

lemma find_none: "\<forall>q. p \<le> q \<longrightarrow> q < n \<longrightarrow> \<not> P q \<Longrightarrow> find P [p..<n] = None"
  by (simp add: find_None_iff)

lemma strsearch_outer_spec:
  assumes "terminated hay" and "terminated ndl"
  defines "H \<equiv> cstring hay" and "N \<equiv> cstring ndl"
  assumes "N \<noteq> []" and "p \<le> length H" and "curr_len + (length H - p) * length N < max_len"
  shows "strsearch_outer hay ndl max_len curr_len p = Some (find (occurs_at N H) [p..<length H])"
  using assms(6-)
proof (induction "length H - p" arbitrary: p curr_len)
  case 0
  then have "hay ! p = 0" "p < length hay"
    using assms cstring_end [of hay] cstring_length_less [of hay] by simp_all
  with 0 show ?case by (subst strsearch_outer.simps) (simp add: c_step)
next
  case (Suc m)
  let ?ih = "strsearch_outer hay ndl max_len"
  have p: "p < length H" and len: "p < length hay" "0 < length ndl"
    using Suc.hyps(2) assms cstring_length_less [of hay] cstring_length_less [of ndl] by auto
  have hp: "hay ! p = H ! p" "hay ! p \<noteq> 0" and n0: "ndl ! 0 = N ! 0"
    using p assms(5) cstring_nth [of p hay] cstring_nth_nonzero [of p hay] cstring_nth [of 0 ndl]
    by (simp_all add: H_def N_def)
  have budget: "curr_len + length N + (length H - Suc p) * length N < max_len"
    using Suc.prems Suc.hyps(2) by (metis add.assoc diff_Suc_Suc mult_Suc Suc_diff_Suc p)
  have rest: "?ih c (Suc p) = Some (find (occurs_at N H) [Suc p..<length H])"
    if "c \<le> curr_len + length N" for c
    using Suc.hyps(1) [of "Suc p" c] Suc.hyps(2) p budget that by simp
  show ?case
  proof (cases "H ! p = N ! 0")
    case False
    then have "\<not> occurs_at N H p"
      using assms(5) p by (auto simp: occurs_at_def drop_nth_Cons neq_Nil_conv)
    moreover have "?ih curr_len p = ?ih curr_len (Suc p)"
      using False hp n0 len budget by (subst strsearch_outer.simps) (simp add: c_step)
    ultimately show ?thesis using rest [of curr_len] p by (simp add: find_upt_step)
  next
    case True
    have "\<exists>c n. strsearch_inner hay ndl max_len curr_len (p + 0) 0 = Some (c, p + n, n) \<and>
        c \<le> curr_len + (length N - 0) \<and> n \<le> length N \<and> p + n \<le> length H \<and>
        take n (drop p H) = take n N \<and> (n = length N \<or> p + n = length H \<or> H ! (p + n) \<noteq> N ! n)"
      using strsearch_inner_spec [OF assms(1,2), of 0 p curr_len max_len] p budget
      by (simp add: H_def N_def)
    then obtain c n where inner: "strsearch_inner hay ndl max_len curr_len p 0 = Some (c, p + n, n)"
      and c: "c \<le> curr_len + length N" and n: "n \<le> length N" "p + n \<le> length H"
      and eq: "take n (drop p H) = take n N"
      and stop: "n = length N \<or> p + n = length H \<or> H ! (p + n) \<noteq> N ! n"
      by auto
    have bounds: "n < length ndl" "p + n < length hay"
      using n assms cstring_length_less [of hay] cstring_length_less [of ndl] by simp_all
    have unfold: "?ih curr_len p =
        (if ndl ! n = 0 then Some (Some p)
         else if hay ! (p + n) = 0 then Some None else ?ih c (Suc p))"
      using True hp n0 len budget bounds inner by (subst strsearch_outer.simps) (simp add: c_step)
    have ndl_end: "ndl ! n = 0 \<longleftrightarrow> n = length N"
      using n assms(2) cstring_end [of ndl] cstring_nth_nonzero [of n ndl] by (auto simp: N_def le_less)
    have hay_end: "hay ! (p + n) = 0 \<longleftrightarrow> p + n = length H"
      using n assms(1) cstring_end [of hay] cstring_nth_nonzero [of "p + n" hay]
      by (auto simp: H_def le_less)
    consider "n = length N" | "n < length N" "p + n = length H" |
        "n < length N" "p + n < length H" "H ! (p + n) \<noteq> N ! n"
      using n stop by linarith
    then show ?thesis
    proof cases
      case 1
      then have "occurs_at N H p" using eq by (simp add: occurs_at_def)
      with 1 unfold ndl_end p show ?thesis by (simp add: find_upt_step)
    next
      case 2
      then have "find (occurs_at N H) [p..<length H] = None"
        using assms(5) by (intro find_none) (simp add: occurs_at_too_short)
      with 2 unfold ndl_end hay_end show ?thesis by simp
    next
      case 3
      then have "\<not> occurs_at N H p"
        by (auto simp: occurs_at_def dest!: arg_cong [where f = "\<lambda>xs. xs ! n"])
      with 3 unfold ndl_end hay_end rest [OF c] p show ?thesis by (simp add: find_upt_step)
    qed
  qed
qed

text \<open>With its counter below a generous bound, \<open>StrSearch\<close> finds the first occurrence of the needle.\<close>

theorem StrSearch_finds_first:
  assumes "terminated hay" and "terminated ndl" and "cstring ndl \<noteq> []"
    and "curr_len + length (cstring hay) * length (cstring ndl) < max_len"
  shows "StrSearch (Some hay) (Some ndl) max_len curr_len =
    Some (find (occurs_at (cstring ndl) (cstring hay)) [0..<length (cstring hay)])"
proof -
  have "ndl ! 0 \<noteq> 0" "0 < length ndl"
    using assms(2,3) cstring_nth_nonzero [of 0 ndl] cstring_length_less [of ndl] by auto
  then show ?thesis
    using strsearch_outer_spec [OF assms(1-3), of 0 curr_len max_len] assms(4)
    by (simp add: StrSearch_def c_step)
qed

theorem StrSearch_finds_first_witness:
  "StrSearch (Some (lit ''aab'' @ [0])) (Some (lit ''ab'' @ [0])) 100 0 = Some (Some 1)"
  using StrSearch_finds_first [of "lit ''aab'' @ [0]" "lit ''ab'' @ [0]" 0 100]
  by (simp add: lit_def cstring_def terminated_def occurs_at_def upt_rec)

subsection \<open>Properties\<close>

text \<open>C40. \<open>StrCopy\<close> is memory safe exactly when the destination has room for the string
  and its terminator; then it leaves the string there and nothing after it changes. The
  bound it is given does not protect the destination.\<close>

theorem StrCopy_safe_iff_room:
  assumes "terminated s" and "length (cstring s) < max_len"
  shows "StrCopy (Some d) (Some s) max_len =
    (if length (cstring s) < length d
     then Some (True, cstring s @ 0 # drop (Suc (length (cstring s))) d) else None)"
  using StrCopy_cstring [OF assms, of d] StrCopy_overrun [OF assms(1), of d max_len] assms(2) by auto

theorem StrCopy_safe_iff_room_witness:
  "StrCopy (Some [7, 7, 7, 7]) (Some (lit ''ab'' @ [0])) 2048 = Some (True, lit ''ab'' @ [0, 7]) \<and>
   StrCopy (Some [7]) (Some (lit ''ab'' @ [0])) 2048 = None"
  using StrCopy_safe_iff_room [of "lit ''ab'' @ [0]" 2048 "[7, 7, 7, 7]"]
    StrCopy_safe_iff_room [of "lit ''ab'' @ [0]" 2048 "[7]"]
  by (simp add: lit_def cstring_def terminated_def)

text \<open>\<open>StrConcat\<close> appends the source to the destination when the result fits, and nothing
  but the tail of the destination changes.\<close>

theorem StrConcat_appends:
  assumes "terminated d" and "terminated s" and "max_len < 2 ^ 64"
    and "length (cstring d) + length (cstring s) < length d"
    and "length (cstring d) + length (cstring s) < max_len"
  shows "\<exists>d'. StrConcat (Some d) (Some s) max_len = Some (True, d') \<and>
    cstring d' = cstring d @ cstring s \<and> length d' = length d"
proof -
  obtain r where r: "StrConcat (Some d) (Some s) max_len = Some (True, cstring d @ cstring s @ 0 # r)"
      "length (cstring d @ cstring s @ 0 # r) = length d"
    using StrConcat_cstring [OF assms] by blast
  moreover have "cstring (cstring d @ cstring s @ 0 # r) = cstring d @ cstring s"
    using cstring_append [of "cstring d @ cstring s" r] by simp
  ultimately show ?thesis by blast
qed

theorem StrConcat_appends_witness:
  "\<exists>d'. StrConcat (Some (lit ''ab'' @ [0, 0, 0])) (Some (lit ''/'' @ [0])) 6145 = Some (True, d') \<and>
    cstring d' = lit ''ab/''"
  using StrConcat_appends [of "lit ''ab'' @ [0, 0, 0]" "lit ''/'' @ [0]" 6145]
  by (auto simp: lit_def cstring_def terminated_def)

end
