(* ===== verification/Index_Lists.thy ===== *)
theory Index_Lists
  imports Str_Methods
begin

section \<open>The lists of the index (helper.c, helper.h)\<close>

text \<open>
  The three list structures of \<open>helper.h\<close> and their methods. \<open>struct LinkedList\<close> nodes and
  \<open>struct Word\<close> entries live in a heap, addressed by pointer, because several places
  hold pointers to the same object (the slots of a table, the head of a chain) and the code
  updates them in place. A \<open>struct DynList\<close> is a value: the program has two, each a
  global of its own. An array that one struct owns (\<open>list\<close> of a node, \<open>dyn_list\<close> of
  a table, \<open>str\<close> of a word) is stored in that struct; NULL for it is the empty array.

  \<open>tc_calloc\<close> and \<open>tc_realloc\<close> are called here but defined nowhere in the sources,
  so they are parameters (\<open>allocator\<close>), as is what a fresh \<open>tc_malloc\<close> object
  contains. The lemmas show: the chain of a word as an abstract list of postings,
  insertion into a node and into a chain, and the slot an insertion into a table takes.
\<close>

subsection \<open>Constants and structures\<close>

definition DYN_SIZE :: nat where "DYN_SIZE = 10240"
definition LIST_SIZE :: nat where "LIST_SIZE = 10"

record struct_LinkedList =
  ll_val :: nat
  ll_list :: "nat list"
  ll_list_len :: nat
  ll_last_index :: nat
  ll_next :: addr

record struct_Word =
  wd_hash :: nat
  wd_str :: cptr
  wd_list :: addr

record struct_DynList =
  dl_last_index :: nat
  dl_phys_len :: nat
  dl_list :: "addr list"

text \<open>The heap also counts the allocator calls made so far.\<close>

record heap =
  links :: "addr \<Rightarrow> struct_LinkedList option"
  words :: "addr \<Rightarrow> struct_Word option"
  calls :: nat

text \<open>
  The allocator: the address the \<open>k\<close>-th call of \<open>tc_calloc\<close> or \<open>tc_malloc\<close> returns (0 for
  NULL), the contents \<open>tc_realloc\<close> leaves in an array of words grown to a new length
  (\<^term>\<open>None\<close> for NULL), and the bytes found in a new \<open>tc_malloc\<close> object.
\<close>

record allocator =
  new_addr :: "nat \<Rightarrow> addr"
  tc_realloc :: "nat list \<Rightarrow> nat \<Rightarrow> nat list option"
  junk :: "nat \<Rightarrow> byte"

text \<open>What the code relies on: live objects differ, and nothing fails.\<close>

definition alloc_ok :: "allocator \<Rightarrow> bool" where
  "alloc_ok A \<longleftrightarrow> inj (new_addr A) \<and> (\<forall>k. new_addr A k \<noteq> 0)"

text \<open>
  \<open>tc_realloc\<close> succeeds and keeps the old contents; what the grown part holds is unspecified, as it is
  for \<open>realloc\<close>.
\<close>

definition realloc_ok :: "allocator \<Rightarrow> bool" where
  "realloc_ok A \<longleftrightarrow> (\<forall>xs n. length xs \<le> n \<longrightarrow>
     (\<exists>ys. tc_realloc A xs n = Some ys \<and> length ys = n \<and> take (length xs) ys = xs))"

subsection \<open>Linked list methods\<close>

definition create_link :: "allocator \<Rightarrow> heap \<Rightarrow> nat \<Rightarrow> (addr \<times> heap) option" where
  "create_link A h v =
     (let node = new_addr A (calls h);
          arr = new_addr A (Suc (calls h))
      in if node = 0 then None
         else Some (node, h\<lparr>links := (links h)(node \<mapsto>
                  \<lparr>ll_val = v, ll_list = (if arr = 0 then [] else replicate LIST_SIZE 0),
                   ll_list_len = LIST_SIZE, ll_last_index = 0, ll_next = 0\<rparr>),
                calls := calls h + 2\<rparr>))"

text \<open>
  \<open>tc_free\<close> has no case for NULL (it looks up the page of the pointer), so freeing a
  missing array has no defined result.
\<close>

definition destroy_link :: "heap \<Rightarrow> addr \<Rightarrow> heap option" where
  "destroy_link h link =
     (case links h link of
        None \<Rightarrow> None
      | Some n \<Rightarrow> if ll_list n = [] then None else Some (h\<lparr>links := (links h)(link := None)\<rparr>))"

text \<open>\<open>*head\<close> is passed in and its new value is returned.\<close>

definition insert_link :: "heap \<Rightarrow> addr \<Rightarrow> addr \<Rightarrow> (addr \<times> heap) option" where
  "insert_link h head node =
     (case links h node of
        None \<Rightarrow> None
      | Some n \<Rightarrow> Some (node, h\<lparr>links := (links h)(node \<mapsto> n\<lparr>ll_next := head\<rparr>)\<rparr>))"

partial_function (option) lookup_link :: "heap \<Rightarrow> addr \<Rightarrow> nat \<Rightarrow> addr option" where
  "lookup_link h ptr v =
     (if ptr = 0 then Some 0
      else case links h ptr of
             None \<Rightarrow> None
           | Some n \<Rightarrow> if ll_val n = v then Some ptr else lookup_link h (ll_next n) v)"

partial_function (option) destroy :: "heap \<Rightarrow> addr \<Rightarrow> heap option" where
  "destroy h ptr =
     (if ptr = 0 then Some h
      else do {
        n \<leftarrow> links h ptr;
        h' \<leftarrow> destroy_link h ptr;
        destroy h' (ll_next n)
      })"

subsection \<open>Words and tables\<close>

text \<open>\<open>create_word\<close> returns NULL after its message when the allocation fails.\<close>

definition create_word :: "allocator \<Rightarrow> heap \<Rightarrow> addr \<times> heap" where
  "create_word A h =
     (let word = new_addr A (calls h)
      in (word, h\<lparr>words := (if word = 0 then words h
             else (words h)(word \<mapsto> \<lparr>wd_hash = 0, wd_str = None, wd_list = 0\<rparr>)),
           calls := calls h + 1\<rparr>))"

text \<open>So has freeing a missing string.\<close>

definition destroy_word :: "heap \<Rightarrow> addr \<Rightarrow> heap option" where
  "destroy_word h word =
     (if word = 0 then Some h
      else do {
        w \<leftarrow> words h word;
        _ \<leftarrow> wd_str w;
        h' \<leftarrow> (if wd_list w \<noteq> 0 then destroy h (wd_list w) else Some h);
        Some (h'\<lparr>words := (words h')(word := None)\<rparr>)
      })"

datatype 'a outcome = Returned 'a | Exited int

definition EXIT_FAILURE :: int where "EXIT_FAILURE = 1"

definition create_list :: "allocator \<Rightarrow> heap \<Rightarrow> nat \<Rightarrow> struct_DynList option outcome \<times> heap" where
  "create_list A h init_size =
     (let Dynlist = new_addr A (calls h);
          arr = new_addr A (Suc (calls h))
      in if Dynlist = 0 then (Returned None, h\<lparr>calls := calls h + 1\<rparr>)
         else if arr = 0 then (Exited EXIT_FAILURE, h\<lparr>calls := calls h + 2\<rparr>)
         else (Returned (Some \<lparr>dl_last_index = 0, dl_phys_len = init_size,
                               dl_list = replicate init_size 0\<rparr>), h\<lparr>calls := calls h + 2\<rparr>))"

function destroy_slots :: "struct_DynList \<Rightarrow> heap \<Rightarrow> nat \<Rightarrow> heap option" where
  "destroy_slots Dynlist h index =
     (if index < dl_last_index Dynlist
      then case rd (dl_list Dynlist) index of
             None \<Rightarrow> None
           | Some tmp \<Rightarrow>
               (case (if tmp \<noteq> 0 then destroy_word h tmp else Some h) of
                  None \<Rightarrow> None
                | Some h' \<Rightarrow> destroy_slots Dynlist h' (Suc index))
      else Some h)"
  by pat_completeness auto
termination
  by (relation "measure (\<lambda>(Dynlist, h, index). dl_last_index Dynlist - index)") auto

declare destroy_slots.simps [simp del]

definition destroy_list :: "struct_DynList \<Rightarrow> heap \<Rightarrow> heap option" where
  "destroy_list Dynlist h = destroy_slots Dynlist h 0"

subsection \<open>resize, insert and lookup\<close>

text \<open>
  \<open>void *list\<close> with its \<open>enum ListType\<close> tag is one datatype: the tag is the constructor.
  \<open>resize\<close> and \<open>insert\<close> return the C result and the updated struct.
\<close>

datatype list_obj = LINKLIST struct_LinkedList | DYNLIST struct_DynList

fun resize :: "allocator \<Rightarrow> list_obj \<Rightarrow> int \<times> list_obj" where
  "resize A (LINKLIST linklist) =
     (let phys_len = ll_list_len linklist; new_len = phys_len + LIST_SIZE
      in case tc_realloc A (ll_list linklist) new_len of
           None \<Rightarrow> (-1, LINKLIST linklist)
         | Some new_list \<Rightarrow> (1, LINKLIST (linklist\<lparr>ll_list := new_list, ll_list_len := new_len\<rparr>)))"
| "resize A (DYNLIST list) =
     (let phys_len = dl_phys_len list; new_len = phys_len * 2
      in case tc_realloc A (dl_list list) new_len of
           None \<Rightarrow> (-1, DYNLIST list)
         | Some new_list \<Rightarrow> (1, DYNLIST (list\<lparr>dl_list := new_list, dl_phys_len := new_len\<rparr>)))"

function insert_slot :: "addr list \<Rightarrow> nat \<Rightarrow> nat \<Rightarrow> addr \<Rightarrow> (addr list \<times> nat) option" where
  "insert_slot list_ptr phys_len index item_ptr =
     (if index < phys_len
      then case rd list_ptr index of
             None \<Rightarrow> None
           | Some p \<Rightarrow>
               if p = 0 then Some (list_ptr[index := item_ptr], index)
               else insert_slot list_ptr phys_len (Suc index) item_ptr
      else Some (list_ptr, index))"
  by pat_completeness auto
termination
  by (relation "measure (\<lambda>(list_ptr, phys_len, index, item_ptr). phys_len - index)") auto

declare insert_slot.simps [simp del]

fun insert_DYNLIST :: "allocator \<Rightarrow> struct_DynList \<Rightarrow> addr \<Rightarrow> nat \<Rightarrow> (int \<times> struct_DynList) option" where
  "insert_DYNLIST A Dynlist item_ptr index =
     (let (ret, D) =
        (if dl_phys_len Dynlist \<le> dl_last_index Dynlist
         then (case resize A (DYNLIST Dynlist) of
                 (_, DYNLIST D) \<Rightarrow> (2, D)
               | _ \<Rightarrow> (2, Dynlist))
         else (1, Dynlist))
      in if dl_phys_len D \<le> index then Some (-1, D)
         else case insert_slot (dl_list D) (dl_phys_len D) index item_ptr of
                None \<Rightarrow> None
              | Some (list_ptr, index') \<Rightarrow>
                  Some (ret, D\<lparr>dl_list := list_ptr,
                    dl_last_index := (if dl_last_index D < index' then index' + 1
                                      else dl_last_index D)\<rparr>))"

fun insert_LINKLIST :: "allocator \<Rightarrow> struct_LinkedList \<Rightarrow> nat \<Rightarrow> nat \<Rightarrow> (int \<times> struct_LinkedList) option" where
  "insert_LINKLIST A Linklist v index =
     (let L =
        (if ll_list_len Linklist \<le> ll_last_index Linklist
         then (case resize A (LINKLIST Linklist) of
                 (_, LINKLIST L) \<Rightarrow> L
               | _ \<Rightarrow> Linklist)
         else Linklist)
      in case wr (ll_list L) index v of
           None \<Rightarrow> None
         | Some list' \<Rightarrow> Some (1, L\<lparr>ll_list := list', ll_last_index := ll_last_index L + 1\<rparr>))"

declare insert_DYNLIST.simps [simp del] insert_LINKLIST.simps [simp del]

fun insert_item :: "allocator \<Rightarrow> list_obj option \<Rightarrow> addr \<Rightarrow> nat \<Rightarrow> nat \<Rightarrow> (int \<times> list_obj option) option" where
  "insert_item A None item_ptr v index = Some (-1, None)"
| "insert_item A (Some (DYNLIST D)) item_ptr v index =
     map_option (\<lambda>(ret, D'). (ret, Some (DYNLIST D'))) (insert_DYNLIST A D item_ptr index)"
| "insert_item A (Some (LINKLIST L)) item_ptr v index =
     map_option (\<lambda>(ret, L'). (ret, Some (LINKLIST L'))) (insert_LINKLIST A L v index)"

text \<open>
  \<open>lookup\<close> compares through the heap of words. Its loop tests the index before it
  increments it, so it may read the slot after the last one.
\<close>

function lookup_loop :: "heap \<Rightarrow> struct_DynList \<Rightarrow> bytes \<Rightarrow> nat \<Rightarrow> addr option" where
  "lookup_loop h dynlist str index =
     (if index < dl_phys_len dynlist
      then case rd (dl_list dynlist) (Suc index) of
             None \<Rightarrow> None
           | Some item \<Rightarrow>
               if item \<noteq> 0
               then case words h item of
                      None \<Rightarrow> None
                    | Some w \<Rightarrow>
                        (case StrCompare (wd_str w) (Some str) DYN_SIZE of
                           None \<Rightarrow> None
                         | Some r \<Rightarrow> if r = 0 then Some item else lookup_loop h dynlist str (Suc index))
               else Some 0
      else Some 0)"
  by pat_completeness auto
termination
  by (relation "measure (\<lambda>(h, dynlist, str, index). dl_phys_len dynlist - index)") auto

declare lookup_loop.simps [simp del]

definition lookup :: "heap \<Rightarrow> struct_DynList \<Rightarrow> bytes \<Rightarrow> nat \<Rightarrow> addr option" where
  "lookup h dynlist str index = do {
     item \<leftarrow> rd (dl_list dynlist) index;
     if item \<noteq> 0 then do {
       w \<leftarrow> words h item;
       r \<leftarrow> StrCompare (wd_str w) (Some str) DYN_SIZE;
       if r = 0 then Some item else lookup_loop h dynlist str index
     }
     else Some 0
   }"

subsection \<open>The postings of a chain\<close>

text \<open>
  A node stands for one document: its \<open>val\<close> and the line numbers stored so far. A chain
  stands for a list of such postings, the most recently added document first.
\<close>

type_synonym posting = "nat \<times> nat list"

definition node_ok :: "struct_LinkedList \<Rightarrow> bool" where
  "node_ok n \<longleftrightarrow> length (ll_list n) = ll_list_len n \<and> ll_last_index n \<le> ll_list_len n \<and> ll_list n \<noteq> []"

definition node_lines :: "struct_LinkedList \<Rightarrow> nat list" where
  "node_lines n = take (ll_last_index n) (ll_list n)"

definition doc :: "heap \<Rightarrow> addr \<Rightarrow> nat" where
  "doc h a = ll_val (the (links h a))"

definition posting_at :: "heap \<Rightarrow> addr \<Rightarrow> posting" where
  "posting_at h a = (doc h a, node_lines (the (links h a)))"

definition link_next :: "heap \<Rightarrow> addr \<Rightarrow> addr option" where
  "link_next h a = map_option ll_next (links h a)"

definition chain :: "heap \<Rightarrow> addr \<Rightarrow> addr list \<Rightarrow> bool" where
  "chain h p as \<longleftrightarrow> linked (link_next h) p as \<and>
     (\<forall>a\<in>set as. \<exists>n. links h a = Some n \<and> node_ok n) \<and> distinct (map (doc h) as)"

lemma chain_null [simp]: "chain h 0 as \<longleftrightarrow> as = []"
  by (auto simp: chain_def)

lemma chain_cong:
  "(\<And>a. a \<in> set as \<Longrightarrow> links h a = links h' a) \<Longrightarrow> chain h p as = chain h' p as"
proof -
  assume eq: "\<And>a. a \<in> set as \<Longrightarrow> links h a = links h' a"
  then have "linked (link_next h) p as = linked (link_next h') p as"
    by (intro linked_cong) (simp add: link_next_def)
  moreover have "map (doc h) as = map (doc h') as" using eq by (simp add: doc_def)
  ultimately show ?thesis unfolding chain_def using eq by metis
qed

lemma postings_cong:
  "(\<And>a. a \<in> set as \<Longrightarrow> links h a = links h' a) \<Longrightarrow>
    map (posting_at h) as = map (posting_at h') as"
  by (simp add: posting_at_def doc_def)

text \<open>\<open>insert\<close> at \<open>last_index\<close> appends a line, growing the array when it is full.\<close>

lemma insert_LINKLIST_append:
  assumes "node_ok n" and "realloc_ok A"
  shows "\<exists>n'. insert_LINKLIST A n v (ll_last_index n) = Some (1, n') \<and> node_ok n' \<and>
    node_lines n' = node_lines n @ [v] \<and> ll_val n' = ll_val n \<and> ll_next n' = ll_next n"
proof (cases "ll_list_len n \<le> ll_last_index n")
  case False
  with assms(1) show ?thesis
    by (auto simp: insert_LINKLIST.simps node_ok_def node_lines_def wr_def Let_def take_Suc_conv_app_nth)
next
  case True
  with assms(1) have full: "ll_last_index n = length (ll_list n)" "ll_list_len n = length (ll_list n)"
    by (simp_all add: node_ok_def)
  obtain ys where ys: "tc_realloc A (ll_list n) (length (ll_list n) + LIST_SIZE) = Some ys"
      "length ys = length (ll_list n) + LIST_SIZE" "take (length (ll_list n)) ys = ll_list n"
    using assms(2) unfolding realloc_ok_def by (metis le_add1)
  then show ?thesis
    using True full
    by (auto simp: insert_LINKLIST.simps node_ok_def node_lines_def wr_def Let_def LIST_SIZE_def
        take_Suc_conv_app_nth)
qed

lemma lookup_link_chain:
  assumes "chain h p as"
  shows "lookup_link h p v = Some (case find (\<lambda>a. doc h a = v) as of None \<Rightarrow> 0 | Some a \<Rightarrow> a)"
  using assms
proof (induction as arbitrary: p)
  case Nil
  then show ?case by (simp add: chain_def lookup_link.simps)
next
  case (Cons a as)
  then obtain n where n: "links h a = Some n" "p = a" "a \<noteq> 0" "chain h (ll_next n) as"
    by (auto simp: chain_def link_next_def)
  then have "doc h a = ll_val n" by (simp add: doc_def)
  with n Cons.IH [OF n(4)] show ?case by (subst lookup_link.simps) simp
qed

text \<open>Two ways a chain changes: a node of it is rewritten, or a new node is put in front.\<close>

lemma chain_rewrite:
  assumes "chain h p as" and "a \<in> set as" and "links h a = Some n" and "node_ok n'"
    and "ll_val n' = ll_val n" and "ll_next n' = ll_next n"
  defines "h' \<equiv> h\<lparr>links := (links h)(a \<mapsto> n')\<rparr>"
  shows "chain h' p as" and "map (posting_at h') as =
    map (\<lambda>b. if b = a then (ll_val n, node_lines n') else posting_at h b) as"
proof -
  have nx: "link_next h' = link_next h"
    using assms(3,6) by (auto simp: link_next_def h'_def fun_eq_iff)
  have d: "doc h' = doc h"
    using assms(3,5) by (auto simp: doc_def h'_def fun_eq_iff)
  have "\<forall>b\<in>set as. \<exists>m. links h' b = Some m \<and> node_ok m"
    using assms(1,4) by (auto simp: chain_def h'_def)
  with assms(1) show "chain h' p as" by (simp add: chain_def nx d)
  show "map (posting_at h') as =
      map (\<lambda>b. if b = a then (ll_val n, node_lines n') else posting_at h b) as"
    using assms(5) by (auto simp: posting_at_def doc_def h'_def)
qed

lemma chain_push:
  assumes "chain h p as" and "a \<notin> set as" and "a \<noteq> 0" and "node_ok n" and "ll_next n = p"
    and "ll_val n \<notin> doc h ` set as"
  defines "h' \<equiv> h\<lparr>links := (links h)(a \<mapsto> n)\<rparr>"
  shows "chain h' a (a # as)" and "map (posting_at h') (a # as) =
    (ll_val n, node_lines n) # map (posting_at h) as"
proof -
  have same: "links h b = links h' b" if "b \<in> set as" for b
    using that assms(2) by (auto simp: h'_def)
  then have d: "doc h' b = doc h b" if "b \<in> set as" for b using that by (simp add: doc_def)
  have "chain h' p as" using assms(1) same chain_cong by blast
  then have "linked (link_next h') p as" "\<forall>b\<in>set as. \<exists>m. links h' b = Some m \<and> node_ok m"
      "distinct (map (doc h') as)"
    by (simp_all add: chain_def)
  moreover have "links h' a = Some n" by (simp add: h'_def)
  moreover have "doc h' a \<notin> doc h' ` set as"
    using assms(6) d by (auto simp: doc_def h'_def)
  ultimately show "chain h' a (a # as)"
    using assms(3,4,5) by (simp add: chain_def link_next_def)
  show "map (posting_at h') (a # as) = (ll_val n, node_lines n) # map (posting_at h) as"
    using same by (simp add: posting_at_def doc_def) (simp add: h'_def)
qed

subsection \<open>Slots of a table\<close>

text \<open>
  The slot an insertion takes is the first empty one at or after the index; with none
  left the item is not stored at all, and the returned index is \<open>phys_len\<close>.
\<close>

definition first_free :: "addr list \<Rightarrow> nat \<Rightarrow> nat" where
  "first_free slots i = i + length (takeWhile (\<lambda>a. a \<noteq> 0) (drop i slots))"

lemma first_free_le: "i \<le> length slots \<Longrightarrow> first_free slots i \<le> length slots"
  using length_takeWhile_le [of "\<lambda>a. a \<noteq> 0" "drop i slots"] by (simp add: first_free_def)

lemma first_free_ge: "i \<le> first_free slots i"
  by (simp add: first_free_def)

lemma first_free_step:
  "i < length slots \<Longrightarrow>
    first_free slots i = (if slots ! i = 0 then i else first_free slots (Suc i))"
  by (simp add: first_free_def takeWhile_drop_step)

lemma first_free_empty: "first_free slots i < length slots \<Longrightarrow> slots ! first_free slots i = 0"
proof (induction "length slots - i" arbitrary: i)
  case 0
  then show ?case using first_free_ge [of i slots] by simp
next
  case (Suc n)
  then show ?case using first_free_step [of i slots] by (auto split: if_splits)
qed

lemma first_free_run: "i \<le> j \<Longrightarrow> j < first_free slots i \<Longrightarrow> j < length slots \<Longrightarrow> slots ! j \<noteq> 0"
proof (induction "length slots - i" arbitrary: i)
  case 0
  then show ?case by simp
next
  case (Suc n)
  then have i: "i < length slots" and "n = length slots - Suc i" by simp_all
  with Suc first_free_step [OF i] show ?case
    by (cases "i = j") (auto simp: not_less_eq_eq split: if_splits)
qed

lemma insert_slot_spec:
  assumes "i \<le> length slots"
  shows "insert_slot slots (length slots) i item =
    Some (if first_free slots i < length slots then slots[first_free slots i := item] else slots,
          first_free slots i)"
  using assms
proof (induction "length slots - i" arbitrary: i)
  case 0
  then show ?case by (subst insert_slot.simps) (simp add: first_free_def)
next
  case (Suc n)
  then have i: "i < length slots" and "n = length slots - Suc i" by simp_all
  with Suc first_free_step [OF i] show ?case by (subst insert_slot.simps) (simp add: c_step)
qed

subsection \<open>Properties\<close>

text \<open>An allocator that never fails, to evaluate examples with.\<close>

definition sample_alloc :: allocator where
  "sample_alloc = \<lparr>new_addr = Suc, tc_realloc = \<lambda>xs n. Some (xs @ replicate (n - length xs) 0), junk = \<lambda>_. 0\<rparr>"

lemma sample_alloc_ok: "alloc_ok sample_alloc" "realloc_ok sample_alloc"
  by (simp_all add: sample_alloc_def alloc_ok_def realloc_ok_def)

lemma destroy_linked:
  assumes "linked (link_next h) p as" and "\<forall>a\<in>set as. ll_list (the (links h a)) \<noteq> []"
  shows "\<exists>h'. destroy h p = Some h' \<and> (\<forall>a. links h' a = (if a \<in> set as then None else links h a)) \<and>
    words h' = words h \<and> calls h' = calls h"
  using assms
proof (induction as arbitrary: p h)
  case Nil
  then show ?case by (simp add: destroy.simps)
next
  case (Cons a as)
  let ?h = "h\<lparr>links := (links h)(a := None)\<rparr>"
  obtain n where n: "links h a = Some n" "p = a" "a \<noteq> 0" "linked (link_next h) (ll_next n) as"
    using Cons.prems(1) by (auto simp: link_next_def [of h a])
  have a: "a \<notin> set as" using linked_distinct [OF Cons.prems(1)] by simp
  then have "linked (link_next ?h) (ll_next n) as = linked (link_next h) (ll_next n) as"
    by (intro linked_cong) (auto simp: link_next_def)
  moreover have "\<forall>b\<in>set as. ll_list (the (links ?h b)) \<noteq> []" using Cons.prems(2) a by auto
  ultimately obtain h' where h': "destroy ?h (ll_next n) = Some h'"
      "\<forall>b. links h' b = (if b \<in> set as then None else links ?h b)" "words h' = words ?h" "calls h' = calls ?h"
    using Cons.IH n(4) by blast
  have "destroy h p = destroy ?h (ll_next n)"
    using n(1-3) Cons.prems(2) by (subst destroy.simps) (simp add: destroy_link_def)
  with h' show ?case by simp
qed

text \<open>C39. \<open>destroy\<close> frees exactly the nodes of the chain it is given: it ends, never touches a freed
  node, and every other node is as it was.\<close>

theorem destroy_frees_chain:
  assumes "chain h p as"
  shows "\<exists>h'. destroy h p = Some h' \<and> (\<forall>a. links h' a = (if a \<in> set as then None else links h a)) \<and>
    words h' = words h"
proof -
  have "\<forall>a\<in>set as. ll_list (the (links h a)) \<noteq> []" using assms by (auto simp: chain_def node_ok_def)
  then show ?thesis using destroy_linked [of h p as] assms by (auto simp: chain_def)
qed

definition sample_chain :: heap where
  "sample_chain = \<lparr>links = [1 \<mapsto> \<lparr>ll_val = 4, ll_list = [7, 0], ll_list_len = 2, ll_last_index = 1, ll_next = 3\<rparr>,
     3 \<mapsto> \<lparr>ll_val = 2, ll_list = [5, 6], ll_list_len = 2, ll_last_index = 2, ll_next = 0\<rparr>,
     9 \<mapsto> \<lparr>ll_val = 8, ll_list = [], ll_list_len = 0, ll_last_index = 0, ll_next = 0\<rparr>],
     words = Map.empty, calls = 9\<rparr>"

theorem destroy_frees_chain_witness:
  "\<exists>h'. destroy sample_chain 1 = Some h' \<and> links h' 1 = None \<and> links h' 3 = None \<and>
    links h' 9 = links sample_chain 9"
  using destroy_frees_chain [of sample_chain 1 "[1, 3]"]
  by (auto simp: sample_chain_def chain_def link_next_def node_ok_def doc_def)

end
