(* ===== verification/Job_Queue.thy ===== *)
theory Job_Queue
  imports Index_Lists
begin

section \<open>The job queue (thread_pool.c)\<close>

text \<open>
  The linked queue of \<open>thread_pool.c\<close>: its nodes live in memory and are linked by address, as in the
  source. The interface a client needs is the locale \<open>fifo\<close>: jobs come out in the order they
  went in. The interpretation shows that the linked queue provides it, including after
  it has run empty, when \<open>tail\<close> still points to a node that is gone from the queue.
\<close>

subsection \<open>Queue operations\<close>

type_synonym job = addr

record struct_Job_Node =
  jn_job :: job
  jn_next :: addr

record struct_Job_Queue =
  jq_size :: int
  jq_head :: addr
  jq_tail :: addr

text \<open>The memory of the queue; \<open>queue\<close> is \<^term>\<open>None\<close> while \<open>Job_queue\<close> is NULL.\<close>

record pool_mem =
  nodes :: "addr \<Rightarrow> struct_Job_Node option"
  queue :: "struct_Job_Queue option"
  pcalls :: nat

definition create_job_queue :: "allocator \<Rightarrow> pool_mem \<Rightarrow> pool_mem" where
  "create_job_queue A m =
     (if new_addr A (pcalls m) = 0 then m\<lparr>queue := None, pcalls := pcalls m + 1\<rparr>
      else m\<lparr>queue := Some \<lparr>jq_size = 0, jq_head = 0, jq_tail = 0\<rparr>, pcalls := pcalls m + 1\<rparr>)"

definition enqueue_job :: "pool_mem \<Rightarrow> addr \<Rightarrow> pool_mem option" where
  "enqueue_job m job_node = do {
     q \<leftarrow> queue m;
     if jq_head q = 0
     then Some (m\<lparr>queue := Some (q\<lparr>jq_tail := job_node, jq_head := job_node, jq_size := jq_size q + 1\<rparr>)\<rparr>)
     else do {
       t \<leftarrow> nodes m (jq_tail q);
       Some (m\<lparr>nodes := (nodes m)(jq_tail q \<mapsto> t\<lparr>jn_next := job_node\<rparr>),
               queue := Some (q\<lparr>jq_tail := job_node, jq_size := jq_size q + 1\<rparr>)\<rparr>)
     }
   }"

text \<open>The first component is the returned pointer, 0 for NULL.\<close>

definition dequeue_job :: "pool_mem \<Rightarrow> (job \<times> pool_mem) option" where
  "dequeue_job m = do {
     q \<leftarrow> queue m;
     if jq_size q = 0 then Some (0, m)
     else do {
       tmp \<leftarrow> nodes m (jq_head q);
       Some (jn_job tmp, m\<lparr>queue := Some (q\<lparr>jq_head := jn_next tmp, jq_size := jq_size q - 1\<rparr>)\<rparr>)
     }
   }"

text \<open>
  What \<open>add_job_to_pool\<close> does between taking and releasing the lock, when \<open>tc_calloc\<close> gives
  it a node.
\<close>

definition push_job :: "allocator \<Rightarrow> pool_mem \<Rightarrow> job \<Rightarrow> pool_mem option" where
  "push_job A m job =
     (let job_node = new_addr A (pcalls m)
      in if job_node = 0 then None
         else enqueue_job (m\<lparr>nodes := (nodes m)(job_node \<mapsto> \<lparr>jn_job = job, jn_next = 0\<rparr>),
                             pcalls := pcalls m + 1\<rparr>) job_node)"

definition queue_size :: "pool_mem \<Rightarrow> int option" where
  "queue_size m = map_option jq_size (queue m)"

subsection \<open>The interface\<close>

locale fifo =
  fixes put :: "'m \<Rightarrow> 'j \<Rightarrow> 'm option"
    and get :: "'m \<Rightarrow> ('j \<times> 'm) option"
    and count :: "'m \<Rightarrow> int option"
    and contents :: "'m \<Rightarrow> 'j list \<Rightarrow> bool"
  assumes put_ok: "contents m js \<Longrightarrow> put m j = Some m' \<Longrightarrow> contents m' (js @ [j])"
    and get_ok: "contents m (j # js) \<Longrightarrow> \<exists>m'. get m = Some (j, m') \<and> contents m' js"
    and count_ok: "contents m js \<Longrightarrow> count m = Some (int (length js))"
begin

lemma count_zero: "contents m js \<Longrightarrow> count m = Some 0 \<longleftrightarrow> js = []"
  by (simp add: count_ok)

text \<open>The history of a queue: what went in is what came out, then what is left.\<close>

definition history :: "'j list \<Rightarrow> 'j list \<Rightarrow> 'm \<Rightarrow> 'j list \<Rightarrow> bool" where
  "history ins outs m js \<longleftrightarrow> contents m js \<and> ins = outs @ js"

lemma history_put: "history ins outs m js \<Longrightarrow> put m j = Some m' \<Longrightarrow> history (ins @ [j]) outs m' (js @ [j])"
  by (auto simp: history_def intro: put_ok)

lemma history_get:
  "history ins outs m js \<Longrightarrow> js \<noteq> [] \<Longrightarrow> get m = Some (j, m') \<Longrightarrow>
    js = j # tl js \<and> history ins (outs @ [j]) m' (tl js)"
  by (cases js) (auto simp: history_def dest: get_ok)

text \<open>A client that puts and gets in any order, and gets only when something is there.\<close>

fun run_ops :: "'j option list \<Rightarrow> 'm \<Rightarrow> ('j list \<times> 'm) option" where
  "run_ops [] m = Some ([], m)"
| "run_ops (Some j # ops) m = do { m' \<leftarrow> put m j; run_ops ops m' }"
| "run_ops (None # ops) m = do { (j, m') \<leftarrow> get m; (js, m'') \<leftarrow> run_ops ops m'; Some (j # js, m'') }"

text \<open>What the same operations do to a list.\<close>

fun spec_ops :: "'j option list \<Rightarrow> 'j list \<Rightarrow> ('j list \<times> 'j list) option" where
  "spec_ops [] js = Some ([], js)"
| "spec_ops (Some j # ops) js = spec_ops ops (js @ [j])"
| "spec_ops (None # ops) js =
     (case js of [] \<Rightarrow> None | j # js' \<Rightarrow> map_option (\<lambda>(outs, r). (j # outs, r)) (spec_ops ops js'))"

lemma run_ops_refines:
  assumes "contents m js" and "\<And>m js j. contents m js \<Longrightarrow> put m j \<noteq> None" and "spec_ops ops js = Some (outs, r)"
  shows "\<exists>m'. run_ops ops m = Some (outs, m') \<and> contents m' r"
  using assms(1,3)
proof (induction ops js arbitrary: m outs rule: spec_ops.induct)
  case (2 j ops js)
  obtain m' where m': "put m j = Some m'" using assms(2) [OF 2(2), of j] by blast
  have "\<exists>m''. run_ops ops m' = Some (outs, m'') \<and> contents m'' r"
    using 2(3) by (intro "2.IH" put_ok [OF 2(2) m']) simp
  with m' show ?case by simp
next
  case (3 ops js)
  from 3(3) obtain j js' outs' where js: "js = j # js'" and o: "spec_ops ops js' = Some (outs', r)" "outs = j # outs'"
    by (cases js) auto
  obtain m' where m': "get m = Some (j, m')" "contents m' js'" using get_ok 3(2) js by blast
  obtain m'' where "run_ops ops m' = Some (outs', m'')" "contents m'' r"
    using 3(1) [OF js m'(2) o(1)] by blast
  with m' o(2) show ?case by simp
qed simp

lemma spec_ops_fifo: "spec_ops ops js = Some (outs, r) \<Longrightarrow> js @ List.map_filter id ops = outs @ r"
proof (induction ops js arbitrary: outs r rule: spec_ops.induct)
  case (1 js)
  then show ?case by (simp add: map_filter_simps)
next
  case (2 j ops js)
  then show ?case by (simp add: map_filter_simps)
next
  case (3 ops js)
  then obtain j js' outs' where "js = j # js'" "spec_ops ops js' = Some (outs', r)" "outs = j # outs'"
    by (cases js) auto
  with 3(1) show ?case by (simp add: map_filter_simps)
qed

end

subsection \<open>The linked queue provides it\<close>

definition node_next :: "pool_mem \<Rightarrow> addr \<Rightarrow> addr option" where
  "node_next m a = map_option jn_next (nodes m a)"

definition alloc_fresh :: "allocator \<Rightarrow> bool" where
  "alloc_fresh A \<longleftrightarrow> (\<forall>i j. new_addr A i = new_addr A j \<longrightarrow> new_addr A i \<noteq> 0 \<longrightarrow> i = j)"

text \<open>
  \<open>as\<close> are the nodes from \<open>head\<close> on. \<open>tail\<close> is the last of them if there is one, and arbitrary
  otherwise.
\<close>

definition queue_holds :: "pool_mem \<Rightarrow> addr list \<Rightarrow> job list \<Rightarrow> bool" where
  "queue_holds m as js \<longleftrightarrow> (\<exists>q. queue m = Some q \<and> linked (node_next m) (jq_head q) as \<and>
     map (\<lambda>a. jn_job (the (nodes m a))) as = js \<and> (as \<noteq> [] \<longrightarrow> jq_tail q = last as) \<and>
     jq_size q = int (length js))"

definition queue_contents :: "allocator \<Rightarrow> pool_mem \<Rightarrow> job list \<Rightarrow> bool" where
  "queue_contents A m js \<longleftrightarrow> alloc_fresh A \<and>
     (\<exists>as. queue_holds m as js \<and> set as \<subseteq> new_addr A ` {..<pcalls m})"

lemma linked_append_node:
  assumes "linked nx p as" and "as \<noteq> []" and "b \<notin> set as" and "b \<noteq> 0"
  shows "linked (nx(last as := Some b, b := Some 0)) p (as @ [b])"
  using assms(1-3)
proof (induction as arbitrary: p)
  case Nil
  then show ?case by simp
next
  case (Cons a as)
  let ?nx = "nx(last (a # as) := Some b, b := Some 0)"
  have d: "a \<notin> set as" using linked_distinct [OF Cons.prems(1)] by simp
  show ?case
  proof (cases "as = []")
    case True
    then show ?thesis using Cons.prems assms(4) by auto
  next
    case False
    then have "a \<noteq> last as" using d last_in_set by metis
    with False Cons show ?thesis by auto
  qed
qed

lemma push_job_holds:
  assumes "queue_holds m as js" and "push_job A m j = Some m'"
  defines "b \<equiv> new_addr A (pcalls m)"
  assumes fresh: "b \<notin> set as"
  shows "queue_holds m' (as @ [b]) (js @ [j])" and "pcalls m' = pcalls m + 1"
proof -
  obtain q where q: "queue m = Some q" "linked (node_next m) (jq_head q) as"
      "map (\<lambda>a. jn_job (the (nodes m a))) as = js" "as \<noteq> [] \<longrightarrow> jq_tail q = last as"
      "jq_size q = int (length js)"
    using assms(1) by (auto simp: queue_holds_def)
  have b: "b \<noteq> 0" using assms(2) by (auto simp: push_job_def b_def Let_def split: if_splits)
  let ?nodes = "(nodes m)(b \<mapsto> \<lparr>jn_job = j, jn_next = 0\<rparr>)"
  have m': "enqueue_job (m\<lparr>nodes := ?nodes, pcalls := pcalls m + 1\<rparr>) b = Some m'"
    using assms(2) b by (simp add: push_job_def b_def Let_def)
  show "pcalls m' = pcalls m + 1"
    using m' q(1) by (auto simp: enqueue_job_def bind_Some_iff split: if_splits)
  show "queue_holds m' (as @ [b]) (js @ [j])"
  proof (cases "as = []")
    case True
    then have "jq_head q = 0" using q(2) by simp
    then have "m' = m\<lparr>nodes := ?nodes, pcalls := pcalls m + 1,
        queue := Some (q\<lparr>jq_tail := b, jq_head := b, jq_size := jq_size q + 1\<rparr>)\<rparr>"
      using m' q(1) by (simp add: enqueue_job_def)
    then show ?thesis using True q(3,5) b by (simp add: queue_holds_def node_next_def)
  next
    case False
    then have t: "jq_tail q = last as" "last as \<in> set as" "jq_head q \<noteq> 0"
      using q(2,4) linked_nodes [OF q(2)] by (cases as; auto)+
    then obtain n where n: "nodes m (last as) = Some n" "last as \<noteq> b"
      using linked_nodes [OF q(2), of "last as"] fresh by (auto simp: node_next_def)
    have m'_eq: "m' = m\<lparr>pcalls := pcalls m + 1, nodes := ?nodes(last as \<mapsto> n\<lparr>jn_next := b\<rparr>),
        queue := Some (q\<lparr>jq_tail := b, jq_size := jq_size q + 1\<rparr>)\<rparr>"
      using m' q(1) t n by (simp add: enqueue_job_def)
    have "node_next m' = (node_next m)(last as := Some b, b := Some 0)"
      using n by (auto simp: m'_eq node_next_def fun_eq_iff)
    then have "linked (node_next m') (jq_head q) (as @ [b])"
      using linked_append_node [OF q(2) False fresh b] by simp
    moreover have "jn_job (the (nodes m' a)) = jn_job (the (nodes m a))" if "a \<in> set as" for a
      using that fresh n by (auto simp: m'_eq)
    moreover have "jn_job (the (nodes m' b)) = j" using n(2) by (simp add: m'_eq)
    ultimately show ?thesis
      using q(3,5) False by (auto simp: queue_holds_def m'_eq intro!: exI)
  qed
qed

lemma dequeue_job_holds:
  assumes "queue_holds m as (j # js)"
  shows "\<exists>m'. dequeue_job m = Some (j, m') \<and> queue_holds m' (tl as) js \<and> pcalls m' = pcalls m"
proof -
  obtain q where q: "queue m = Some q" "linked (node_next m) (jq_head q) as"
      "map (\<lambda>a. jn_job (the (nodes m a))) as = j # js" "as \<noteq> [] \<longrightarrow> jq_tail q = last as"
      "jq_size q = int (length (j # js))"
    using assms by (auto simp: queue_holds_def)
  then obtain a as' n where a: "as = a # as'" "nodes m a = Some n" "jq_head q = a" "linked (node_next m) (jn_next n) as'"
    by (cases as) (auto simp: node_next_def)
  let ?m = "m\<lparr>queue := Some (q\<lparr>jq_head := jn_next n, jq_size := jq_size q - 1\<rparr>)\<rparr>"
  have "dequeue_job m = Some (j, ?m)" using q(1,3,5) a by (simp add: dequeue_job_def)
  moreover have "node_next ?m = node_next m" by (simp add: node_next_def fun_eq_iff)
  then have "queue_holds ?m as' js"
    using q(3-5) a(1,4) by (auto simp: queue_holds_def)
  ultimately show ?thesis using a(1) by simp
qed

interpretation job_queue: fifo "push_job A" dequeue_job queue_size "queue_contents A" for A
proof unfold_locales
  fix m js j m' assume c: "queue_contents A m js" and p: "push_job A m j = Some m'"
  from c obtain as where as: "queue_holds m as js" "set as \<subseteq> new_addr A ` {..<pcalls m}" and A: "alloc_fresh A"
    by (auto simp: queue_contents_def)
  have "new_addr A (pcalls m) \<noteq> 0" using p by (auto simp: push_job_def Let_def split: if_splits)
  then have "new_addr A (pcalls m) \<notin> set as" using as(2) A unfolding alloc_fresh_def by fastforce
  from push_job_holds [OF as(1) p this] as(2)
  have "queue_holds m' (as @ [new_addr A (pcalls m)]) (js @ [j])"
    "set (as @ [new_addr A (pcalls m)]) \<subseteq> new_addr A ` {..<pcalls m'}" by auto
  then show "queue_contents A m' (js @ [j])" using A unfolding queue_contents_def by blast
next
  fix m j js assume "queue_contents A m (j # js)"
  then obtain as where as: "queue_holds m as (j # js)" "set as \<subseteq> new_addr A ` {..<pcalls m}" and A: "alloc_fresh A"
    by (auto simp: queue_contents_def)
  from dequeue_job_holds [OF as(1)] obtain m' where m': "dequeue_job m = Some (j, m')" "queue_holds m' (tl as) js"
      "pcalls m' = pcalls m" by blast
  moreover have "set (tl as) \<subseteq> new_addr A ` {..<pcalls m'}"
    using as(2) m'(3) by (cases as) auto
  ultimately show "\<exists>m'. dequeue_job m = Some (j, m') \<and> queue_contents A m' js"
    using A by (auto simp: queue_contents_def)
next
  fix m js assume "queue_contents A m js"
  then show "queue_size m = Some (int (length js))"
    by (auto simp: queue_contents_def queue_holds_def queue_size_def)
qed

text \<open>Putting a job succeeds whenever \<open>tc_calloc\<close> gives a node.\<close>

lemma push_job_total:
  assumes "queue_contents A m js" and "new_addr A (pcalls m) \<noteq> 0"
  shows "\<exists>m'. push_job A m j = Some m'"
proof -
  obtain as q where as: "set as \<subseteq> new_addr A ` {..<pcalls m}" and
    q: "queue m = Some q" "linked (node_next m) (jq_head q) as" "as \<noteq> [] \<longrightarrow> jq_tail q = last as"
    using assms(1) by (auto simp: queue_contents_def queue_holds_def)
  show ?thesis
  proof (cases "as = []")
    case True
    then show ?thesis using q assms(2) by (simp add: push_job_def enqueue_job_def Let_def)
  next
    case False
    then have "nodes m (last as) \<noteq> None"
      using linked_nodes [OF q(2), of "last as"] by (auto simp: node_next_def)
    then show ?thesis using q False assms(2) by (auto simp: push_job_def enqueue_job_def Let_def)
  qed
qed

lemma new_queue_contents:
  assumes "alloc_fresh A" and "new_addr A (pcalls m) \<noteq> 0"
  shows "queue_contents A (create_job_queue A m) []"
  using assms by (auto simp: queue_contents_def queue_holds_def create_job_queue_def intro!: exI [of _ "[]"])

subsection \<open>Properties\<close>

text \<open>C20. \<open>enqueue_job\<close> and \<open>dequeue_job\<close> refine a list: for every sequence of operations that never
  takes from an empty queue, the linked queue returns the jobs the list returns, and what was put in is
  what came out followed by what is left, also after the queue has run empty and \<open>tail\<close> is stale.\<close>

theorem job_queue_refines_list:
  assumes "queue_contents A m js" and "\<forall>k. new_addr A k \<noteq> 0"
    and "job_queue.spec_ops ops js = Some (outs, rest)"
  shows "\<exists>m'. fifo.run_ops (push_job A) dequeue_job ops m = Some (outs, m') \<and> queue_contents A m' rest \<and>
    js @ List.map_filter id ops = outs @ rest"
proof -
  have "push_job A m js' \<noteq> None" if "queue_contents A m ks" for m ks js'
    using push_job_total [OF that] assms(2) by auto
  then obtain m' where "fifo.run_ops (push_job A) dequeue_job ops m = Some (outs, m')" "queue_contents A m' rest"
    using job_queue.run_ops_refines [OF assms(1) _ assms(3)] by blast
  then show ?thesis using job_queue.spec_ops_fifo [OF assms(3)] by blast
qed

theorem job_queue_refines_list_witness:
  "\<exists>m'. fifo.run_ops (push_job sample_alloc) dequeue_job [Some 5, None, Some 6, Some 7, None]
      (create_job_queue sample_alloc \<lparr>nodes = \<lambda>_. None, queue = None, pcalls = 0\<rparr>) = Some ([5, 6], m') \<and>
    queue_contents sample_alloc m' [7]"
proof -
  have "alloc_fresh sample_alloc" "\<forall>k. new_addr sample_alloc k \<noteq> 0"
    by (simp_all add: alloc_fresh_def sample_alloc_def)
  then show ?thesis
    using job_queue_refines_list [of sample_alloc
        "create_job_queue sample_alloc \<lparr>nodes = \<lambda>_. None, queue = None, pcalls = 0\<rparr>" "[]"
        "[Some 5, None, Some 6, Some 7, None]" "[5, 6]" "[7]"]
      new_queue_contents [of sample_alloc "\<lparr>nodes = \<lambda>_. None, queue = None, pcalls = 0\<rparr>"]
    by simp
qed

end
