(* ===== verification/Thread_Pool.thy ===== *)
theory Thread_Pool
  imports Job_Queue "HOL-Library.Multiset"
begin

section \<open>The thread pool (thread_pool.c)\<close>

text \<open>
  The main thread (\<open>init_pool\<close>, \<open>add_job_to_pool\<close>) and the workers (\<open>activate_workers\<close>) as
  step relations over the shared queue, the mutex \<open>_mutex_lock\<close> and the condition variable
  \<open>_cond_mutex\<close>. A step is the code between two points where another thread may run; what is done with
  the lock held is one step of its holder at a time. Invariants of the reachable
  states: mutual exclusion, first-in first-out hand-over, no job lost or run twice, no lost
  wake-up. Also shown: progress without spurious wake-ups, and the deadlock after a
  failed \<open>tc_calloc\<close> in \<open>add_job_to_pool\<close>, which returns with the lock held.
\<close>

definition NUM_OF_THREADS :: nat where "NUM_OF_THREADS = 10"

subsection \<open>State\<close>

datatype thread = Main | Worker nat

text \<open>Where a worker is in \<open>activate_workers\<close>: before \<open>tc_thread_init\<close>, at
  \<open>pthread_mutex_lock\<close>, at the test of \<open>while\<close>, blocked in \<open>pthread_cond_wait\<close>, signalled and about to take
  the lock again, at \<open>dequeue_job\<close>, at \<open>pthread_mutex_unlock\<close>, at the job, or returned.\<close>

datatype worker_pc = Start | Lock | Test | Waiting | Woken | Dequeue | Unlock | Job | Ended

record worker =
  w_pc :: worker_pc
  w_job :: job

datatype main_pc = M_Init nat | M_Ready | M_Lock job | M_Alloc job | M_Signal | M_Unlock | M_Exit

text \<open>
  The last three fields are the history: the jobs enqueued, the jobs dequeued, and the jobs
  whose function has been called, in order.
\<close>

record pool =
  mem :: pool_mem
  lock :: "thread option"
  main :: main_pc
  workers :: "worker list"
  added :: "job list"
  taken :: "job list"
  ran :: "job list"

definition empty_mem :: pool_mem where
  "empty_mem = \<lparr>nodes = \<lambda>_. None, queue = None, pcalls = 0\<rparr>"

definition pool_start :: "allocator \<Rightarrow> pool" where
  "pool_start A = \<lparr>mem = create_job_queue A empty_mem, lock = None, main = M_Init 0, workers = [],
     added = [], taken = [], ran = []\<rparr>"

subsection \<open>Steps\<close>

definition set_worker :: "nat \<Rightarrow> worker_pc \<Rightarrow> job \<Rightarrow> pool \<Rightarrow> pool" where
  "set_worker i p j s = s\<lparr>workers := (workers s)[i := \<lparr>w_pc = p, w_job = j\<rparr>]\<rparr>"

definition at_pc :: "pool \<Rightarrow> nat \<Rightarrow> worker_pc \<Rightarrow> job \<Rightarrow> bool" where
  "at_pc s i p j \<longleftrightarrow> i < length (workers s) \<and> workers s ! i = \<lparr>w_pc = p, w_job = j\<rparr>"

text \<open>
  \<open>init_pool\<close> returns 0 when an allocation or \<open>pthread_create\<close> fails, and the program exits.
  A failed allocation in \<open>add_job_to_pool\<close> returns at once.
\<close>

inductive main_step :: "allocator \<Rightarrow> pool \<Rightarrow> pool \<Rightarrow> bool" for A where
  create: "\<lbrakk>main s = M_Init i; i < NUM_OF_THREADS; new_addr A (pcalls (mem s)) \<noteq> 0\<rbrakk> \<Longrightarrow>
    main_step A s (s\<lparr>mem := (mem s)\<lparr>pcalls := pcalls (mem s) + 1\<rparr>, main := M_Init (i + 1),
      workers := workers s @ [\<lparr>w_pc = Start, w_job = 0\<rparr>]\<rparr>)"
| create_fail: "\<lbrakk>main s = M_Init i; i < NUM_OF_THREADS\<rbrakk> \<Longrightarrow>
    main_step A s (s\<lparr>mem := (mem s)\<lparr>pcalls := pcalls (mem s) + 1\<rparr>, main := M_Exit\<rparr>)"
| init_done: "main s = M_Init NUM_OF_THREADS \<Longrightarrow> main_step A s (s\<lparr>main := M_Ready\<rparr>)"
| add_job: "\<lbrakk>main s = M_Ready; j \<noteq> 0\<rbrakk> \<Longrightarrow> main_step A s (s\<lparr>main := M_Lock j\<rparr>)"
| m_lock: "\<lbrakk>main s = M_Lock j; lock s = None\<rbrakk> \<Longrightarrow>
    main_step A s (s\<lparr>lock := Some Main, main := M_Alloc j\<rparr>)"
| alloc_fail: "\<lbrakk>main s = M_Alloc j; new_addr A (pcalls (mem s)) = 0\<rbrakk> \<Longrightarrow>
    main_step A s (s\<lparr>mem := (mem s)\<lparr>pcalls := pcalls (mem s) + 1\<rparr>, main := M_Ready\<rparr>)"
| push: "\<lbrakk>main s = M_Alloc j; push_job A (mem s) j = Some m\<rbrakk> \<Longrightarrow>
    main_step A s (s\<lparr>mem := m, main := M_Signal, added := added s @ [j]\<rparr>)"
| signal_wake: "\<lbrakk>main s = M_Signal; at_pc s i Waiting j\<rbrakk> \<Longrightarrow>
    main_step A s (set_worker i Woken j (s\<lparr>main := M_Unlock\<rparr>))"
| signal_none: "\<lbrakk>main s = M_Signal; \<forall>w\<in>set (workers s). w_pc w \<noteq> Waiting\<rbrakk> \<Longrightarrow>
    main_step A s (s\<lparr>main := M_Unlock\<rparr>)"
| m_unlock: "main s = M_Unlock \<Longrightarrow> main_step A s (s\<lparr>lock := None, main := M_Ready\<rparr>)"

text \<open>
  The job variable of a worker keeps its value from one round to the next, and
  \<open>if (Job_queue->size)\<close> is tested again before the call of \<open>dequeue_job\<close>.
\<close>

inductive worker_step :: "pool \<Rightarrow> pool \<Rightarrow> bool" where
  init: "at_pc s i Start j \<Longrightarrow> worker_step s (set_worker i Lock j s)"
| init_fail: "at_pc s i Start j \<Longrightarrow> worker_step s (set_worker i Ended j s)"
| w_lock: "\<lbrakk>at_pc s i Lock j; lock s = None\<rbrakk> \<Longrightarrow>
    worker_step s (set_worker i Test j (s\<lparr>lock := Some (Worker i)\<rparr>))"
| test_wait: "\<lbrakk>at_pc s i Test j; queue_size (mem s) = Some 0\<rbrakk> \<Longrightarrow>
    worker_step s (set_worker i Waiting j (s\<lparr>lock := None\<rparr>))"
| test_go: "\<lbrakk>at_pc s i Test j; queue_size (mem s) = Some n; n \<noteq> 0\<rbrakk> \<Longrightarrow>
    worker_step s (set_worker i Dequeue j s)"
| relock: "\<lbrakk>at_pc s i Woken j; lock s = None\<rbrakk> \<Longrightarrow>
    worker_step s (set_worker i Test j (s\<lparr>lock := Some (Worker i)\<rparr>))"
| dequeue: "\<lbrakk>at_pc s i Dequeue j; queue_size (mem s) = Some n; n \<noteq> 0; dequeue_job (mem s) = Some (j', m)\<rbrakk> \<Longrightarrow>
    worker_step s (set_worker i Unlock j' (s\<lparr>mem := m, taken := taken s @ [j']\<rparr>))"
| dequeue_skip: "\<lbrakk>at_pc s i Dequeue j; queue_size (mem s) = Some 0\<rbrakk> \<Longrightarrow>
    worker_step s (set_worker i Unlock j s)"
| w_unlock: "\<lbrakk>at_pc s i Unlock j\<rbrakk> \<Longrightarrow>
    worker_step s (set_worker i (if j = 0 then Lock else Job) j (s\<lparr>lock := None\<rparr>))"
| run: "at_pc s i Job j \<Longrightarrow> worker_step s (set_worker i Lock j (s\<lparr>ran := ran s @ [j]\<rparr>))"

text \<open>\<open>pthread_cond_wait\<close> may also return without a signal.\<close>

inductive spurious_step :: "pool \<Rightarrow> pool \<Rightarrow> bool" where
  "at_pc s i Waiting j \<Longrightarrow> spurious_step s (set_worker i Woken j s)"

definition pool_step :: "allocator \<Rightarrow> pool \<Rightarrow> pool \<Rightarrow> bool" where
  "pool_step A s s' \<longleftrightarrow> main_step A s s' \<or> worker_step s s' \<or> spurious_step s s'"

inductive pool_reach :: "allocator \<Rightarrow> pool \<Rightarrow> pool \<Rightarrow> bool" for A s where
  refl: "pool_reach A s s"
| step: "pool_reach A s t \<Longrightarrow> pool_step A t u \<Longrightarrow> pool_reach A s u"

inductive_cases main_stepE: "main_step A s s'"
inductive_cases worker_stepE: "worker_step s s'"
inductive_cases spurious_stepE: "spurious_step s s'"

lemma pool_step_cases:
  assumes "pool_step A s s'" and "main_step A s s' \<Longrightarrow> P" and "worker_step s s' \<Longrightarrow> P"
    and "spurious_step s s' \<Longrightarrow> P"
  shows P
  using assms by (auto simp: pool_step_def)

text \<open>An invariant is kept along a run when every step keeps it.\<close>

lemma pool_reach_invariant:
  assumes "pool_reach A s t" and "I s" and "\<And>t u. I t \<Longrightarrow> pool_step A t u \<Longrightarrow> I u"
  shows "I t"
  using assms by (induction rule: pool_reach.induct) blast+

lemma set_worker_fields [simp]:
  "mem (set_worker i p j s) = mem s" "lock (set_worker i p j s) = lock s" "main (set_worker i p j s) = main s"
  "added (set_worker i p j s) = added s" "taken (set_worker i p j s) = taken s" "ran (set_worker i p j s) = ran s"
  "length (workers (set_worker i p j s)) = length (workers s)"
  by (simp_all add: set_worker_def)

lemma set_worker_nth [simp]:
  "k < length (workers s) \<Longrightarrow> workers (set_worker i p j s) ! k =
    (if k = i then \<lparr>w_pc = p, w_job = j\<rparr> else workers s ! k)"
  by (auto simp: set_worker_def nth_list_update)

subsection \<open>Mutual exclusion\<close>

fun holds_lock :: "worker_pc \<Rightarrow> bool" where
  "holds_lock p \<longleftrightarrow> p \<in> {Test, Dequeue, Unlock}"

fun main_holds :: "main_pc \<Rightarrow> bool" where
  "main_holds (M_Alloc j) = True"
| "main_holds M_Signal = True"
| "main_holds M_Unlock = True"
| "main_holds _ = False"

definition lock_ok :: "pool \<Rightarrow> bool" where
  "lock_ok s \<longleftrightarrow> (\<forall>i<length (workers s). holds_lock (w_pc (workers s ! i)) \<longleftrightarrow> lock s = Some (Worker i)) \<and>
     (\<forall>i. lock s = Some (Worker i) \<longrightarrow> i < length (workers s)) \<and>
     (main_holds (main s) \<longrightarrow> lock s = Some Main)"

lemma lock_ok_main: "lock_ok s \<Longrightarrow> main_step A s s' \<Longrightarrow> lock_ok s'"
  by (erule main_stepE) (auto simp: lock_ok_def at_pc_def nth_append less_Suc_eq)

text \<open>The three ways a worker moves: keeping the lock as it is, taking it, releasing it.\<close>

lemma lock_ok_holder:
  "lock_ok s \<Longrightarrow> at_pc s i p j \<Longrightarrow> holds_lock p \<longleftrightarrow> lock s = Some (Worker i)"
  by (auto simp: lock_ok_def at_pc_def)

lemma lock_ok_keep:
  "lock_ok s \<Longrightarrow> at_pc s i p j \<Longrightarrow> holds_lock p = holds_lock p' \<Longrightarrow>
    lock_ok (set_worker i p' j' s)"
  by (auto simp: lock_ok_def at_pc_def)

lemma lock_ok_take:
  "lock_ok s \<Longrightarrow> at_pc s i p j \<Longrightarrow> lock s = None \<Longrightarrow> holds_lock p' \<Longrightarrow>
    lock_ok (set_worker i p' j' (s\<lparr>lock := Some (Worker i)\<rparr>))"
  by (auto simp: lock_ok_def at_pc_def)

lemma lock_ok_release:
  assumes "lock_ok s" and "at_pc s i p j" and "holds_lock p" and "\<not> holds_lock p'"
  shows "lock_ok (set_worker i p' j' (s\<lparr>lock := None\<rparr>))"
proof -
  have "lock s = Some (Worker i)" using lock_ok_holder assms(1-3) by blast
  with assms show ?thesis by (auto simp: lock_ok_def at_pc_def)
qed

lemma lock_ok_frame:
  "lock s' = lock s \<Longrightarrow> workers s' = workers s \<Longrightarrow> main s' = main s \<Longrightarrow> lock_ok s' = lock_ok s"
  by (simp add: lock_ok_def)

lemma lock_ok_worker: "lock_ok s \<Longrightarrow> worker_step s s' \<Longrightarrow> lock_ok s'"
proof (erule worker_stepE)
  fix i j n j' m
  assume ok: "lock_ok s" and "s' = set_worker i Unlock j' (s\<lparr>mem := m, taken := taken s @ [j']\<rparr>)"
    and "at_pc s i Dequeue j"
  then show ?thesis
    using lock_ok_keep [of "s\<lparr>mem := m, taken := taken s @ [j']\<rparr>" i Dequeue j Unlock]
      lock_ok_frame [of "s\<lparr>mem := m, taken := taken s @ [j']\<rparr>" s]
    by (simp add: at_pc_def)
next
  fix i j
  assume ok: "lock_ok s" and "s' = set_worker i Lock j (s\<lparr>ran := ran s @ [j]\<rparr>)" and "at_pc s i Job j"
  then show ?thesis
    using lock_ok_keep [of "s\<lparr>ran := ran s @ [j]\<rparr>" i Job j Lock] lock_ok_frame [of "s\<lparr>ran := ran s @ [j]\<rparr>" s]
    by (simp add: at_pc_def)
qed (hypsubst, ((rule lock_ok_take, assumption+, simp) | (rule lock_ok_release, assumption+, simp, simp) |
    (rule lock_ok_keep, assumption+, simp)))+

lemma lock_ok_spurious: "lock_ok s \<Longrightarrow> spurious_step s s' \<Longrightarrow> lock_ok s'"
  by (erule spurious_stepE) (auto intro!: lock_ok_keep)

lemma lock_ok_step: "lock_ok s \<Longrightarrow> pool_step A s s' \<Longrightarrow> lock_ok s'"
  by (erule pool_step_cases) (blast intro: lock_ok_main lock_ok_worker lock_ok_spurious)+

lemma lock_ok_start: "lock_ok (pool_start A)"
  by (simp add: lock_ok_def pool_start_def)

lemma lock_ok_reach: "pool_reach A (pool_start A) s \<Longrightarrow> lock_ok s"
  by (rule pool_reach_invariant [where I = lock_ok]) (auto intro: lock_ok_start lock_ok_step)

subsection \<open>First in, first out\<close>

definition queue_ok :: "allocator \<Rightarrow> pool \<Rightarrow> job list \<Rightarrow> bool" where
  "queue_ok A s js \<longleftrightarrow> job_queue.history A (added s) (taken s) (mem s) js \<and>
     (\<forall>i<length (workers s). w_pc (workers s ! i) = Dequeue \<longrightarrow> js \<noteq> [])"

lemma queue_contents_calls:
  "queue_contents A m js \<Longrightarrow> queue_contents A (m\<lparr>pcalls := Suc (pcalls m)\<rparr>) js"
proof -
  assume c: "queue_contents A m js"
  have "queue_holds (m\<lparr>pcalls := Suc (pcalls m)\<rparr>) as js = queue_holds m as js" for as
  proof -
    have "node_next (m\<lparr>pcalls := Suc (pcalls m)\<rparr>) = node_next m" by (simp add: node_next_def fun_eq_iff)
    then show ?thesis by (simp add: queue_holds_def)
  qed
  with c show ?thesis by (fastforce simp: queue_contents_def)
qed

lemma history_calls:
  "job_queue.history A ins outs m js \<Longrightarrow> job_queue.history A ins outs (m\<lparr>pcalls := Suc (pcalls m)\<rparr>) js"
  by (simp add: job_queue.history_def queue_contents_calls)

lemma history_size: "job_queue.history A ins outs m js \<Longrightarrow> queue_size m = Some (int (length js))"
  unfolding job_queue.history_def using job_queue.count_ok by blast

lemma queue_ok_main:
  assumes "queue_ok A s js" and "main_step A s s'"
  shows "\<exists>js'. queue_ok A s' js'"
  using assms(2)
proof cases
  case (push j m)
  then have "queue_ok A s' (js @ [j])"
    using assms(1) job_queue.history_put [of A "added s" "taken s" "mem s" js j m] by (simp add: queue_ok_def)
  then show ?thesis ..
next
  case (signal_wake i j)
  then have "queue_ok A s' js" using assms(1) by (auto simp: queue_ok_def at_pc_def)
  then show ?thesis ..
next
  case (create i)
  then have "queue_ok A s' js"
    using assms(1) history_calls by (auto simp: queue_ok_def nth_append less_Suc_eq)
  then show ?thesis ..
qed (use assms(1) in \<open>auto simp: queue_ok_def intro!: exI [of _ js] history_calls\<close>)

text \<open>Only the dequeue step takes a job, and only the holder of the lock takes it.\<close>

lemma queue_ok_dequeue:
  assumes ok: "queue_ok A s js" and lk: "lock_ok s" and i: "at_pc s i Dequeue j"
    and get: "dequeue_job (mem s) = Some (j', m)"
  shows "js = j' # tl js" and "queue_ok A (set_worker i Unlock j' (s\<lparr>mem := m, taken := taken s @ [j']\<rparr>)) (tl js)"
proof -
  have h: "job_queue.history A (added s) (taken s) (mem s) js" using ok by (simp add: queue_ok_def)
  have "js \<noteq> []" using ok i by (auto simp: queue_ok_def at_pc_def)
  from job_queue.history_get [OF h this get]
  have js: "js = j' # tl js" "job_queue.history A (added s) (taken s @ [j']) m (tl js)" by blast+
  show "js = j' # tl js" by (rule js(1))
  have "w_pc (workers s ! k) \<noteq> Dequeue" if "k < length (workers s)" "k \<noteq> i" for k
  proof
    assume "w_pc (workers s ! k) = Dequeue"
    then have "holds_lock (w_pc (workers s ! k))" by simp
    then have "lock s = Some (Worker k)" using lk that unfolding lock_ok_def by blast
    moreover have "lock s = Some (Worker i)" using lock_ok_holder [OF lk i] by simp
    ultimately show False using that by simp
  qed
  with js(2) show "queue_ok A (set_worker i Unlock j' (s\<lparr>mem := m, taken := taken s @ [j']\<rparr>)) (tl js)"
    by (simp add: queue_ok_def)
qed

lemma queue_ok_worker:
  assumes ok: "queue_ok A s js" and lk: "lock_ok s" and st: "worker_step s s'"
  shows "\<exists>js'. queue_ok A s' js'"
  using st
proof cases
  case (dequeue i j n j' m)
  then show ?thesis using queue_ok_dequeue(2) [OF ok lk] by blast
next
  case (test_go i j n)
  have "queue_size (mem s) = Some (int (length js))" using ok history_size by (auto simp: queue_ok_def)
  then have "queue_ok A s' js" using ok test_go by (auto simp: queue_ok_def)
  then show ?thesis ..
next
  case (w_unlock i j)
  then have "queue_ok A s' js" using ok by (auto simp: queue_ok_def)
  then show ?thesis ..
qed (use ok in \<open>auto simp: queue_ok_def\<close>)

lemma queue_ok_spurious:
  "queue_ok A s js \<Longrightarrow> spurious_step s s' \<Longrightarrow> queue_ok A s' js"
  by (erule spurious_stepE) (auto simp: queue_ok_def)

lemma queue_ok_start:
  assumes "alloc_fresh A" and "new_addr A 0 \<noteq> 0"
  shows "queue_ok A (pool_start A) []"
  using new_queue_contents [OF assms(1), of empty_mem] assms(2)
  by (simp add: queue_ok_def pool_start_def job_queue.history_def empty_mem_def)

subsection \<open>No lost wake-up\<close>

fun active :: "worker_pc \<Rightarrow> bool" where
  "active p \<longleftrightarrow> p \<in> {Lock, Test, Woken, Dequeue, Unlock, Job}"

text \<open>
  While jobs are queued and the signal for the last one has been given, a worker can be asleep
  only if another one is awake.
\<close>

definition wake_ok :: "pool \<Rightarrow> bool" where
  "wake_ok s \<longleftrightarrow> main s = M_Signal \<or> queue_size (mem s) = Some 0 \<or>
     (\<exists>w\<in>set (workers s). active (w_pc w)) \<or> (\<forall>w\<in>set (workers s). w_pc w \<noteq> Waiting)"

lemma wake_ok_active:
  assumes "i < length (workers s)" and "active p"
  shows "wake_ok (set_worker i p j s)"
proof -
  have "\<lparr>w_pc = p, w_job = j\<rparr> \<in> set (workers (set_worker i p j s))"
    using assms(1) by (simp add: set_worker_def set_update_memI)
  then have "\<exists>w\<in>set (workers (set_worker i p j s)). active (w_pc w)"
    by (rule bexI [rotated]) (simp only: worker.simps assms(2))
  then show ?thesis by (simp only: wake_ok_def simp_thms)
qed

lemma wake_ok_main:
  assumes "wake_ok s" and "main_step A s s'"
  shows "wake_ok s'"
  using assms(2)
proof cases
  case (signal_wake i j)
  then show ?thesis using wake_ok_active [of i "s\<lparr>main := M_Unlock\<rparr>" Woken j] by (simp add: at_pc_def)
qed (use assms(1) in \<open>auto simp: wake_ok_def queue_size_def simp del: active.simps\<close>)

lemma wake_ok_worker:
  assumes "wake_ok s" and "worker_step s s'"
  shows "wake_ok s'"
  using assms(2)
proof cases
  case (init_fail i j)
  have "w \<in> set (workers s) \<Longrightarrow> active (w_pc w) \<Longrightarrow> w \<in> set (workers s')" for w
  proof -
    assume "w \<in> set (workers s)" "active (w_pc w)"
    moreover from this obtain k where k: "k < length (workers s)" "workers s ! k = w"
      by (auto simp: in_set_conv_nth)
    ultimately have "k \<noteq> i" using init_fail(2) by (auto simp: at_pc_def)
    with k have "workers s' ! k = w" "k < length (workers s')" unfolding init_fail(1) by simp_all
    then show ?thesis by (metis nth_mem)
  qed
  moreover have waiting: "w \<in> set (workers s') \<Longrightarrow> w_pc w = Waiting \<Longrightarrow> w \<in> set (workers s)" for w
    unfolding init_fail(1) set_worker_def by (auto dest!: subsetD [OF set_update_subset_insert])
  ultimately have "\<exists>w\<in>set (workers s'). active (w_pc w)" if "\<exists>w\<in>set (workers s). active (w_pc w)"
    using that by blast
  moreover have "main s' = main s" "mem s' = mem s" by (simp_all add: init_fail(1))
  ultimately show ?thesis using assms(1) waiting unfolding wake_ok_def by metis
next
  case (test_wait i j)
  then show ?thesis by (simp add: wake_ok_def)
qed (hypsubst, rule wake_ok_active, simp add: at_pc_def, simp split: if_split)+

lemma wake_ok_spurious: "spurious_step s s' \<Longrightarrow> wake_ok s'"
  by (erule spurious_stepE) (auto intro!: wake_ok_active simp: at_pc_def)

lemma wake_ok_reach: "pool_reach A (pool_start A) s \<Longrightarrow> wake_ok s"
proof (rule pool_reach_invariant [where I = wake_ok])
  show "wake_ok (pool_start A)" by (simp add: wake_ok_def pool_start_def)
  show "wake_ok u" if "wake_ok t" "pool_step A t u" for t u
    using that(2) by (rule pool_step_cases) (blast intro: wake_ok_main wake_ok_worker wake_ok_spurious that(1))+
qed

subsection \<open>Every job runs once\<close>

definition in_hand :: "worker \<Rightarrow> job multiset" where
  "in_hand w = (if w_pc w \<in> {Unlock, Job} then {#w_job w#} else {#})"

definition hands :: "worker list \<Rightarrow> job multiset" where
  "hands ws = (\<Sum>k<length ws. in_hand (ws ! k))"

lemma hands_update:
  assumes "i < length ws"
  shows "hands (ws[i := w]) + in_hand (ws ! i) = hands ws + in_hand w"
proof -
  have "hands (ws[i := w]) = in_hand w + (\<Sum>k\<in>{..<length ws} - {i}. in_hand (ws[i := w] ! k))"
    using assms by (simp add: hands_def sum.remove [of _ i])
  also have "(\<Sum>k\<in>{..<length ws} - {i}. in_hand (ws[i := w] ! k)) = (\<Sum>k\<in>{..<length ws} - {i}. in_hand (ws ! k))"
    by (rule sum.cong) auto
  finally have "hands (ws[i := w]) + in_hand (ws ! i) =
      in_hand w + (in_hand (ws ! i) + (\<Sum>k\<in>{..<length ws} - {i}. in_hand (ws ! k)))"
    by (simp add: ac_simps)
  also have "in_hand (ws ! i) + (\<Sum>k\<in>{..<length ws} - {i}. in_hand (ws ! k)) = hands ws"
    using assms by (simp add: hands_def sum.remove [of _ i])
  finally show ?thesis by (simp add: ac_simps)
qed

lemma hands_append: "hands (ws @ [w]) = hands ws + in_hand w"
  by (simp add: hands_def nth_append)

lemma in_hands: "w \<in> set ws \<Longrightarrow> in_hand w \<subseteq># hands ws"
proof -
  assume "w \<in> set ws"
  then obtain i where "i < length ws" "ws ! i = w" by (auto simp: in_set_conv_nth)
  then have "hands ws = in_hand w + (\<Sum>k\<in>{..<length ws} - {i}. in_hand (ws ! k))"
    by (simp add: hands_def sum.remove [of _ i])
  then show ?thesis by simp
qed

definition jobs_ok :: "pool \<Rightarrow> bool" where
  "jobs_ok s \<longleftrightarrow> mset (taken s) = mset (ran s) + hands (workers s) \<and> 0 \<notin> set (added s) \<and>
     (\<forall>j. main s = M_Lock j \<or> main s = M_Alloc j \<longrightarrow> j \<noteq> 0)"

lemma hands_set_worker:
  "at_pc s i p j \<Longrightarrow> hands (workers (set_worker i p' j' s)) + in_hand \<lparr>w_pc = p, w_job = j\<rparr> =
    hands (workers s) + in_hand \<lparr>w_pc = p', w_job = j'\<rparr>"
  using hands_update [of i "workers s" "\<lparr>w_pc = p', w_job = j'\<rparr>"] by (simp add: at_pc_def set_worker_def)

lemma jobs_ok_main:
  assumes "jobs_ok s" and "main_step A s s'"
  shows "jobs_ok s'"
  using assms(2)
proof cases
  case (signal_wake i j)
  then show ?thesis using assms(1) hands_set_worker [of "s\<lparr>main := M_Unlock\<rparr>" i Waiting j Woken j]
    by (simp add: jobs_ok_def in_hand_def at_pc_def)
qed (use assms(1) in \<open>auto simp: jobs_ok_def hands_append in_hand_def\<close>)

lemma jobs_ok_worker:
  assumes jobs: "jobs_ok s" and q: "queue_ok A s js" and lk: "lock_ok s" and st: "worker_step s s'"
  shows "jobs_ok s'"
proof -
  have added: "added s = taken s @ js" using q by (simp add: queue_ok_def job_queue.history_def)
  have taken: "mset (taken s) = mset (ran s) + hands (workers s)" and nz: "0 \<notin> set (added s)"
    using jobs by (simp_all add: jobs_ok_def)
  have hand: "j \<noteq> 0" if "at_pc s i p j" "p \<in> {Unlock, Job}" for i p j
  proof -
    have "j \<in># hands (workers s)"
      using in_hands [of "\<lparr>w_pc = p, w_job = j\<rparr>" "workers s"] that
      by (auto simp: at_pc_def in_hand_def dest: nth_mem)
    then have "j \<in># mset (taken s)" unfolding taken by simp
    then show ?thesis using nz unfolding added by (auto intro: Nat.gr0I)
  qed
  show ?thesis
    using st
  proof cases
    case (dequeue i j n j' m)
    have "jobs_ok (s\<lparr>mem := m, taken := taken s\<rparr>) = jobs_ok s" by (simp add: jobs_ok_def)
    then show ?thesis
      using jobs dequeue hands_set_worker [of "s\<lparr>mem := m, taken := taken s @ [j']\<rparr>" i Dequeue j Unlock j']
      by (simp add: jobs_ok_def in_hand_def at_pc_def)
  next
    case (dequeue_skip i j)
    have "queue_size (mem s) = Some (int (length js))" using q history_size by (auto simp: queue_ok_def)
    moreover have "js \<noteq> []" using q dequeue_skip(2) by (auto simp: queue_ok_def at_pc_def)
    ultimately show ?thesis using dequeue_skip(3) by simp
  next
    case (w_unlock i j)
    then show ?thesis
      using jobs hand [of i Unlock j] hands_set_worker [of "s\<lparr>lock := None\<rparr>" i Unlock j Job j]
      by (simp add: jobs_ok_def in_hand_def at_pc_def)
  next
    case (run i j)
    then show ?thesis
      using jobs hands_set_worker [of "s\<lparr>ran := ran s @ [j]\<rparr>" i Job j Lock j]
      by (simp add: jobs_ok_def in_hand_def at_pc_def ac_simps)
  next
    case (init i j)
    then show ?thesis using jobs hands_set_worker [of s i Start j Lock j] by (simp add: jobs_ok_def in_hand_def)
  next
    case (init_fail i j)
    then show ?thesis using jobs hands_set_worker [of s i Start j Ended j] by (simp add: jobs_ok_def in_hand_def)
  next
    case (w_lock i j)
    then show ?thesis using jobs hands_set_worker [of "s\<lparr>lock := Some (Worker i)\<rparr>" i Lock j Test j]
      by (simp add: jobs_ok_def in_hand_def at_pc_def)
  next
    case (test_wait i j)
    then show ?thesis using jobs hands_set_worker [of "s\<lparr>lock := None\<rparr>" i Test j Waiting j]
      by (simp add: jobs_ok_def in_hand_def at_pc_def)
  next
    case (test_go i j n)
    then show ?thesis using jobs hands_set_worker [of s i Test j Dequeue j] by (simp add: jobs_ok_def in_hand_def)
  next
    case (relock i j)
    then show ?thesis using jobs hands_set_worker [of "s\<lparr>lock := Some (Worker i)\<rparr>" i Woken j Test j]
      by (simp add: jobs_ok_def in_hand_def at_pc_def)
  qed
qed

lemma jobs_ok_spurious: "jobs_ok s \<Longrightarrow> spurious_step s s' \<Longrightarrow> jobs_ok s'"
proof (erule spurious_stepE)
  fix i j assume "jobs_ok s" "s' = set_worker i Woken j s" "at_pc s i Waiting j"
  then show "jobs_ok s'" using hands_set_worker [of s i Waiting j Woken j] by (simp add: jobs_ok_def in_hand_def)
qed

text \<open>The invariant of the pool.\<close>

definition pool_inv :: "allocator \<Rightarrow> pool \<Rightarrow> bool" where
  "pool_inv A s \<longleftrightarrow> lock_ok s \<and> jobs_ok s \<and> wake_ok s \<and> (\<exists>js. queue_ok A s js)"

lemma pool_inv_step:
  assumes "pool_inv A s" and "pool_step A s s'"
  shows "pool_inv A s'"
proof -
  obtain js where I: "lock_ok s" "jobs_ok s" "wake_ok s" "queue_ok A s js" using assms(1) by (auto simp: pool_inv_def)
  have "lock_ok s'" using I(1) assms(2) by (rule lock_ok_step)
  with assms(2) show ?thesis unfolding pool_inv_def
    by (elim pool_step_cases)
      (blast intro: jobs_ok_main wake_ok_main queue_ok_main jobs_ok_worker wake_ok_worker queue_ok_worker
        jobs_ok_spurious wake_ok_spurious queue_ok_spurious I)+
qed

lemma pool_inv_reach:
  assumes "alloc_fresh A" and "new_addr A 0 \<noteq> 0" and "pool_reach A (pool_start A) s"
  shows "pool_inv A s"
proof (rule pool_reach_invariant [OF assms(3), where I = "pool_inv A"])
  have "wake_ok (pool_start A)" by (simp add: wake_ok_def pool_start_def)
  moreover have "jobs_ok (pool_start A)" by (simp add: jobs_ok_def pool_start_def hands_def)
  ultimately show "pool_inv A (pool_start A)"
    using queue_ok_start [OF assms(1,2)] lock_ok_start by (auto simp: pool_inv_def)
qed (rule pool_inv_step)

subsection \<open>Progress, and a deadlock\<close>

text \<open>While no allocation fails, the main thread gives the lock back.\<close>

definition main_releases :: "pool \<Rightarrow> bool" where
  "main_releases s \<longleftrightarrow> (lock s = Some Main \<longrightarrow> main_holds (main s))"

lemma main_releases_step:
  assumes "main_releases s" and "lock_ok s" and "\<forall>k. new_addr A k \<noteq> 0" and "pool_step A s s'"
  shows "main_releases s'"
  using assms(4)
proof (rule pool_step_cases)
  assume "main_step A s s'"
  moreover have "new_addr A (pcalls (mem s)) \<noteq> 0" using assms(3) by blast
  ultimately show ?thesis using assms(1) by cases (auto simp: main_releases_def)
next
  assume "worker_step s s'"
  then show ?thesis using assms(1) by cases (auto simp: main_releases_def)
next
  assume "spurious_step s s'"
  then show ?thesis using assms(1) by cases (auto simp: main_releases_def)
qed

lemma main_releases_reach:
  assumes "\<forall>k. new_addr A k \<noteq> 0" and "pool_reach A (pool_start A) s"
  shows "main_releases s"
proof -
  have "main_releases s \<and> lock_ok s"
  proof (rule pool_reach_invariant [OF assms(2)])
    show "main_releases (pool_start A) \<and> lock_ok (pool_start A)"
      using lock_ok_start by (simp add: main_releases_def pool_start_def)
    show "main_releases u \<and> lock_ok u" if "main_releases t \<and> lock_ok t" "pool_step A t u" for t u
      using that main_releases_step [OF _ _ assms(1)] lock_ok_step by blast
  qed
  then show ?thesis ..
qed

lemma worker_lock_step:
  assumes "i < length (workers s)" and "w_pc (workers s ! i) \<in> {Lock, Woken}" and "lock s = None"
  shows "\<exists>s'. worker_step s s'"
  using assms worker_step.w_lock [of s i "w_job (workers s ! i)"] worker_step.relock [of s i "w_job (workers s ! i)"]
  by (cases "workers s ! i") (auto simp: at_pc_def)

lemma worker_holder_step:
  assumes "i < length (workers s)" and "holds_lock (w_pc (workers s ! i))" and "queue_ok A s js"
  shows "\<exists>s'. worker_step s s'"
proof -
  obtain j where "at_pc s i (w_pc (workers s ! i)) j" using assms(1) by (cases "workers s ! i") (simp add: at_pc_def)
  moreover have size: "queue_size (mem s) = Some (int (length js))"
    using assms(3) history_size by (auto simp: queue_ok_def)
  ultimately consider "at_pc s i Test j" | "at_pc s i Dequeue j" | "at_pc s i Unlock j"
    using assms(2) by auto
  then show ?thesis
  proof cases
    case 1
    then show ?thesis using size worker_step.test_wait [OF 1] worker_step.test_go [OF 1, of "int (length js)"]
      by (cases "js = []") auto
  next
    case 2
    then have "js \<noteq> []" using assms(3) by (auto simp: queue_ok_def at_pc_def)
    then obtain j' js' where js: "js = j' # js'" by (cases js) auto
    then obtain m where "dequeue_job (mem s) = Some (j', m)"
      using assms(3) job_queue.get_ok [of A "mem s" j' js'] by (auto simp: queue_ok_def job_queue.history_def)
    then show ?thesis using worker_step.dequeue [OF 2 size] js by auto
  next
    case 3
    then show ?thesis using worker_step.w_unlock by blast
  qed
qed

lemma main_holder_step:
  assumes "main_holds (main s)" and "queue_ok A s js" and "\<forall>k. new_addr A k \<noteq> 0"
  shows "\<exists>s'. main_step A s s'"
proof (cases "main s")
  case (M_Alloc j)
  moreover have "queue_contents A (mem s) js" using assms(2) by (simp add: queue_ok_def job_queue.history_def)
  then obtain m where "push_job A (mem s) j = Some m" using push_job_total assms(3) by metis
  ultimately show ?thesis using main_step.push by blast
next
  case M_Signal
  show ?thesis
  proof (cases "\<exists>w\<in>set (workers s). w_pc w = Waiting")
    case True
    then obtain i w where "i < length (workers s)" "workers s ! i = w" "w_pc w = Waiting"
      by (auto simp: in_set_conv_nth)
    then have "at_pc s i Waiting (w_job w)" by (cases w) (simp add: at_pc_def)
    then show ?thesis using M_Signal main_step.signal_wake by blast
  next
    case False
    then show ?thesis using M_Signal main_step.signal_none by blast
  qed
next
  case M_Unlock
  then show ?thesis using main_step.m_unlock by blast
qed (use assms(1) in auto)

text \<open>
  A failed allocation in \<open>add_job_to_pool\<close>: the main thread is back in its loop and still owns the
  lock, which it will ask for again.
\<close>

definition lock_leaked :: "pool \<Rightarrow> bool" where
  "lock_leaked s \<longleftrightarrow> lock s = Some Main \<and> (main s = M_Ready \<or> (\<exists>j. main s = M_Lock j))"

lemma lock_leaked_step:
  assumes leak: "lock_leaked s" and ok: "lock_ok s" and st: "pool_step A s s'"
  shows "lock_leaked s' \<and> taken s' = taken s \<and> added s' = added s"
  using st
proof (rule pool_step_cases)
  assume "main_step A s s'"
  then show ?thesis using leak by cases (auto simp: lock_leaked_def)
next
  have free: "\<not> at_pc s i p j" if "holds_lock p" for i p j
    using lock_ok_holder [OF ok, of i p j] that leak by (auto simp: lock_leaked_def)
  assume "worker_step s s'"
  then show ?thesis
    using leak free [of Test] free [of Dequeue] free [of Unlock] by cases (auto simp: lock_leaked_def)
next
  assume "spurious_step s s'"
  then show ?thesis using leak by cases (auto simp: lock_leaked_def)
qed

subsection \<open>Properties\<close>

text \<open>Runs to evaluate examples with: the pool with all its workers created, a worker that finds no job and
  goes to sleep, and the main thread adding a job.\<close>

lemma reach_step: "pool_reach A s t \<Longrightarrow> main_step A t u \<Longrightarrow> pool_reach A s u"
  "pool_reach A s t \<Longrightarrow> worker_step t u \<Longrightarrow> pool_reach A s u"
  by (auto intro: pool_reach.step simp: pool_step_def)

definition created :: "allocator \<Rightarrow> nat \<Rightarrow> pool" where
  "created A k = (pool_start A)\<lparr>mem := (create_job_queue A empty_mem)\<lparr>pcalls := Suc k\<rparr>, main := M_Init k,
     workers := replicate k \<lparr>w_pc = Start, w_job = 0\<rparr>\<rparr>"

lemma created_reach:
  assumes "\<forall>i\<le>k. new_addr A i \<noteq> 0" and "k \<le> NUM_OF_THREADS"
  shows "pool_reach A (pool_start A) (created A k)"
  using assms
proof (induction k)
  case 0
  have "created A 0 = pool_start A"
    by (simp add: created_def pool_start_def create_job_queue_def empty_mem_def)
  then show ?case by (simp add: pool_reach.refl)
next
  case (Suc k)
  have "main_step A (created A k) (created A (Suc k))"
    using Suc.prems main_step.create [of "created A k" k A]
    by (simp add: created_def replicate_append_same)
  with Suc show ?case by (auto intro: reach_step(1))
qed

definition sleep_worker :: "nat \<Rightarrow> pool \<Rightarrow> pool" where
  "sleep_worker i s = set_worker i Waiting 0
     (set_worker i Test 0 (set_worker i Lock 0 s\<lparr>lock := Some (Worker i)\<rparr>)\<lparr>lock := None\<rparr>)"

lemma sleep_worker_reach:
  assumes "pool_reach A p s" and "at_pc s i Start 0" and "lock s = None" and "queue_size (mem s) = Some 0"
  shows "pool_reach A p (sleep_worker i s)"
proof -
  let ?s1 = "set_worker i Lock 0 s"
  let ?s2 = "set_worker i Test 0 (?s1\<lparr>lock := Some (Worker i)\<rparr>)"
  have "worker_step s ?s1" using assms(2) by (rule worker_step.init)
  moreover have "worker_step ?s1 ?s2"
    using assms(2,3) by (intro worker_step.w_lock) (auto simp: at_pc_def)
  moreover have "worker_step ?s2 (sleep_worker i s)"
    unfolding sleep_worker_def using assms(2,4) by (intro worker_step.test_wait) (auto simp: at_pc_def)
  ultimately show ?thesis using assms(1) by (blast intro: reach_step)
qed

definition ready :: "allocator \<Rightarrow> pool" where
  "ready A = (created A NUM_OF_THREADS)\<lparr>main := M_Ready\<rparr>"

lemma ready_reach: "\<forall>i\<le>NUM_OF_THREADS. new_addr A i \<noteq> 0 \<Longrightarrow> pool_reach A (pool_start A) (ready A)"
  using created_reach [of NUM_OF_THREADS A] main_step.init_done [of "created A NUM_OF_THREADS" A]
  by (auto simp: ready_def created_def intro: reach_step(1))

definition ask_lock :: "job \<Rightarrow> pool \<Rightarrow> pool" where
  "ask_lock j s = s\<lparr>lock := Some Main, main := M_Alloc j\<rparr>"

lemma ask_lock_reach:
  assumes "pool_reach A p s" and "main s = M_Ready" and "lock s = None" and "j \<noteq> 0"
  shows "pool_reach A p (ask_lock j s)"
proof -
  have "main_step A s (s\<lparr>main := M_Lock j\<rparr>)" using assms(2,4) by (rule main_step.add_job)
  moreover have "main_step A (s\<lparr>main := M_Lock j\<rparr>) (ask_lock j s)"
    using main_step.m_lock [of "s\<lparr>main := M_Lock j\<rparr>" j A] assms(3) by (simp add: ask_lock_def)
  ultimately show ?thesis using assms(1) by (blast intro: reach_step)
qed

text \<open>Two workers asleep; a job is added and the first of them is woken.\<close>

definition sleepy_pool :: pool where
  "sleepy_pool = (let s = ask_lock 5 (sleep_worker 1 (sleep_worker 0 (ready sample_alloc))) in
     set_worker 0 Woken 0 (s\<lparr>mem := the (push_job sample_alloc (mem s) 5), added := added s @ [5], main := M_Unlock\<rparr>))"

lemma ready_fields:
  "lock (ready A) = None" "main (ready A) = M_Ready" "mem (ready A) = (create_job_queue A empty_mem)\<lparr>pcalls := 11\<rparr>"
  "workers (ready A) = replicate 10 \<lparr>w_pc = Start, w_job = 0\<rparr>" "added (ready A) = []"
  by (simp_all add: ready_def created_def pool_start_def NUM_OF_THREADS_def)

lemma sleep_worker_fields:
  "mem (sleep_worker i s) = mem s" "main (sleep_worker i s) = main s" "lock (sleep_worker i s) = None"
  "workers (sleep_worker i s) = (workers s)[i := \<lparr>w_pc = Waiting, w_job = 0\<rparr>]" "added (sleep_worker i s) = added s"
  by (simp_all add: sleep_worker_def) (simp add: set_worker_def)

lemma sleepy_pool_queue:
  "push_job sample_alloc (mem (ready sample_alloc)) 5 = Some (mem sleepy_pool)" "queue_size (mem sleepy_pool) = Some 1"
  by (simp_all add: sleepy_pool_def Let_def ask_lock_def sleep_worker_fields ready_fields push_job_def sample_alloc_def
      create_job_queue_def empty_mem_def enqueue_job_def queue_size_def)

lemma sleepy_pool_fields:
  "main sleepy_pool = M_Unlock" "length (workers sleepy_pool) = 10" "workers sleepy_pool ! 0 = \<lparr>w_pc = Woken, w_job = 0\<rparr>"
  "workers sleepy_pool ! 1 = \<lparr>w_pc = Waiting, w_job = 0\<rparr>"
  by (simp_all add: sleepy_pool_def Let_def ask_lock_def sleep_worker_fields ready_fields)

lemma sleepy_pool_reach: "pool_reach sample_alloc (pool_start sample_alloc) sleepy_pool"
proof -
  let ?A = sample_alloc
  let ?s = "ask_lock 5 (sleep_worker 1 (sleep_worker 0 (ready ?A)))"
  let ?t = "?s\<lparr>mem := mem sleepy_pool, main := M_Signal, added := added ?s @ [5]\<rparr>"
  have q: "queue_size (mem (ready ?A)) = Some 0"
    by (simp add: ready_fields create_job_queue_def sample_alloc_def queue_size_def)
  have "pool_reach ?A (pool_start ?A) (ready ?A)" by (rule ready_reach) (simp add: sample_alloc_def)
  then have "pool_reach ?A (pool_start ?A) (sleep_worker 1 (sleep_worker 0 (ready ?A)))"
    by (intro sleep_worker_reach) (simp_all add: at_pc_def sleep_worker_fields ready_fields q [unfolded ready_fields])
  then have "pool_reach ?A (pool_start ?A) ?s"
    by (rule ask_lock_reach) (simp_all add: sleep_worker_fields ready_fields)
  moreover have "main_step ?A ?s ?t"
    using sleepy_pool_queue(1) by (intro main_step.push) (simp_all add: ask_lock_def sleep_worker_fields)
  moreover have "main_step ?A ?t sleepy_pool"
  proof -
    have "at_pc ?t 0 Waiting 0" by (simp add: at_pc_def ask_lock_def sleep_worker_fields ready_fields)
    then have "main_step ?A ?t (set_worker 0 Woken 0 (?t\<lparr>main := M_Unlock\<rparr>))"
      by (intro main_step.signal_wake) simp_all
    moreover have "sleepy_pool = set_worker 0 Woken 0 (?t\<lparr>main := M_Unlock\<rparr>)"
      by (simp add: sleepy_pool_def Let_def)
    ultimately show ?thesis by metis
  qed
  ultimately show ?thesis by (blast intro: reach_step)
qed

lemma sample_alloc_fresh: "alloc_fresh sample_alloc" "new_addr sample_alloc k \<noteq> 0"
  by (simp_all add: alloc_fresh_def sample_alloc_def)

text \<open>C13. Mutual exclusion: in every reachable state at most one thread is between taking and releasing the lock of the
  queue, main thread or worker.\<close>

theorem pool_mutual_exclusion:
  assumes "pool_reach A (pool_start A) s" and "i < length (workers s)" and "holds_lock (w_pc (workers s ! i))"
  shows "\<not> main_holds (main s) \<and> (\<forall>k<length (workers s). holds_lock (w_pc (workers s ! k)) \<longrightarrow> k = i)"
  using lock_ok_reach [OF assms(1)] assms(2,3) unfolding lock_ok_def by (metis option.inject thread.distinct(1) thread.inject)

theorem pool_mutual_exclusion_witness:
  "\<not> main_holds (main (set_worker 0 Test 0 (set_worker 0 Lock 0 (ready sample_alloc)\<lparr>lock := Some (Worker 0)\<rparr>)))"
proof -
  let ?s1 = "set_worker 0 Lock 0 (ready sample_alloc)"
  let ?s2 = "set_worker 0 Test 0 (?s1\<lparr>lock := Some (Worker 0)\<rparr>)"
  have "worker_step (ready sample_alloc) ?s1" by (rule worker_step.init) (simp add: at_pc_def ready_fields)
  moreover have "worker_step ?s1 ?s2" by (rule worker_step.w_lock) (simp_all add: at_pc_def ready_fields)
  moreover have "pool_reach sample_alloc (pool_start sample_alloc) (ready sample_alloc)"
    by (rule ready_reach) (simp add: sample_alloc_def)
  ultimately have "pool_reach sample_alloc (pool_start sample_alloc) ?s2" by (blast intro: reach_step)
  then show ?thesis by (rule pool_mutual_exclusion [of _ _ 0, THEN conjunct1]) (simp_all add: ready_fields)
qed

text \<open>C21. Hand-over is first in, first out: in every reachable state the jobs the workers have taken are a
  prefix of the jobs added, in the same order, and the rest is in the queue.\<close>

theorem pool_hands_over_in_order:
  assumes "alloc_fresh A" and "new_addr A 0 \<noteq> 0" and "pool_reach A (pool_start A) s"
  shows "\<exists>js. queue_contents A (mem s) js \<and> added s = taken s @ js \<and> queue_size (mem s) = Some (int (length js))"
  using pool_inv_reach [OF assms] history_size
  by (fastforce simp: pool_inv_def queue_ok_def job_queue.history_def)

theorem pool_hands_over_in_order_witness:
  "\<exists>js. queue_contents sample_alloc (mem sleepy_pool) js \<and> added sleepy_pool = taken sleepy_pool @ js"
  using pool_hands_over_in_order [OF _ _ sleepy_pool_reach] by (auto simp: sample_alloc_fresh)

text \<open>C10. No job is lost and none runs twice: as multisets, the jobs added are the jobs whose function has been called,
  those a worker holds, and those in the queue.\<close>

theorem pool_runs_every_job_once:
  assumes "alloc_fresh A" and "new_addr A 0 \<noteq> 0" and "pool_reach A (pool_start A) s"
  shows "\<exists>js. queue_contents A (mem s) js \<and> mset (added s) = mset (ran s) + hands (workers s) + mset js"
proof -
  obtain js where js: "queue_ok A s js" and "jobs_ok s" using pool_inv_reach [OF assms] by (auto simp: pool_inv_def)
  then have "mset (taken s) = mset (ran s) + hands (workers s)" by (simp add: jobs_ok_def)
  then show ?thesis using js by (intro exI [of _ js]) (simp add: queue_ok_def job_queue.history_def)
qed

theorem pool_runs_every_job_once_witness:
  "\<exists>js. queue_contents sample_alloc (mem sleepy_pool) js \<and>
    mset (added sleepy_pool) = mset (ran sleepy_pool) + hands (workers sleepy_pool) + mset js"
  using pool_runs_every_job_once [OF _ _ sleepy_pool_reach] by (simp add: sample_alloc_fresh)

text \<open>C12. No lost wake-up: with a job in the queue and no signal outstanding, a sleeping worker means that another worker
  is awake and on its way to the queue.\<close>

theorem pool_no_lost_wakeup:
  assumes "pool_reach A (pool_start A) s" and "queue_size (mem s) \<noteq> Some 0" and "main s \<noteq> M_Signal"
    and "w \<in> set (workers s)" and "w_pc w = Waiting"
  shows "\<exists>v\<in>set (workers s). active (w_pc v)"
  using wake_ok_reach [OF assms(1)] assms(2-) unfolding wake_ok_def by metis

theorem pool_no_lost_wakeup_witness: "\<exists>v\<in>set (workers sleepy_pool). active (w_pc v)"
  using pool_no_lost_wakeup [OF sleepy_pool_reach, of "workers sleepy_pool ! 1"] sleepy_pool_queue(2) sleepy_pool_fields
  by simp

text \<open>C11. No deadlock while allocations succeed: with a job in the queue and a worker that has got past its set-up, some
  worker can take a step, or the main thread holds the lock and can take one; no spurious wake-up is
  needed for it.\<close>

theorem pool_progress:
  assumes A: "alloc_fresh A" "\<forall>k. new_addr A k \<noteq> 0" and reach: "pool_reach A (pool_start A) s"
    and queue: "queue_size (mem s) \<noteq> Some 0"
    and w: "w \<in> set (workers s)" "w_pc w \<notin> {Start, Ended}"
  shows "(\<exists>s'. worker_step s s') \<or> main_holds (main s) \<and> (\<exists>s'. main_step A s s')"
proof -
  obtain js where I: "lock_ok s" "wake_ok s" "queue_ok A s js"
    using pool_inv_reach [OF A(1) _ reach] A(2) by (auto simp: pool_inv_def)
  show ?thesis
  proof (cases "lock s")
    case None
    then have "main s \<noteq> M_Signal" using I(1) by (auto simp: lock_ok_def)
    then have "\<exists>v\<in>set (workers s). active (w_pc v)"
      using I(2) queue w unfolding wake_ok_def by (cases "w_pc w") auto
    then obtain i where i: "i < length (workers s)" "active (w_pc (workers s ! i))" by (metis in_set_conv_nth)
    moreover have "\<not> holds_lock (w_pc (workers s ! i))" using I(1) i(1) None unfolding lock_ok_def by simp
    ultimately consider "w_pc (workers s ! i) \<in> {Lock, Woken}" | "w_pc (workers s ! i) = Job" by auto
    then show ?thesis
    proof cases
      case 1
      then show ?thesis using worker_lock_step [OF i(1) _ None] by blast
    next
      case 2
      then have "at_pc s i Job (w_job (workers s ! i))" using i(1) by (cases "workers s ! i") (simp add: at_pc_def)
      then show ?thesis using worker_step.run by blast
    qed
  next
    case (Some t)
    show ?thesis
    proof (cases t)
      case Main
      then have "main_holds (main s)" using main_releases_reach [OF A(2) reach] Some by (simp add: main_releases_def)
      then show ?thesis using main_holder_step [OF _ I(3) A(2)] by blast
    next
      case (Worker i)
      then have "i < length (workers s)" "holds_lock (w_pc (workers s ! i))"
        using I(1) Some unfolding lock_ok_def by blast+
      then show ?thesis using worker_holder_step [OF _ _ I(3)] by blast
    qed
  qed
qed

theorem pool_progress_witness:
  "(\<exists>s'. worker_step sleepy_pool s') \<or> main_holds (main sleepy_pool) \<and> (\<exists>s'. main_step sample_alloc sleepy_pool s')"
  using pool_progress [OF _ _ sleepy_pool_reach, of "workers sleepy_pool ! 1"] sleepy_pool_queue(2) sleepy_pool_fields
    sample_alloc_fresh by simp

text \<open>C22. A failed allocation in \<open>add_job_to_pool\<close> deadlocks the pool: the function returns with the lock held, and
  from then on no job is ever added or taken, whatever the threads do.\<close>

theorem failed_alloc_deadlocks_pool:
  assumes "pool_reach A (pool_start A) s" and "main s = M_Alloc j" and "new_addr A (pcalls (mem s)) = 0"
  shows "\<exists>s'. main_step A s s' \<and>
    (\<forall>t. pool_reach A s' t \<longrightarrow> lock t = Some Main \<and> added t = added s \<and> taken t = taken s)"
proof -
  let ?s = "s\<lparr>mem := (mem s)\<lparr>pcalls := pcalls (mem s) + 1\<rparr>, main := M_Ready\<rparr>"
  have st: "main_step A s ?s" using assms(2,3) by (rule main_step.alloc_fail)
  have ok: "lock_ok ?s" using lock_ok_main [OF lock_ok_reach [OF assms(1)] st] .
  have "lock s = Some Main" using lock_ok_reach [OF assms(1)] assms(2) by (simp add: lock_ok_def)
  then have leak: "lock_leaked ?s" by (simp add: lock_leaked_def)
  have "lock_ok t \<and> lock_leaked t \<and> added t = added s \<and> taken t = taken s" if "pool_reach A ?s t" for t
    using that
  proof (rule pool_reach_invariant)
    show "lock_ok ?s \<and> lock_leaked ?s \<and> added ?s = added s \<and> taken ?s = taken s" using ok leak by simp
    show "lock_ok u \<and> lock_leaked u \<and> added u = added s \<and> taken u = taken s"
      if "lock_ok t \<and> lock_leaked t \<and> added t = added s \<and> taken t = taken s" "pool_step A t u" for t u
      using that lock_ok_step lock_leaked_step by metis
  qed
  then show ?thesis using st by (intro exI [of _ ?s]) (simp add: lock_leaked_def)
qed

text \<open>An allocator that fails from the twelfth call on.\<close>

definition short_alloc :: allocator where
  "short_alloc = sample_alloc\<lparr>new_addr := \<lambda>k. if k < 11 then Suc k else 0\<rparr>"

theorem failed_alloc_deadlocks_pool_witness:
  "\<exists>s'. main_step short_alloc (ask_lock 5 (ready short_alloc)) s' \<and>
    (\<forall>t. pool_reach short_alloc s' t \<longrightarrow> lock t = Some Main \<and> added t = [] \<and> taken t = taken (ready short_alloc))"
proof -
  have "pool_reach short_alloc (pool_start short_alloc) (ready short_alloc)"
    by (rule ready_reach) (simp add: short_alloc_def NUM_OF_THREADS_def)
  then have "pool_reach short_alloc (pool_start short_alloc) (ask_lock 5 (ready short_alloc))"
    by (rule ask_lock_reach) (simp_all add: ready_fields)
  from failed_alloc_deadlocks_pool [OF this, of 5] show ?thesis
    by (simp add: ask_lock_def ready_fields short_alloc_def)
qed

end
