(* ===== verification/Event_Loop.thy ===== *)
theory Event_Loop
  imports Thread_Pool
begin

section \<open>The event loop of the server (server.c)\<close>

text \<open>
  The loop at the end of \<open>main\<close>: \<open>select\<close> on the listening socket and the open connections,
  \<open>accept\<close> until it would block, and one job for the thread pool for every connection with
  something to read. What \<open>select\<close> and \<open>accept\<close> return is a parameter. The
  lemmas show what one round does to the set of watched descriptors and which jobs it hands over.
\<close>

subsection \<open>State\<close>

text \<open>\<open>submitted\<close> is the history of \<open>add_job_to_pool\<close>: job pointer and descriptor.\<close>

record loop_state =
  listenfd :: int
  currentfds :: "int set"
  maxfd :: int
  submitted :: "(job \<times> int) list"
  lcalls :: nat

definition FD_SETSIZE :: int where "FD_SETSIZE = 1024"

text \<open>\<open>FD_SET\<close> on a descriptor that is not below \<open>FD_SETSIZE\<close> writes outside the set.\<close>

definition fd_add :: "int \<Rightarrow> int set \<Rightarrow> int set option" where
  "fd_add fd S = (if 0 \<le> fd \<and> fd < FD_SETSIZE then Some (insert fd S) else None)"

subsection \<open>One round\<close>

text \<open>\<open>accept\<close> is called until it returns 0 or a negative value; with no result left it would block.\<close>

fun accept_loop :: "int list \<Rightarrow> loop_state \<Rightarrow> (int list \<times> loop_state) option" where
  "accept_loop [] s = Some ([], s)"
| "accept_loop (newfd # rest) s =
     (if newfd = 0 then Some (rest, s)
      else if newfd < 0 then Some (rest, s)
      else do {
        S \<leftarrow> fd_add newfd (currentfds s);
        accept_loop rest (s\<lparr>currentfds := S, maxfd := (if newfd > maxfd s then newfd else maxfd s)\<rparr>)
      })"

text \<open>The two allocations are not tested: a NULL result is dereferenced.\<close>

definition submit_job :: "allocator \<Rightarrow> int \<Rightarrow> loop_state \<Rightarrow> loop_state option" where
  "submit_job A i s =
     (let arg = new_addr A (lcalls s); job = new_addr A (Suc (lcalls s))
      in if arg = 0 \<or> job = 0 then None
         else Some (s\<lparr>submitted := submitted s @ [(job, i)], currentfds := currentfds s - {i},
                      lcalls := lcalls s + 2\<rparr>))"

function scan_fds :: "allocator \<Rightarrow> int set \<Rightarrow> int \<Rightarrow> int \<Rightarrow> int list \<Rightarrow> loop_state \<Rightarrow> loop_state option" where
  "scan_fds A readyfds i desc_ready acc s =
     (if i \<le> maxfd s \<and> desc_ready > 0
      then if \<not> (0 \<le> i \<and> i < FD_SETSIZE) then None
        else if i \<in> readyfds
        then if i = listenfd s
          then case accept_loop acc s of
                 None \<Rightarrow> None
               | Some (acc', s') \<Rightarrow> scan_fds A readyfds (i + 1) (desc_ready - 1) acc' s'
          else case submit_job A i s of
                 None \<Rightarrow> None
               | Some s' \<Rightarrow> scan_fds A readyfds (i + 1) (desc_ready - 1) acc s'
        else scan_fds A readyfds (i + 1) desc_ready acc s
      else Some s)"
  by pat_completeness auto
termination
  by (relation "measures [\<lambda>(A, r, i, d, acc, s). nat d, \<lambda>(A, r, i, d, acc, s). nat (FD_SETSIZE - i)]") auto

declare scan_fds.simps [simp del]

text \<open>What the system returns in a round: the result of \<open>select\<close>, the ready set, the results of \<open>accept\<close>.\<close>

type_synonym round_input = "int \<times> int set \<times> int list"

definition loop_round :: "allocator \<Rightarrow> round_input \<Rightarrow> loop_state \<Rightarrow> loop_state outcome option" where
  "loop_round A input s =
     (case input of (rc, readyfds, acc) \<Rightarrow>
        if rc \<le> 0 then Some (Exited EXIT_FAILURE)
        else map_option Returned (scan_fds A readyfds 0 rc acc s))"

fun event_loop :: "allocator \<Rightarrow> round_input list \<Rightarrow> loop_state \<Rightarrow> loop_state outcome option" where
  "event_loop A [] s = Some (Returned s)"
| "event_loop A (r # rs) s =
     (case loop_round A r s of
        None \<Rightarrow> None
      | Some (Exited e) \<Rightarrow> Some (Exited e)
      | Some (Returned s') \<Rightarrow> event_loop A rs s')"

text \<open>
  Before the loop. \<open>open_listenfd\<close> may have returned -1, which is not tested.
\<close>

definition loop_init :: "int \<Rightarrow> bool \<Rightarrow> loop_state outcome option" where
  "loop_init fd pool_ok =
     (case fd_add fd {} of
        None \<Rightarrow> None
      | Some S \<Rightarrow>
          if \<not> pool_ok then Some (Exited EXIT_FAILURE)
          else Some (Returned \<lparr>listenfd = fd, currentfds = S, maxfd = fd, submitted = [], lcalls = 0\<rparr>))"

subsection \<open>What a round does\<close>

definition loop_ok :: "loop_state \<Rightarrow> bool" where
  "loop_ok s \<longleftrightarrow> currentfds s \<subseteq> {0..maxfd s} \<and> maxfd s < FD_SETSIZE \<and> listenfd s \<in> currentfds s"

lemma accept_loop_all:
  assumes "\<forall>fd\<in>set acc. 0 < fd \<and> fd < FD_SETSIZE" and "maxfd s < FD_SETSIZE"
  shows "\<exists>s'. accept_loop acc s = Some ([], s') \<and> currentfds s' = currentfds s \<union> set acc \<and>
    maxfd s \<le> maxfd s' \<and> (\<forall>fd\<in>set acc. fd \<le> maxfd s') \<and> maxfd s' < FD_SETSIZE \<and>
    listenfd s' = listenfd s \<and> submitted s' = submitted s"
  using assms
proof (induction acc arbitrary: s)
  case Nil
  then show ?case by simp
next
  case (Cons fd acc)
  let ?s = "s\<lparr>currentfds := insert fd (currentfds s), maxfd := (if fd > maxfd s then fd else maxfd s)\<rparr>"
  have "\<forall>fd\<in>set acc. 0 < fd \<and> fd < FD_SETSIZE" "maxfd ?s < FD_SETSIZE" using Cons.prems by simp_all
  then obtain s' where s': "accept_loop acc ?s = Some ([], s')" "currentfds s' = currentfds ?s \<union> set acc"
      "maxfd ?s \<le> maxfd s'" "\<forall>fd\<in>set acc. fd \<le> maxfd s'" "maxfd s' < FD_SETSIZE"
      "listenfd s' = listenfd ?s" "submitted s' = submitted ?s"
    using Cons.IH [of ?s] by blast
  have "accept_loop (fd # acc) s = Some ([], s')" using Cons.prems(1) s'(1) by (simp add: fd_add_def)
  moreover have "maxfd s \<le> maxfd s'" "fd \<le> maxfd s'" using s'(3) by (simp_all split: if_splits)
  ultimately show ?case using s'(2,4-7) by auto
qed

lemma submit_job_ok:
  assumes "alloc_ok A"
  shows "submit_job A i s = Some (s\<lparr>submitted := submitted s @ [(new_addr A (Suc (lcalls s)), i)],
    currentfds := currentfds s - {i}, lcalls := lcalls s + 2\<rparr>)"
proof -
  have "new_addr A (lcalls s) \<noteq> 0" "new_addr A (Suc (lcalls s)) \<noteq> 0" using assms by (simp_all add: alloc_ok_def)
  then show ?thesis by (simp only: submit_job_def Let_def simp_thms if_False)
qed

lemma sorted_from:
  fixes S :: "int set"
  assumes "finite S"
  shows "sorted_list_of_set (S \<inter> {i..}) =
    (if i \<in> S then i # sorted_list_of_set (S \<inter> {i + 1..}) else sorted_list_of_set (S \<inter> {i + 1..}))"
proof (cases "i \<in> S")
  case True
  then have "S \<inter> {i..} = insert i (S \<inter> {i + 1..})" by auto
  moreover have "insort i (sorted_list_of_set (S \<inter> {i + 1..})) = i # sorted_list_of_set (S \<inter> {i + 1..})"
    using assms by (intro insort_is_Cons) auto
  ultimately show ?thesis using True assms by (simp add: sorted_list_of_set_insert)
next
  case False
  then have "S \<inter> {i..} = S \<inter> {i + 1..}" by (auto simp: order_le_less)
  then show ?thesis using False by simp
qed

lemma card_from:
  fixes S :: "int set"
  assumes "finite S"
  shows "int (card (S \<inter> {i..})) = (if i \<in> S then 1 else 0) + int (card (S \<inter> {i + 1..}))"
proof -
  have "card (S \<inter> {i..}) = length (sorted_list_of_set (S \<inter> {i..}))"
    "card (S \<inter> {i + 1..}) = length (sorted_list_of_set (S \<inter> {i + 1..}))" by simp_all
  then show ?thesis using sorted_from [OF assms, of i] by simp
qed

text \<open>What one scan does to the state, from the descriptor \<open>i\<close> on, when the descriptors \<open>R\<close> are ready and \<open>acc\<close> can be accepted.\<close>

definition scanned :: "int set \<Rightarrow> int \<Rightarrow> int list \<Rightarrow> loop_state \<Rightarrow> loop_state \<Rightarrow> bool" where
  "scanned R i acc s s' \<longleftrightarrow>
     map snd (submitted s') = map snd (submitted s) @ sorted_list_of_set ((R - {listenfd s}) \<inter> {i..}) \<and>
     currentfds s' = (currentfds s - ((R - {listenfd s}) \<inter> {i..})) \<union> (if listenfd s \<in> R \<inter> {i..} then set acc else {}) \<and>
     maxfd s \<le> maxfd s' \<and> maxfd s' < FD_SETSIZE \<and> listenfd s' = listenfd s \<and>
     (listenfd s \<in> R \<inter> {i..} \<longrightarrow> (\<forall>fd\<in>set acc. fd \<le> maxfd s'))"

lemma scanned_none: "R \<inter> {i..} = {} \<Longrightarrow> maxfd s < FD_SETSIZE \<Longrightarrow> scanned R i acc s s"
proof -
  assume e: "R \<inter> {i..} = {}" "maxfd s < FD_SETSIZE"
  then have "(R - {listenfd s}) \<inter> {i..} = {}" by auto
  then show ?thesis using e by (simp add: scanned_def)
qed

lemma scanned_skip:
  assumes "i \<notin> R" and s: "scanned R (i + 1) acc s s'"
  shows "scanned R i acc s s'"
proof -
  have "R \<inter> {i..} = R \<inter> {i + 1..}" "(R - {listenfd s}) \<inter> {i..} = (R - {listenfd s}) \<inter> {i + 1..}"
    using assms(1) by (auto simp: order_le_less)
  then show ?thesis using s unfolding scanned_def by simp
qed

lemma scanned_accept:
  assumes i: "i \<in> R" "i = listenfd s" and dj: "set acc \<inter> R = {}"
    and t: "currentfds t = currentfds s \<union> set acc" "maxfd s \<le> maxfd t" "\<forall>fd\<in>set acc. fd \<le> maxfd t"
      "listenfd t = listenfd s" "submitted t = submitted s"
    and s: "scanned R (i + 1) [] t s'"
  shows "scanned R i acc s s'"
proof -
  let ?Q = "R - {listenfd s}"
  have Q: "?Q \<inter> {i..} = ?Q \<inter> {i + 1..}" using i by (auto simp: order_le_less)
  have "set acc \<inter> (?Q \<inter> {i + 1..}) = {}" using dj by auto
  then have "(currentfds s \<union> set acc) - (?Q \<inter> {i + 1..}) = (currentfds s - (?Q \<inter> {i + 1..})) \<union> set acc" by auto
  then show ?thesis using s t i unfolding scanned_def Q by auto
qed

lemma scanned_job:
  assumes i: "i \<in> R" "i \<noteq> listenfd s" and fin: "finite R" and dj: "set acc \<inter> R = {}"
    and s: "scanned R (i + 1) acc (s\<lparr>submitted := submitted s @ [(a, i)], currentfds := currentfds s - {i}, lcalls := n\<rparr>) s'"
  shows "scanned R i acc s s'"
proof -
  let ?Q = "R - {listenfd s}"
  have iQ: "i \<in> ?Q" using i by simp
  have srt: "sorted_list_of_set (?Q \<inter> {i..}) = i # sorted_list_of_set (?Q \<inter> {i + 1..})"
    using sorted_from [of ?Q i] fin iQ by simp
  have ins: "?Q \<inter> {i..} = insert i (?Q \<inter> {i + 1..})" using iQ by auto
  have lis: "listenfd s \<in> R \<inter> {i..} \<longleftrightarrow> listenfd s \<in> R \<inter> {i + 1..}" using i by auto
  have "i \<notin> set acc" using i dj by auto
  then have "currentfds s - {i} - (?Q \<inter> {i + 1..}) \<union> (if listenfd s \<in> R \<inter> {i + 1..} then set acc else {}) =
      currentfds s - (?Q \<inter> {i..}) \<union> (if listenfd s \<in> R \<inter> {i..} then set acc else {})"
    unfolding lis ins by auto
  then show ?thesis using s lis unfolding scanned_def srt by simp
qed

lemma scan_fds_round:
  assumes A: "alloc_ok A" and fin: "finite R"
    and "0 \<le> i" and "R \<inter> {i..} \<subseteq> {..maxfd s}" and "maxfd s < FD_SETSIZE"
    and "\<forall>fd\<in>set acc. 0 < fd \<and> fd < FD_SETSIZE" and "set acc \<inter> R = {}"
  shows "\<exists>s'. scan_fds A R i (int (card (R \<inter> {i..}))) acc s = Some s' \<and> scanned R i acc s s'"
  using assms(3-)
proof (induction "nat (FD_SETSIZE - i)" arbitrary: i acc s)
  case 0
  then have "R \<inter> {i..} = {}" by auto
  with 0 show ?case by (subst scan_fds.simps) (simp add: scanned_none)
next
  case (Suc n)
  let ?c = "int (card (R \<inter> {i..}))" and ?c1 = "int (card (R \<inter> {i + 1..}))"
  have n: "n = nat (FD_SETSIZE - (i + 1))" using Suc.hyps(2) by simp
  have sub1: "R \<inter> {i + 1..} \<subseteq> {..maxfd s}" using Suc.prems(2) by auto
  show ?case
  proof (cases "R \<inter> {i..} = {}")
    case True
    with Suc.prems(3) show ?thesis by (subst scan_fds.simps) (simp add: scanned_none)
  next
    case False
    then have pos: "0 < ?c" using fin by (simp add: card_gt_0_iff)
    have le: "i \<le> maxfd s" using False Suc.prems(2) by force
    have bound: "0 \<le> i \<and> i < FD_SETSIZE" using Suc.prems(1,3) le by simp
    consider "i \<notin> R" | "i \<in> R" "i = listenfd s" | "i \<in> R" "i \<noteq> listenfd s" by blast
    then show ?thesis
    proof cases
      case 1
      then have "scan_fds A R i ?c acc s = scan_fds A R (i + 1) ?c1 acc s"
        using card_from [OF fin, of i] le pos bound by (subst scan_fds.simps) simp
      then show ?thesis using Suc.hyps(1) [OF n, of s acc] Suc.prems sub1 scanned_skip [OF 1] by auto
    next
      case 2
      obtain t where t: "accept_loop acc s = Some ([], t)" "currentfds t = currentfds s \<union> set acc" "maxfd s \<le> maxfd t"
          "\<forall>fd\<in>set acc. fd \<le> maxfd t" "maxfd t < FD_SETSIZE" "listenfd t = listenfd s" "submitted t = submitted s"
        using accept_loop_all Suc.prems by blast
      have "scan_fds A R i ?c acc s = scan_fds A R (i + 1) ?c1 [] t"
        using 2 le pos bound t(1) card_from [OF fin, of i] by (subst scan_fds.simps) simp
      moreover have "R \<inter> {i + 1..} \<subseteq> {..maxfd t}" using sub1 t(3) by auto
      ultimately show ?thesis
        using Suc.hyps(1) [OF n, of t "[]"] Suc.prems t(5) scanned_accept [OF 2 Suc.prems(5) t(2-4,6,7)] by auto
    next
      case 3
      let ?t = "s\<lparr>submitted := submitted s @ [(new_addr A (Suc (lcalls s)), i)], currentfds := currentfds s - {i},
        lcalls := lcalls s + 2\<rparr>"
      have "scan_fds A R i ?c acc s = scan_fds A R (i + 1) ?c1 acc ?t"
        using 3 le pos bound card_from [OF fin, of i]
        by (subst scan_fds.simps) (simp add: submit_job_ok [OF A])
      then show ?thesis
        using Suc.hyps(1) [OF n, of ?t acc] Suc.prems sub1 scanned_job [OF 3 fin Suc.prems(5)] by auto
    qed
  qed
qed

subsection \<open>Properties\<close>

text \<open>C35. One round of the event loop, given a ready set that \<open>select\<close> took from the watched
  descriptors and its size: every ready connection becomes exactly one job, in the order of the descriptors, and is no
  longer watched; every accepted connection is watched from now on; nothing else changes.\<close>

theorem event_loop_round:
  assumes A: "alloc_ok A" and s: "loop_ok s" and R: "R \<subseteq> currentfds s" "R \<noteq> {}"
    and acc: "\<forall>fd\<in>set acc. 0 < fd \<and> fd < FD_SETSIZE" "set acc \<inter> R = {}"
  shows "\<exists>s'. loop_round A (int (card R), R, acc) s = Some (Returned s') \<and> loop_ok s' \<and>
    map snd (submitted s') = map snd (submitted s) @ sorted_list_of_set (R - {listenfd s}) \<and>
    currentfds s' = (currentfds s - (R - {listenfd s})) \<union> (if listenfd s \<in> R then set acc else {}) \<and>
    listenfd s' = listenfd s"
proof -
  have cur: "currentfds s \<subseteq> {0..maxfd s}" "maxfd s < FD_SETSIZE" "listenfd s \<in> currentfds s"
    using s by (simp_all add: loop_ok_def)
  have fin: "finite R" using R(1) cur(1) by (metis finite_atLeastAtMost_int finite_subset)
  have "{0..maxfd s} \<subseteq> {0..}" "{0..maxfd s} \<subseteq> {..maxfd s}" by auto
  then have sub: "R \<subseteq> {0..}" "R \<subseteq> {..maxfd s}" using R(1) cur(1) order_trans by metis+
  then have all: "R \<inter> {0..} = R" "(R - {listenfd s}) \<inter> {0..} = R - {listenfd s}" by blast+
  have "R \<inter> {0..} \<subseteq> {..maxfd s}" using sub(2) by blast
  then obtain s' where s': "scan_fds A R 0 (int (card R)) acc s = Some s'"
      "map snd (submitted s') = map snd (submitted s) @ sorted_list_of_set (R - {listenfd s})"
      "currentfds s' = (currentfds s - (R - {listenfd s})) \<union> (if listenfd s \<in> R then set acc else {})"
      "maxfd s \<le> maxfd s'" "maxfd s' < FD_SETSIZE" "listenfd s' = listenfd s"
      "listenfd s \<in> R \<longrightarrow> (\<forall>fd\<in>set acc. fd \<le> maxfd s')"
    using scan_fds_round [OF A fin order_refl _ cur(2) acc] unfolding all scanned_def by blast
  have "loop_ok s'"
    using s'(3-7) cur acc(1) by (auto simp: loop_ok_def)
  moreover have "0 < card R" using R(2) fin by (simp add: card_gt_0_iff)
  ultimately show ?thesis using s' by (simp add: loop_round_def)
qed

theorem event_loop_round_witness:
  "\<exists>s'. loop_round sample_alloc (2, {3, 5}, [6, 7])
      \<lparr>listenfd = 3, currentfds = {3, 4, 5}, maxfd = 5, submitted = [], lcalls = 0\<rparr> = Some (Returned s') \<and>
    map snd (submitted s') = [5] \<and> currentfds s' = {3, 4, 6, 7}"
proof -
  let ?s = "\<lparr>listenfd = 3, currentfds = {3, 4, 5}, maxfd = 5, submitted = [], lcalls = 0\<rparr>"
  have "loop_ok ?s" by (simp add: loop_ok_def FD_SETSIZE_def)
  moreover have "{3, 5 :: int} - {3} = {5}" "{3, 4, 5 :: int} - {5} = {3, 4}" by auto
  ultimately show ?thesis
    using event_loop_round [of sample_alloc ?s "{3, 5}" "[6, 7]"] sample_alloc_ok
    by (auto simp: FD_SETSIZE_def)
qed

text \<open>Failures the loop does not test for: a listening socket that could not be opened, and a connection
  whose descriptor is not below \<open>FD_SETSIZE\<close>, make it write outside the descriptor set.\<close>

theorem event_loop_unchecked:
  assumes "FD_SETSIZE \<le> fd"
  shows "accept_loop (fd # rest) s = None \<and> loop_init (-1) pool_ok = None"
  using assms by (simp add: loop_init_def fd_add_def FD_SETSIZE_def)

theorem event_loop_unchecked_witness:
  "accept_loop [1024] \<lparr>listenfd = 3, currentfds = {3}, maxfd = 3, submitted = [], lcalls = 0\<rparr> = None \<and>
    loop_init (-1) True = None"
  by (rule event_loop_unchecked) (simp add: FD_SETSIZE_def)

end
