(* ===== verification/Wire.thy ===== *)
theory Wire
  imports Index_Lists
begin

section \<open>The wire protocol (common.h, server.c, client1.c, client2.c)\<close>

text \<open>
  Packet headers and the two transfer loops of \<open>common.h\<close>. A socket is what the operating
  system will do on the calls to come: a list of events for \<open>read\<close>, one for \<open>write\<close>, and the bytes
  sent so far. The lemmas show that a header survives encoding, that
  \<open>recv_from_host\<close> delivers a byte stream whatever its segmentation, and that \<open>send_to_host\<close> sends
  every byte once and in order whatever the kernel accepts at a time. The interface of the
  receiving side is the locale \<open>byte_source\<close>.
\<close>

unbundle bit_operations_syntax

subsection \<open>Headers\<close>

definition HDR_LEN :: nat where "HDR_LEN = 8"
definition BUFSIZE :: nat where "BUFSIZE = 10240"

datatype MSG_TYPE = REQUEST | RESPONSE | ERROR

fun msg_code :: "MSG_TYPE \<Rightarrow> 32 word" where
  "msg_code REQUEST = 0x10"
| "msg_code RESPONSE = 0x11"
| "msg_code ERROR = 0x20"

record struct_Hdr =
  tot_len :: "32 word"
  msg_type :: "32 word"

text \<open>
  A \<open>uint32_t\<close> in memory is little-endian on the target; \<open>htonl\<close> and \<open>ntohl\<close> swap the bytes.
\<close>

definition byte_of :: "nat \<Rightarrow> 32 word \<Rightarrow> 8 word" where
  "byte_of i x = ucast (drop_bit (8 * i) x)"

definition le_bytes :: "32 word \<Rightarrow> bytes" where
  "le_bytes x = [byte_of 0 x, byte_of 1 x, byte_of 2 x, byte_of 3 x]"

definition le_word :: "byte \<Rightarrow> byte \<Rightarrow> byte \<Rightarrow> byte \<Rightarrow> 32 word" where
  "le_word a b c d = ucast a OR push_bit 8 (ucast b) OR push_bit 16 (ucast c) OR push_bit 24 (ucast d)"

definition htonl :: "32 word \<Rightarrow> 32 word" where
  "htonl x = le_word (byte_of 3 x) (byte_of 2 x) (byte_of 1 x) (byte_of 0 x)"

definition ntohl :: "32 word \<Rightarrow> 32 word" where
  "ntohl x = le_word (byte_of 3 x) (byte_of 2 x) (byte_of 1 x) (byte_of 0 x)"

definition hdr_bytes :: "struct_Hdr \<Rightarrow> bytes" where
  "hdr_bytes H = le_bytes (tot_len H) @ le_bytes (msg_type H)"

text \<open>\<open>(struct Hdr *)buf\<close>: the fields are read from the first bytes of the buffer.\<close>

definition read_word :: "bytes \<Rightarrow> nat \<Rightarrow> 32 word option" where
  "read_word buf i = do {
     a \<leftarrow> rd buf i; b \<leftarrow> rd buf (i + 1); c \<leftarrow> rd buf (i + 2); d \<leftarrow> rd buf (i + 3);
     Some (le_word a b c d)
   }"

definition read_hdr :: "bytes \<Rightarrow> struct_Hdr option" where
  "read_hdr buf = do {
     t \<leftarrow> read_word buf 0; m \<leftarrow> read_word buf 4;
     Some \<lparr>tot_len = t, msg_type = m\<rparr>
   }"

text \<open>\<open>create_pckt\<close>: \<open>len\<close> is a \<open>size_t\<close> cut to 32 bits by \<open>htonl\<close>.\<close>

definition create_pckt :: "allocator \<Rightarrow> heap \<Rightarrow> nat \<Rightarrow> 32 word \<Rightarrow> struct_Hdr option \<times> heap" where
  "create_pckt A h len msg_t =
     (if new_addr A (calls h) = 0 then (None, h\<lparr>calls := calls h + 1\<rparr>)
      else (Some \<lparr>tot_len = htonl (of_nat (len + HDR_LEN)), msg_type = htonl msg_t\<rparr>,
            h\<lparr>calls := calls h + 1\<rparr>))"

lemma byte_of_le_word:
  "byte_of 0 (le_word a b c d) = a" "byte_of 1 (le_word a b c d) = b"
  "byte_of 2 (le_word a b c d) = c" "byte_of 3 (le_word a b c d) = d"
proof -
  have "byte_of i (le_word a b c d) = [a, b, c, d] ! i" if "i < 4" for i
  proof (rule bit_word_eqI)
    fix n assume n: "n < LENGTH(8)"
    from that consider "i = 0" | "i = 1" | "i = 2" | "i = 3" by linarith
    then show "bit (byte_of i (le_word a b c d)) n = bit ([a, b, c, d] ! i) n"
      using n unfolding le_word_def byte_of_def
      by cases (auto simp: bit_simps dest: bit_imp_le_length)
  qed
  from this [of 0] this [of 1] this [of 2] this [of 3]
  show "byte_of 0 (le_word a b c d) = a" "byte_of 1 (le_word a b c d) = b"
    "byte_of 2 (le_word a b c d) = c" "byte_of 3 (le_word a b c d) = d"
    by (simp_all add: eval_nat_numeral)
qed

lemmas byte_of_simps = byte_of_le_word byte_of_le_word(2) [unfolded One_nat_def]

lemma le_word_byte_of: "le_word (byte_of 0 x) (byte_of 1 x) (byte_of 2 x) (byte_of 3 x) = x"
proof (rule bit_word_eqI)
  fix n assume n: "n < LENGTH(32)"
  consider "n < 8" | "8 \<le> n" "n < 16" | "16 \<le> n" "n < 24" | "24 \<le> n" by linarith
  then show "bit (le_word (byte_of 0 x) (byte_of 1 x) (byte_of 2 x) (byte_of 3 x)) n = bit x n"
    using n unfolding le_word_def byte_of_def
    by cases (auto simp: bit_simps)
qed

lemma htonl_twice [simp]: "ntohl (htonl x) = x" "htonl (ntohl x) = x"
  by (simp_all only: htonl_def ntohl_def byte_of_simps le_word_byte_of)

lemma htonl_inj [simp]: "htonl x = htonl y \<longleftrightarrow> x = y"
  by (metis htonl_twice(1))

lemma length_hdr_bytes [simp]: "length (hdr_bytes H) = HDR_LEN"
  by (simp add: hdr_bytes_def le_bytes_def HDR_LEN_def)

text \<open>The header on the wire is big-endian, and reading it back gives the same header.\<close>

lemma hdr_bytes_big_endian:
  "hdr_bytes \<lparr>tot_len = htonl t, msg_type = htonl m\<rparr> =
    [byte_of 3 t, byte_of 2 t, byte_of 1 t, byte_of 0 t, byte_of 3 m, byte_of 2 m, byte_of 1 m, byte_of 0 m]"
  by (simp add: hdr_bytes_def le_bytes_def htonl_def byte_of_simps)

lemma read_hdr_bytes: "read_hdr (hdr_bytes H @ r) = Some H"
proof -
  have "read_word (x # y # z # w # xs) 0 = Some (le_word x y z w)"
    "read_word (a # b # c # d # x # y # z # w # xs) 4 = Some (le_word x y z w)"
    for a b c d x y z w and xs :: bytes
    by (simp_all add: read_word_def rd_def)
  then show ?thesis
    by (simp only: read_hdr_def hdr_bytes_def le_bytes_def append.simps le_word_byte_of Option.bind.simps)
      simp
qed

subsection \<open>recv_from_host and send_to_host\<close>

text \<open>
  What the next calls of \<open>read\<close> on a socket find: bytes that have arrived, or an error. With no
  event left the peer has closed the connection and \<open>read\<close> returns 0. For \<open>write\<close>: how many
  bytes the kernel takes, or an error; with no event left it takes everything.
\<close>

datatype rd_event = Data bytes | Read_error
datatype wr_event = Accept nat | Write_error

fun sys_read :: "rd_event list \<Rightarrow> nat \<Rightarrow> int \<times> bytes \<times> rd_event list" where
  "sys_read [] n = (0, [], [])"
| "sys_read (Read_error # es) n = (-1, [], es)"
| "sys_read (Data s # es) n =
     (if length s \<le> n then (int (length s), s, es) else (int n, take n s, Data (drop n s) # es))"

fun sys_write :: "wr_event list \<Rightarrow> nat \<Rightarrow> int \<times> wr_event list" where
  "sys_write [] n = (int n, [])"
| "sys_write (Write_error # es) n = (-1, es)"
| "sys_write (Accept k # es) n = (int (min k n), es)"

text \<open>\<open>read\<close> stores what it got at \<open>buf + rd\<close>; it must fit in the object.\<close>

definition wr_block :: "bytes \<Rightarrow> nat \<Rightarrow> bytes \<Rightarrow> bytes option" where
  "wr_block buf p s =
     (if p + length s \<le> length buf then Some (take p buf @ s @ drop (p + length s) buf) else None)"

function recv_loop :: "bytes \<Rightarrow> nat \<Rightarrow> nat \<Rightarrow> rd_event list \<Rightarrow> (int \<times> bytes \<times> rd_event list) option" where
  "recv_loop buf p rem es =
     (if 0 < rem
      then case sys_read es rem of (tmp, s, es') \<Rightarrow>
             (case wr_block buf p s of
                None \<Rightarrow> None
              | Some buf' \<Rightarrow>
                  if tmp < 0 then Some (tmp, buf', es')
                  else if tmp = 0 then Some (int p, buf', es')
                  else recv_loop buf' (p + nat tmp) (rem - nat tmp) es')
      else Some (int p, buf, es))"
  by pat_completeness auto
termination
  by (relation "measure (\<lambda>(buf, p, rem, es). rem)") auto

definition recv_from_host :: "bytes \<Rightarrow> nat \<Rightarrow> rd_event list \<Rightarrow> (int \<times> bytes \<times> rd_event list) option" where
  "recv_from_host buf len es = recv_loop buf 0 len es"

text \<open>The third component of a result is what went out.\<close>

function send_loop :: "bytes \<Rightarrow> nat \<Rightarrow> nat \<Rightarrow> wr_event list \<Rightarrow> bytes \<Rightarrow> (int \<times> wr_event list \<times> bytes) option" where
  "send_loop buf sent rem es out =
     (if 0 < rem
      then if length buf < sent + rem then None
           else case sys_write es rem of (tmp, es') \<Rightarrow>
             (if tmp < 0 then Some (tmp, es', out)
              else send_loop buf (sent + nat tmp) (rem - nat tmp) es' (out @ take (nat tmp) (drop sent buf)))
      else Some (int sent, es, out))"
  by pat_completeness auto
termination
proof (relation "measures [\<lambda>(buf, sent, rem, es, out). length es + rem]", simp, clarsimp)
  fix rem tmp :: nat and es es' :: "wr_event list" and t
  assume "0 < rem" "(t, es') = sys_write es rem" "\<not> t < 0"
  then show "length es' + (rem - nat t) < length es + rem"
    by (induction es rem rule: sys_write.induct) auto
qed

definition send_to_host :: "bytes \<Rightarrow> nat \<Rightarrow> wr_event list \<Rightarrow> bytes \<Rightarrow> (int \<times> wr_event list \<times> bytes) option" where
  "send_to_host buf len es out = send_loop buf 0 len es out"

declare recv_loop.simps [simp del] send_loop.simps [simp del]

text \<open>
  A connection that delivers: no error is pending and no segment is empty. Its contents are the bytes still
  to be read.
\<close>

fun seg_ok :: "rd_event \<Rightarrow> bool" where
  "seg_ok (Data s) \<longleftrightarrow> s \<noteq> []"
| "seg_ok Read_error \<longleftrightarrow> False"

fun seg_bytes :: "rd_event \<Rightarrow> bytes" where
  "seg_bytes (Data s) = s"
| "seg_bytes Read_error = []"

definition delivers :: "rd_event list \<Rightarrow> bytes \<Rightarrow> bool" where
  "delivers es s \<longleftrightarrow> (\<forall>e\<in>set es. seg_ok e) \<and> concat (map seg_bytes es) = s"

lemma wr_block_Some:
  "p + length s \<le> length buf \<Longrightarrow> wr_block buf p s = Some (take p buf @ s @ drop (p + length s) buf)"
  by (simp add: wr_block_def)

lemma sys_read_delivers:
  assumes "delivers es s" and "0 < n" and "s \<noteq> []"
  shows "\<exists>k es'. sys_read es n = (int k, take k s, es') \<and> 0 < k \<and> k \<le> n \<and> k \<le> length s \<and>
    delivers es' (drop k s)"
proof -
  obtain e es1 where es: "es = e # es1" using assms(1,3) by (cases es) (auto simp: delivers_def)
  then obtain t where t: "e = Data t" "t \<noteq> []"
    using assms(1) by (cases e) (auto simp: delivers_def)
  have s: "s = t @ concat (map seg_bytes es1)" using assms(1) es t by (simp add: delivers_def)
  show ?thesis
  proof (cases "length t \<le> n")
    case True
    then show ?thesis
      using assms(1) es t s by (intro exI [of _ "length t"] exI [of _ es1]) (simp add: delivers_def)
  next
    case False
    then show ?thesis
      using assms(1,2) es t s
      by (intro exI [of _ n] exI [of _ "Data (drop n t) # es1"]) (simp add: delivers_def)
  qed
qed

text \<open>Storing two pieces one after the other.\<close>

lemma block_append:
  assumes "k \<le> length s" and "p + k + j \<le> length buf"
  defines "buf' \<equiv> take p buf @ take k s @ drop (p + k) buf"
  shows "take (p + k) buf' @ take j (drop k s) @ drop (p + k + j) buf' =
    take p buf @ take (k + j) s @ drop (p + k + j) buf"
proof -
  have "take (p + k) buf' = take p buf @ take k s" "drop (p + k + j) buf' = drop (p + k + j) buf"
    using assms(1,2) by (simp_all add: buf'_def ac_simps)
  then show ?thesis by (simp only: take_add append_assoc)
qed

lemma recv_loop_delivers:
  assumes "delivers es s" and "rem \<le> length s" and "p + rem \<le> length buf"
  shows "\<exists>es'. recv_loop buf p rem es =
    Some (int (p + rem), take p buf @ take rem s @ drop (p + rem) buf, es') \<and> delivers es' (drop rem s)"
  using assms
proof (induction rem arbitrary: buf p es s rule: less_induct)
  case (less rem)
  show ?case
  proof (cases "rem = 0")
    case True
    then show ?thesis using less.prems by (subst recv_loop.simps) auto
  next
    case False
    then have "s \<noteq> []" using less.prems(2) by auto
    then obtain k es1 where k: "sys_read es rem = (int k, take k s, es1)" "0 < k" "k \<le> rem" "k \<le> length s"
        "delivers es1 (drop k s)"
      using sys_read_delivers [OF less.prems(1)] False by blast
    let ?buf = "take p buf @ take k s @ drop (p + k) buf"
    have "recv_loop buf p rem es = recv_loop ?buf (p + k) (rem - k) es1"
      using False k less.prems(3) by (subst recv_loop.simps) (simp add: wr_block_def)
    moreover obtain es' where "recv_loop ?buf (p + k) (rem - k) es1 =
        Some (int (p + k + (rem - k)), take (p + k) ?buf @ take (rem - k) (drop k s) @ drop (p + k + (rem - k)) ?buf, es')"
        "delivers es' (drop (rem - k) (drop k s))"
    proof -
      have "rem - k \<le> length (drop k s)" using less.prems(2) by (simp add: diff_le_mono)
      moreover have "rem - k < rem" using k(2) False by simp
      moreover have "p + k + (rem - k) \<le> length ?buf" using k(3,4) less.prems(3) by simp
      ultimately show thesis using less.IH [of "rem - k" es1 "drop k s" "p + k" ?buf] k(5) that by blast
    qed
    moreover have "take (p + k) ?buf @ take (rem - k) (drop k s) @ drop (p + k + (rem - k)) ?buf =
        take p buf @ take rem s @ drop (p + rem) buf"
      using block_append [of k s p "rem - k" buf] k(3,4) less.prems(3) by simp
    moreover have "p + k + (rem - k) = p + rem" "drop (rem - k) (drop k s) = drop rem s"
      using k(3) by simp_all
    ultimately show ?thesis by metis
  qed
qed

lemma recv_from_host_delivers:
  assumes "delivers es s" and "n \<le> length s" and "n \<le> length buf"
  shows "\<exists>es'. recv_from_host buf n es = Some (int n, take n s @ drop n buf, es') \<and> delivers es' (drop n s)"
  using recv_loop_delivers [OF assms(1,2), of 0 buf] assms(3) by (simp add: recv_from_host_def)

text \<open>A peer that closes early: what has come is in the buffer, and its length is returned.\<close>

lemma recv_loop_short:
  assumes "delivers es s" and "length s < rem" and "p + rem \<le> length buf"
  shows "recv_loop buf p rem es =
    Some (int (p + length s), take p buf @ s @ drop (p + length s) buf, [])"
  using assms
proof (induction rem arbitrary: buf p es s rule: less_induct)
  case (less rem)
  show ?case
  proof (cases "s = []")
    case True
    then have "es = []" using less.prems(1) by (cases es) (auto simp: delivers_def elim: seg_ok.elims)
    with True less.prems show ?thesis by (subst recv_loop.simps) (simp add: wr_block_def)
  next
    case False
    obtain k es1 where k: "sys_read es rem = (int k, take k s, es1)" "0 < k" "k \<le> rem" "k \<le> length s"
        "delivers es1 (drop k s)"
      using sys_read_delivers [OF less.prems(1) _ False, of rem] less.prems(2) by auto
    let ?buf = "take p buf @ take k s @ drop (p + k) buf"
    have "recv_loop buf p rem es = recv_loop ?buf (p + k) (rem - k) es1"
      using k less.prems(2,3) by (subst recv_loop.simps) (simp add: wr_block_def)
    moreover have "recv_loop ?buf (p + k) (rem - k) es1 =
        Some (int (p + k + length (drop k s)), take (p + k) ?buf @ drop k s @ drop (p + k + length (drop k s)) ?buf, [])"
      using k less.prems by (intro less.IH) auto
    moreover have "take (p + k) ?buf @ drop k s @ drop (p + k + length (drop k s)) ?buf =
        take p buf @ s @ drop (p + length s) buf"
      using block_append [of k s p "length (drop k s)" buf] k(4) less.prems(2,3) by simp
    moreover have "p + k + length (drop k s) = p + length s" using k(4) by simp
    ultimately show ?thesis by metis
  qed
qed

text \<open>More bytes than the buffer holds: the loop stores past its end.\<close>

lemma recv_loop_overflow:
  assumes "delivers es s" and "rem \<le> length s" and "length buf < p + rem" and "p \<le> length buf"
  shows "recv_loop buf p rem es = None"
  using assms
proof (induction rem arbitrary: buf p es s rule: less_induct)
  case (less rem)
  then have "0 < rem" "s \<noteq> []" by auto
  then obtain k es1 where k: "sys_read es rem = (int k, take k s, es1)" "0 < k" "k \<le> rem" "k \<le> length s"
      "delivers es1 (drop k s)"
    using sys_read_delivers [OF less.prems(1)] by blast
  show ?case
  proof (cases "p + k \<le> length buf")
    case False
    then show ?thesis using \<open>0 < rem\<close> k by (subst recv_loop.simps) (simp add: wr_block_def)
  next
    case True
    let ?buf = "take p buf @ take k s @ drop (p + k) buf"
    have "recv_loop buf p rem es = recv_loop ?buf (p + k) (rem - k) es1"
      using \<open>0 < rem\<close> k True by (subst recv_loop.simps) (simp add: wr_block_def)
    also have "\<dots> = None" using k True less.prems by (intro less.IH [where s = "drop k s"]) auto
    finally show ?thesis .
  qed
qed

text \<open>Sending: with no error pending, all of the bytes go out, in order.\<close>

lemma send_loop_all:
  assumes "Write_error \<notin> set es" and "sent + rem \<le> length buf"
  shows "\<exists>es'. send_loop buf sent rem es out = Some (int (sent + rem), es', out @ take rem (drop sent buf)) \<and>
    Write_error \<notin> set es'"
  using assms
proof (induction buf sent rem es out rule: send_loop.induct)
  case (1 buf sent rem es out)
  show ?case
  proof (cases "rem = 0")
    case True
    with 1(2) show ?thesis by (subst send_loop.simps) simp
  next
    case False
    obtain k es1 where k: "sys_write es rem = (int k, es1)" "k \<le> rem" "Write_error \<notin> set es1"
    proof (cases es)
      case Nil
      then show ?thesis using that [of rem "[]"] by simp
    next
      case (Cons e es1)
      then show ?thesis using that 1(2) by (cases e) auto
    qed
    have "take k (drop sent buf) @ take (rem - k) (drop (sent + k) buf) = take rem (drop sent buf)"
      using k(2) take_add [of k "rem - k" "drop sent buf"] by (simp add: add.commute)
    moreover have "send_loop buf sent rem es out = send_loop buf (sent + k) (rem - k) es1 (out @ take k (drop sent buf))"
      using False k 1(3) by (subst send_loop.simps) simp
    ultimately show ?thesis
      using "1.IH" [OF _ _ k(1) [symmetric]] False k 1(3) by auto
  qed
qed

lemma send_to_host_all:
  assumes "Write_error \<notin> set es" and "n \<le> length buf"
  shows "\<exists>es'. send_to_host buf n es out = Some (int n, es', out @ take n buf) \<and> Write_error \<notin> set es'"
  using send_loop_all [OF assms(1), of 0 n buf out] assms(2) by (simp add: send_to_host_def)

subsection \<open>A source of bytes as an interface\<close>

text \<open>
  What the two programs that receive packets rely on: a call that asks for \<open>n\<close> of the
  pending bytes stores exactly those at the start of the buffer.
\<close>

locale byte_source =
  fixes get :: "bytes \<Rightarrow> nat \<Rightarrow> 'c \<Rightarrow> (int \<times> bytes \<times> 'c) option"
    and pending :: "'c \<Rightarrow> bytes \<Rightarrow> bool"
  assumes get_ok: "\<lbrakk>pending c s; n \<le> length s; n \<le> length buf\<rbrakk> \<Longrightarrow>
    \<exists>c'. get buf n c = Some (int n, take n s @ drop n buf, c') \<and> pending c' (drop n s)"
begin

text \<open>A header and then its payload, received into the same buffer.\<close>

lemma get_packet:
  assumes "pending c (hdr_bytes H @ w @ rest)" and "HDR_LEN \<le> length buf" and "length w \<le> length buf"
  shows "\<exists>b1 c1 b2 c2. get buf HDR_LEN c = Some (int HDR_LEN, b1, c1) \<and> read_hdr b1 = Some H \<and>
    get b1 (length w) c1 = Some (int (length w), w @ b2, c2) \<and> length (w @ b2) = length buf \<and>
    pending c2 rest"
proof -
  obtain c1 where c1: "get buf HDR_LEN c = Some (int HDR_LEN, hdr_bytes H @ drop HDR_LEN buf, c1)" "pending c1 (w @ rest)"
    using get_ok [OF assms(1), of HDR_LEN buf] assms(2) by auto
  have "length (hdr_bytes H @ drop HDR_LEN buf) = length buf" using assms(2) by simp
  then obtain c2 where "get (hdr_bytes H @ drop HDR_LEN buf) (length w) c1 =
      Some (int (length w), w @ drop (length w) (hdr_bytes H @ drop HDR_LEN buf), c2)" "pending c2 rest"
    using get_ok [OF c1(2), of "length w" "hdr_bytes H @ drop HDR_LEN buf"] assms(3) by auto
  moreover have "length (w @ drop (length w) (hdr_bytes H @ drop HDR_LEN buf)) = length buf"
    using assms(2,3) by simp
  ultimately show ?thesis using c1(1) read_hdr_bytes by blast
qed

end

interpretation sock: byte_source recv_from_host delivers
  by unfold_locales (rule recv_from_host_delivers)

subsection \<open>Lengths\<close>

text \<open>
  \<open>int len = ntohl(header->tot_len) - HDR_LEN\<close>: the subtraction is on unsigned 32-bit
  values, the result is read as signed, and \<open>recv_from_host\<close> takes it as a \<open>size_t\<close>.
\<close>

definition payload_len :: "struct_Hdr \<Rightarrow> int" where
  "payload_len H = sint (ntohl (tot_len H) - 8)"

definition to_size :: "int \<Rightarrow> nat" where
  "to_size i = nat (i mod 2 ^ 64)"

lemma payload_len_pckt:
  assumes "n < 2 ^ 31"
  shows "payload_len \<lparr>tot_len = htonl (of_nat (n + HDR_LEN)), msg_type = m\<rparr> = int n"
    and "to_size (int n) = n"
proof -
  have "(of_nat (n + HDR_LEN) - 8 :: 32 word) = of_nat n" by (simp add: HDR_LEN_def)
  then show "payload_len \<lparr>tot_len = htonl (of_nat (n + HDR_LEN)), msg_type = m\<rparr> = int n"
    using assms by (simp add: payload_len_def signed_of_nat signed_take_bit_int_eq_self)
  show "to_size (int n) = n" using assms by (simp add: to_size_def)
qed

subsection \<open>Properties\<close>

text \<open>C34. A header built by \<open>create_pckt\<close> is big-endian on the wire, and the receiver reads back the same type and
  the same payload length, for payloads below 2 GB.\<close>

theorem packet_header_roundtrip:
  assumes "new_addr A (calls h) \<noteq> 0" and "n < 2 ^ 31"
  shows "\<exists>H h'. create_pckt A h n m = (Some H, h') \<and>
    hdr_bytes H = map (\<lambda>i. byte_of i (of_nat (n + HDR_LEN))) [3, 2, 1, 0] @ map (\<lambda>i. byte_of i m) [3, 2, 1, 0] \<and>
    (\<forall>r. read_hdr (hdr_bytes H @ r) = Some H) \<and> ntohl (msg_type H) = m \<and> to_size (payload_len H) = n"
proof -
  let ?H = "\<lparr>tot_len = htonl (of_nat (n + HDR_LEN)), msg_type = htonl m\<rparr>"
  have "to_size (payload_len ?H) = n" using payload_len_pckt [OF assms(2)] by (simp only:)
  moreover have "hdr_bytes ?H = map (\<lambda>i. byte_of i (of_nat (n + HDR_LEN))) [3, 2, 1, 0] @ map (\<lambda>i. byte_of i m) [3, 2, 1, 0]"
    by (simp only: hdr_bytes_big_endian list.map append.simps)
  moreover have "ntohl (msg_type ?H) = m" by simp
  ultimately show ?thesis using assms(1) read_hdr_bytes unfolding create_pckt_def by (metis if_not_P)
qed

theorem packet_header_roundtrip_witness:
  "\<exists>H h'. create_pckt sample_alloc sample_chain 300 0x10 = (Some H, h') \<and> hdr_bytes H = [0, 0, 1, 52, 0, 0, 0, 16]"
  using packet_header_roundtrip [of sample_alloc sample_chain 300 "0x10"]
  by (auto simp: sample_alloc_def byte_of_def HDR_LEN_def)

text \<open>C32. What \<open>recv_from_host\<close> stores does not depend on how the network cuts the stream: two connections that deliver the same
  bytes leave the same buffer, with exactly the bytes asked for.\<close>

theorem recv_any_segmentation:
  assumes "delivers es s" and "delivers fs s" and "n \<le> length s" and "n \<le> length buf"
  shows "\<exists>b es' fs'. recv_from_host buf n es = Some (int n, b, es') \<and> recv_from_host buf n fs = Some (int n, b, fs') \<and>
    b = take n s @ drop n buf \<and> delivers es' (drop n s) \<and> delivers fs' (drop n s)"
  using recv_from_host_delivers [OF assms(1,3,4)] recv_from_host_delivers [OF assms(2,3,4)] by blast

theorem recv_any_segmentation_witness:
  "\<exists>b es' fs'. recv_from_host [0, 0, 0, 0] 3 [Data [1], Data [2, 3, 4]] = Some (3, b, es') \<and>
    recv_from_host [0, 0, 0, 0] 3 [Data [1, 2, 3, 4]] = Some (3, b, fs') \<and> b = [1, 2, 3, 0]"
  using recv_any_segmentation [of "[Data [1], Data [2, 3, 4]]" "[1, 2, 3, 4]" "[Data [1, 2, 3, 4]]" 3 "[0, 0, 0, 0]"]
  by (auto simp: delivers_def)

text \<open>A peer that closes before all bytes have come: \<open>recv_from_host\<close> ends, returns how many came, and has stored
  those and no others.\<close>

theorem recv_early_close:
  assumes "delivers es s" and "length s < n" and "n \<le> length buf"
  shows "recv_from_host buf n es = Some (int (length s), s @ drop (length s) buf, [])"
  using recv_loop_short [OF assms(1,2), of 0 buf] assms(3) by (simp add: recv_from_host_def)

theorem recv_early_close_witness:
  "recv_from_host [0, 0, 0, 0] 3 [Data [1], Data [2]] = Some (2, [1, 2, 0, 0], [])"
  using recv_early_close [of "[Data [1], Data [2]]" "[1, 2]" 3 "[0, 0, 0, 0]"] by (simp add: delivers_def)

text \<open>C33. \<open>send_to_host\<close> sends every byte once and in order, however few the kernel takes at a time.\<close>

theorem send_any_partial_writes:
  assumes "Write_error \<notin> set es" and "n \<le> length buf"
  shows "\<exists>es'. send_to_host buf n es out = Some (int n, es', out @ take n buf)"
  using send_to_host_all [OF assms, of out] by blast

theorem send_any_partial_writes_witness:
  "\<exists>es'. send_to_host [1, 2, 3, 4] 3 [Accept 1, Accept 0, Accept 1] [9] = Some (3, es', [9, 1, 2, 3])"
  using send_any_partial_writes [of "[Accept 1, Accept 0, Accept 1]" 3 "[1, 2, 3, 4]" "[9]"] by simp

end
