(* ===== verification/Sockets.thy ===== *)
theory Sockets
  imports Event_Loop Wire
begin

section \<open>Opening sockets (common.h, client1.c, client2.c)\<close>

text \<open>
  \<open>open_listenfd\<close> and \<open>open_clientfd\<close> of \<open>common.h\<close>, and the socket addresses that the clients build. The system is a
  record of the descriptors that are open and of what was set on them; the results of the system calls and of
  the name service are parameters. The lemmas show that a descriptor is returned only with every
  step done to it, that on a failed step it is closed again, and what the server then does with a result of -1.
\<close>

unbundle bit_operations_syntax

subsection \<open>Addresses\<close>

definition INADDR_ANY :: "32 word" where "INADDR_ANY = 0"
definition AF_INET :: "16 word" where "AF_INET = 2"
definition BACKLOG :: nat where "BACKLOG = 1024"

definition htons :: "16 word \<Rightarrow> 16 word" where
  "htons x = push_bit 8 x OR drop_bit 8 x"

record struct_sockaddr_in =
  sin_family :: "16 word"
  sin_port :: "16 word"
  sin_addr :: bytes
  sin_zero :: bytes

definition zero_sockaddr :: struct_sockaddr_in where
  "zero_sockaddr = \<lparr>sin_family = 0, sin_port = 0, sin_addr = replicate 4 0, sin_zero = replicate 8 0\<rparr>"

text \<open>
  \<open>inet_pton\<close> yields the four bytes of a dotted address, or nothing; \<open>gethostbyname\<close> yields the bytes of the first
  address of a host.
\<close>

record resolver =
  inet_pton :: "bytes \<Rightarrow> bytes option"
  gethostbyname :: "bytes \<Rightarrow> bytes option"

definition resolver_ok :: "resolver \<Rightarrow> bool" where
  "resolver_ok r \<longleftrightarrow> (\<forall>s a. inet_pton r s = Some a \<or> gethostbyname r s = Some a \<longrightarrow> length a = 4)"

text \<open>\<open>bcopy\<close> to \<open>sin_addr\<close>: what does not fit there runs into \<open>sin_zero\<close>, and then past the structure.\<close>

definition copy_addr :: "bytes \<Rightarrow> struct_sockaddr_in \<Rightarrow> struct_sockaddr_in option" where
  "copy_addr a s = map_option (\<lambda>b. s\<lparr>sin_addr := take 4 b, sin_zero := drop 4 b\<rparr>) (wr_block (sin_addr s @ sin_zero s) 0 a)"

subsection \<open>Descriptors\<close>

record net =
  open_fds :: "int set"
  nonblocking :: "int set"
  bound :: "int \<Rightarrow> struct_sockaddr_in option"
  backlog :: "int \<Rightarrow> nat option"
  peer :: "int \<Rightarrow> struct_sockaddr_in option"

definition close_fd :: "int \<Rightarrow> net \<Rightarrow> net" where
  "close_fd fd n = n\<lparr>open_fds := open_fds n - {fd}, nonblocking := nonblocking n - {fd}, bound := (bound n)(fd := None),
     backlog := (backlog n)(fd := None), peer := (peer n)(fd := None)\<rparr>"

text \<open>\<open>socket\<close> either fails or returns a descriptor that is not open.\<close>

definition open_socket :: "int \<Rightarrow> net \<Rightarrow> net" where
  "open_socket fd n = (close_fd fd n)\<lparr>open_fds := insert fd (open_fds n)\<rparr>"

definition unused_fd :: "int \<Rightarrow> net \<Rightarrow> bool" where
  "unused_fd fd n \<longleftrightarrow> fd \<notin> open_fds n \<and> fd \<notin> nonblocking n \<and> bound n fd = None \<and> backlog n fd = None \<and> peer n fd = None"

text \<open>The results of the calls that \<open>open_listenfd\<close> makes.\<close>

record listen_calls =
  r_socket :: int
  r_setsockopt :: int
  r_ioctl :: int
  r_bind :: int
  r_listen :: int

definition open_listenfd :: "listen_calls \<Rightarrow> int \<Rightarrow> net \<Rightarrow> int outcome \<times> net" where
  "open_listenfd r port n =
     (if r_socket r < 0 then (Returned (-1), n)
      else
        let fd = r_socket r; n1 = open_socket fd n
        in if r_setsockopt r < 0 then (Returned (-1), close_fd fd n1)
           else if r_ioctl r < 0 then (Exited (-1), close_fd fd n1)
           else
             let n2 = n1\<lparr>nonblocking := insert fd (nonblocking n1)\<rparr>;
                 serveraddr = zero_sockaddr\<lparr>sin_family := AF_INET, sin_port := htons (of_int port),
                   sin_addr := le_bytes (htonl INADDR_ANY)\<rparr>
             in if r_bind r < 0 then (Returned (-1), close_fd fd n2)
                else
                  let n3 = n2\<lparr>bound := (bound n2)(fd \<mapsto> serveraddr)\<rparr>
                  in if r_listen r < 0 then (Returned (-1), close_fd fd n3)
                     else (Returned fd, n3\<lparr>backlog := (backlog n3)(fd \<mapsto> BACKLOG)\<rparr>))"

definition open_clientfd :: "resolver \<Rightarrow> int \<Rightarrow> int \<Rightarrow> bytes \<Rightarrow> int \<Rightarrow> net \<Rightarrow> (int \<times> net) option" where
  "open_clientfd res r_sock r_connect hostname port n =
     (if r_sock < 0 then Some (-1, n)
      else do {
        let fd = r_sock;
        let n1 = open_socket fd n;
        let sa = zero_sockaddr\<lparr>sin_family := AF_INET, sin_port := htons (of_int port)\<rparr>;
        serveraddr \<leftarrow> (case inet_pton res hostname of
            Some a \<Rightarrow> Some (Some (sa\<lparr>sin_addr := a\<rparr>))
          | None \<Rightarrow>
              (case gethostbyname res hostname of
                 None \<Rightarrow> Some None
               | Some a \<Rightarrow> do {
                   sa1 \<leftarrow> copy_addr a (zero_sockaddr\<lparr>sin_family := AF_INET\<rparr>);
                   Some (Some (sa1\<lparr>sin_port := htons (of_int port)\<rparr>))
                 }));
        case serveraddr of
          None \<Rightarrow> Some (-1, close_fd fd n1)
        | Some sa' \<Rightarrow>
            if r_connect < 0 then Some (-1, close_fd fd n1)
            else Some (fd, n1\<lparr>peer := (peer n1)(fd \<mapsto> sa')\<rparr>)
      })"

subsection \<open>Lemmas\<close>

lemma close_open_socket: "unused_fd fd n \<Longrightarrow> close_fd fd (open_socket fd n) = n"
  by (simp add: close_fd_def open_socket_def unused_fd_def fun_upd_idem)

lemma close_changed [simp]:
  "close_fd fd (m\<lparr>nonblocking := insert fd (nonblocking m)\<rparr>) = close_fd fd m"
  "close_fd fd (m\<lparr>bound := (bound m)(fd := b)\<rparr>) = close_fd fd m"
  "close_fd fd (m\<lparr>backlog := (backlog m)(fd := l)\<rparr>) = close_fd fd m"
  "close_fd fd (m\<lparr>peer := (peer m)(fd := a)\<rparr>) = close_fd fd m"
  by (simp_all add: close_fd_def)

lemma copy_addr_4:
  "length a = 4 \<Longrightarrow> copy_addr a zero = Some (zero\<lparr>sin_addr := a\<rparr>)" if "length (sin_addr zero) = 4"
  using that by (simp add: copy_addr_def wr_block_def)

text \<open>The address that a name and a port stand for: what is written out in the source twice, in \<open>open_clientfd\<close> and in the clients.\<close>

definition address_of :: "resolver \<Rightarrow> bytes \<Rightarrow> int \<Rightarrow> struct_sockaddr_in option" where
  "address_of res hostname port =
     map_option (\<lambda>a. \<lparr>sin_family = AF_INET, sin_port = htons (of_int port), sin_addr = a, sin_zero = replicate 8 0\<rparr>)
       (case inet_pton res hostname of Some a \<Rightarrow> Some a | None \<Rightarrow> gethostbyname res hostname)"

lemma resolver_okD: "resolver_ok r \<Longrightarrow> inet_pton r s = Some a \<Longrightarrow> length a = 4"
    "resolver_ok r \<Longrightarrow> gethostbyname r s = Some a \<Longrightarrow> length a = 4"
  by (auto simp: resolver_ok_def)

text \<open>The server from \<open>open_listenfd\<close> to the event loop.\<close>

definition server_listen :: "listen_calls \<Rightarrow> int \<Rightarrow> net \<Rightarrow> bool \<Rightarrow> loop_state outcome option" where
  "server_listen r port n pool_ok =
     (case open_listenfd r port n of
        (Exited e, _) \<Rightarrow> Some (Exited e)
      | (Returned fd, _) \<Rightarrow> loop_init fd pool_ok)"

text \<open>
  \<open>open_clientfd\<close>: when the name resolves and \<open>connect\<close> succeeds, the new descriptor is connected to the
  address of the host and the port; in every other case the result is -1 and no descriptor is left open.
\<close>

lemma open_clientfd_result:
  assumes "0 \<le> fd \<Longrightarrow> unused_fd fd n" and "resolver_ok res"
  shows "open_clientfd res fd rc host port n =
    (case address_of res host port of
       Some a \<Rightarrow> if 0 \<le> fd \<and> 0 \<le> rc then Some (fd, n\<lparr>open_fds := insert fd (open_fds n), peer := (peer n)(fd \<mapsto> a)\<rparr>) else Some (-1, n)
     | None \<Rightarrow> Some (-1, n))"
proof (cases "0 \<le> fd")
  case True
  note c = close_open_socket [OF assms(1) [OF True]]
  have o: "open_socket fd n = n\<lparr>open_fds := insert fd (open_fds n)\<rparr>"
    using assms(1) [OF True] by (simp add: open_socket_def close_fd_def unused_fd_def fun_upd_idem)
  show ?thesis
    using True c resolver_okD [OF assms(2), of host]
    by (auto simp: open_clientfd_def address_of_def Let_def zero_sockaddr_def copy_addr_4 o split: option.splits)
qed (simp add: open_clientfd_def split: option.split)

subsection \<open>Properties\<close>

definition listen_steps_ok :: "listen_calls \<Rightarrow> bool" where
  "listen_steps_ok r \<longleftrightarrow> 0 \<le> r_socket r \<and> 0 \<le> r_setsockopt r \<and> 0 \<le> r_ioctl r \<and> 0 \<le> r_bind r \<and> 0 \<le> r_listen r"

text \<open>C29. \<open>open_listenfd\<close> is all or nothing: it returns a descriptor only when every call has succeeded, and then the descriptor is open,
  does not block (as the accept loop of the server needs), is bound to the port on every local address and listens; when a
  call fails, the descriptor is closed again and nothing else has changed, and the program is left only when \<open>ioctl\<close> failed.\<close>

theorem open_listenfd_all_or_nothing:
  assumes "0 \<le> r_socket r \<Longrightarrow> unused_fd (r_socket r) n"
  shows "open_listenfd r port n =
    (if listen_steps_ok r
     then (Returned (r_socket r), n\<lparr>open_fds := insert (r_socket r) (open_fds n), nonblocking := insert (r_socket r) (nonblocking n),
       bound := (bound n)(r_socket r \<mapsto> \<lparr>sin_family = AF_INET, sin_port = htons (of_int port), sin_addr = [0, 0, 0, 0],
         sin_zero = replicate 8 0\<rparr>), backlog := (backlog n)(r_socket r \<mapsto> BACKLOG)\<rparr>)
     else (if 0 \<le> r_socket r \<and> 0 \<le> r_setsockopt r \<and> r_ioctl r < 0 then Exited (-1) else Returned (-1), n))"
proof (cases "0 \<le> r_socket r")
  case True
  let ?fd = "r_socket r"
  note c = close_open_socket [OF assms [OF True]]
  have any: "le_bytes (htonl INADDR_ANY) = [0, 0, 0, 0]"
    by (simp add: le_bytes_def htonl_def byte_of_simps INADDR_ANY_def) (simp add: byte_of_def)
  have o: "open_socket ?fd n = n\<lparr>open_fds := insert ?fd (open_fds n)\<rparr>"
    using assms [OF True] by (simp add: open_socket_def close_fd_def unused_fd_def fun_upd_idem)
  show ?thesis
    using True c by (simp add: open_listenfd_def listen_steps_ok_def Let_def any not_less zero_sockaddr_def) (use assms [OF True] in
      \<open>simp add: o close_fd_def unused_fd_def fun_upd_idem\<close>)
qed (simp add: open_listenfd_def listen_steps_ok_def)

definition sample_net :: net where
  "sample_net = \<lparr>open_fds = {0, 1, 2}, nonblocking = {}, bound = Map.empty, backlog = Map.empty, peer = Map.empty\<rparr>"

theorem open_listenfd_all_or_nothing_witness:
  "open_listenfd \<lparr>r_socket = 3, r_setsockopt = 0, r_ioctl = 0, r_bind = -1, r_listen = 0\<rparr> 80 sample_net = (Returned (-1), sample_net)"
  using open_listenfd_all_or_nothing [of "\<lparr>r_socket = 3, r_setsockopt = 0, r_ioctl = 0, r_bind = -1, r_listen = 0\<rparr>" sample_net 80]
  by (simp add: unused_fd_def sample_net_def listen_steps_ok_def)

text \<open>The server does not test what \<open>open_listenfd\<close> returns: exactly when \<open>socket\<close>, \<open>setsockopt\<close>, \<open>bind\<close> or \<open>listen\<close> has failed, or the
  descriptor is not below \<open>FD_SETSIZE\<close>, its \<open>FD_SET\<close> writes outside of the set (no defined result); a port that is in use is enough.\<close>

theorem server_listen_unchecked:
  "server_listen r port n pool_ok = None \<longleftrightarrow>
    r_socket r < 0 \<or> r_setsockopt r < 0 \<or> 0 \<le> r_ioctl r \<and> (r_bind r < 0 \<or> r_listen r < 0 \<or> FD_SETSIZE \<le> r_socket r)"
  by (auto simp: server_listen_def open_listenfd_def loop_init_def fd_add_def Let_def not_less split: if_splits)

end
