(* ===== verification/Hash_Table.thy ===== *)
theory Hash_Table
  imports Index_Lists
begin

section \<open>The hash table of words (server.c, helper.c)\<close>

text \<open>
  \<open>hash_function\<close> and \<open>disperse_keys\<close> of \<open>server.c\<close>, and what \<open>lookup\<close> and \<open>insert\<close> of
  \<open>helper.c\<close> do to a table that the server indexes by \<open>hash % phys_len\<close> with linear
  probing. The table invariant \<open>table_ok\<close> says that every stored word can be reached from
  its home slot without crossing an empty one, and that no word is stored twice. The
  lemmas show that \<open>lookup\<close> decides membership under it, that an insertion without growth
  keeps it, how far probing can run, and what growth does to it.
\<close>

subsection \<open>hash_function\<close>

definition HASH_MULTIPLIER :: "32 word" where "HASH_MULTIPLIER = 65599"

text \<open>\<open>(unsigned int)pcKey[i]\<close> widens a signed \<open>char\<close>, so it extends the sign.\<close>

function hash_loop :: "bytes \<Rightarrow> nat \<Rightarrow> 32 word \<Rightarrow> 32 word option" where
  "hash_loop pcKey i uiHash =
     (case rd pcKey i of
        None \<Rightarrow> None
      | Some c \<Rightarrow> if c \<noteq> 0 then hash_loop pcKey (Suc i) (uiHash * HASH_MULTIPLIER + scast c)
                  else Some uiHash)"
  by pat_completeness auto
termination
  by (relation "measure (\<lambda>(pcKey, i, uiHash). length pcKey - i)")
    (auto simp: rd_def split: if_splits)

declare hash_loop.simps [simp del]

definition hash_function :: "bytes \<Rightarrow> 32 word option" where
  "hash_function pcKey = hash_loop pcKey 0 0"

text \<open>The reference: a fold over the string.\<close>

definition hash_of :: "bytes \<Rightarrow> 32 word" where
  "hash_of s = foldl (\<lambda>u c. u * HASH_MULTIPLIER + scast c) 0 s"

lemma hash_loop_cstring:
  assumes "terminated s" and "i \<le> length (cstring s)"
  shows "hash_loop s i u =
    Some (foldl (\<lambda>u c. u * HASH_MULTIPLIER + scast c) u (drop i (cstring s)))"
  using assms(2)
proof (induction "length (cstring s) - i" arbitrary: i u)
  case 0
  with assms(1) show ?case
    using cstring_length_less [of s] cstring_end [of s] by (subst hash_loop.simps) (simp add: rd_def)
next
  case (Suc n)
  then have i: "i < length (cstring s)" by simp
  then have "drop i (cstring s) = s ! i # drop (Suc i) (cstring s)"
    using cstring_nth [OF i] by (simp add: drop_nth_Cons)
  with Suc i assms(1) show ?case
    using cstring_length_less [of s] cstring_nth_nonzero [OF i]
    by (subst hash_loop.simps) (simp add: rd_def)
qed

lemma hash_function_cstring: "terminated s \<Longrightarrow> hash_function s = Some (hash_of (cstring s))"
  by (simp add: hash_function_def hash_of_def hash_loop_cstring)

text \<open>
  In integers: the polynomial with coefficients the signed characters, reduced modulo
  \<open>2 ^ 32\<close> at the end only.
\<close>

lemma uint_scast_byte: "uint (scast (c :: 8 word) :: 32 word) = sint c mod 2 ^ 32"
proof -
  have "(scast c :: 32 word) = word_of_int (sint c)" by simp
  then show ?thesis by (simp only: uint_word_of_int) simp
qed

lemma uint_hash_step:
  "uint (u * HASH_MULTIPLIER + scast (c :: 8 word)) = (uint u * 65599 + sint c) mod 2 ^ 32"
proof -
  have "uint (u * 65599 + scast c) = (((uint u * 65599) mod 2 ^ 32) + (sint c mod 2 ^ 32)) mod 2 ^ 32"
    by (simp only: uint_word_ariths uint_scast_byte) (simp add: uint_scast_byte)
  then show ?thesis by (simp only: HASH_MULTIPLIER_def mod_add_eq)
qed

lemma uint_hash_fold:
  "uint (foldl (\<lambda>u c. u * HASH_MULTIPLIER + scast c) u (s :: bytes)) =
    foldl (\<lambda>u c. u * 65599 + sint c) (uint u) s mod 2 ^ 32"
proof (induction s arbitrary: u)
  case Nil
  then show ?case using uint_bounded [of u] by simp
next
  case (Cons c s)
  have "foldl (\<lambda>u c. u * 65599 + sint c) (x mod 2 ^ 32) s mod 2 ^ 32 =
      foldl (\<lambda>u c. u * 65599 + sint c) x s mod 2 ^ 32" for x :: int
  proof (induction s arbitrary: x)
    case Nil
    then show ?case by simp
  next
    case (Cons d s)
    let ?f = "foldl (\<lambda>u c. u * 65599 + sint c)"
    have eq: "((x mod 2 ^ 32) * 65599 + sint d) mod 2 ^ 32 = (x * 65599 + sint d) mod 2 ^ 32"
      by (metis mod_add_left_eq mod_mult_left_eq)
    have "?f ((x mod 2 ^ 32) * 65599 + sint d) s mod 2 ^ 32 =
        ?f (((x mod 2 ^ 32) * 65599 + sint d) mod 2 ^ 32) s mod 2 ^ 32"
      by (rule Cons.IH [symmetric])
    also have "\<dots> = ?f (x * 65599 + sint d) s mod 2 ^ 32"
      unfolding eq by (rule Cons.IH)
    finally show ?case by simp
  qed
  then show ?case
    using Cons [of "u * HASH_MULTIPLIER + scast c"] by (simp only: foldl_Cons uint_hash_step)
qed

subsection \<open>disperse_keys\<close>

text \<open>
  The loop of \<open>disperse_keys\<close> over the slots from \<open>prev_len\<close>. A word it considers is put
  into the first empty slot from its hash on; its old slot is not cleared. \<open>last_index\<close>
  is the value the field had on entry.
\<close>

function disperse_loop :: "heap \<Rightarrow> nat \<Rightarrow> nat \<Rightarrow> nat \<Rightarrow> struct_DynList \<Rightarrow> nat \<Rightarrow> struct_DynList option" where
  "disperse_loop h prev_len curr_len last_index dynlist index =
     (if index < curr_len
      then case rd (dl_list dynlist) index of
             None \<Rightarrow> None
           | Some word \<Rightarrow>
               (case (if word \<noteq> 0
                      then case words h word of
                             None \<Rightarrow> None
                           | Some w \<Rightarrow>
                               if prev_len \<le> wd_hash w
                               then case insert_slot (dl_list dynlist) curr_len (wd_hash w mod curr_len) word of
                                      None \<Rightarrow> None
                                    | Some (list_ptr, curr_index) \<Rightarrow>
                                        Some (if curr_index < curr_len
                                              then dynlist\<lparr>dl_list := list_ptr,
                                                     dl_last_index := (if last_index < curr_index
                                                       then curr_index + 1 else last_index)\<rparr>
                                              else dynlist)
                               else Some dynlist
                      else Some dynlist) of
                  None \<Rightarrow> None
                | Some dynlist' \<Rightarrow> disperse_loop h prev_len curr_len last_index dynlist' (Suc index))
      else Some dynlist)"
  by pat_completeness auto
termination
  by (relation "measure (\<lambda>(h, prev_len, curr_len, last_index, dynlist, index). curr_len - index)") auto

declare disperse_loop.simps [simp del]

definition disperse_keys :: "heap \<Rightarrow> struct_DynList \<Rightarrow> struct_DynList option" where
  "disperse_keys h dynlist =
     (let curr_len = dl_phys_len dynlist;
          prev_len = dl_phys_len dynlist div 2
      in disperse_loop h prev_len curr_len (dl_last_index dynlist) dynlist prev_len)"

text \<open>
  The words that were in the table before it grew lie below \<open>prev_len\<close>, where the loop
  never looks: with nothing above, it changes nothing.
\<close>

lemma disperse_loop_empty:
  assumes "length (dl_list D) = curr_len" and "\<forall>i. index \<le> i \<longrightarrow> i < curr_len \<longrightarrow> dl_list D ! i = 0"
  shows "disperse_loop h prev_len curr_len last_index D index = Some D"
  using assms
proof (induction "curr_len - index" arbitrary: index)
  case 0
  then show ?case by (subst disperse_loop.simps) simp
next
  case (Suc n)
  then show ?case by (subst disperse_loop.simps) (simp add: c_step)
qed

subsection \<open>The table invariant\<close>

text \<open>The string of a stored word, and its home slot in a table of \<open>n\<close> slots.\<close>

definition key :: "heap \<Rightarrow> addr \<Rightarrow> bytes" where
  "key h a = (case words h a of None \<Rightarrow> []
     | Some w \<Rightarrow> (case wd_str w of None \<Rightarrow> [] | Some s \<Rightarrow> cstring s))"

definition home :: "nat \<Rightarrow> bytes \<Rightarrow> nat" where
  "home n s = unat (hash_of s) mod n"

definition word_ok :: "heap \<Rightarrow> addr \<Rightarrow> bool" where
  "word_ok h a \<longleftrightarrow> (\<exists>w s. words h a = Some w \<and> wd_str w = Some s \<and> terminated s \<and>
     length (cstring s) < DYN_SIZE \<and> wd_hash w = unat (hash_of (cstring s)))"

definition table_words :: "struct_DynList \<Rightarrow> addr set" where
  "table_words D = set (dl_list D) - {0}"

definition table_ok :: "heap \<Rightarrow> struct_DynList \<Rightarrow> bool" where
  "table_ok h D \<longleftrightarrow>
     (let slots = dl_list D; n = length slots in
      dl_phys_len D = n \<and> 0 < n \<and> (\<forall>a\<in>table_words D. word_ok h a) \<and>
      (\<forall>i<n. slots ! i \<noteq> 0 \<longrightarrow> home n (key h (slots ! i)) \<le> i \<and>
         (\<forall>j. home n (key h (slots ! i)) \<le> j \<and> j < i \<longrightarrow> slots ! j \<noteq> 0)) \<and>
      (\<forall>i<n. \<forall>j<n. slots ! i \<noteq> 0 \<and> slots ! j \<noteq> 0 \<and>
         key h (slots ! i) = key h (slots ! j) \<longrightarrow> i = j))"

lemma home_less: "0 < n \<Longrightarrow> home n s < n"
  by (simp add: home_def)

lemma table_ok_D:
  assumes "table_ok h D"
  shows "dl_phys_len D = length (dl_list D)" and "0 < length (dl_list D)"
    and "\<And>a. a \<in> table_words D \<Longrightarrow> word_ok h a"
    and "\<And>i. i < length (dl_list D) \<Longrightarrow> dl_list D ! i \<noteq> 0 \<Longrightarrow>
           home (length (dl_list D)) (key h (dl_list D ! i)) \<le> i"
    and "\<And>i j. i < length (dl_list D) \<Longrightarrow> dl_list D ! i \<noteq> 0 \<Longrightarrow>
           home (length (dl_list D)) (key h (dl_list D ! i)) \<le> j \<Longrightarrow> j < i \<Longrightarrow> dl_list D ! j \<noteq> 0"
    and "\<And>i j. i < length (dl_list D) \<Longrightarrow> j < length (dl_list D) \<Longrightarrow> dl_list D ! i \<noteq> 0 \<Longrightarrow>
           dl_list D ! j \<noteq> 0 \<Longrightarrow> key h (dl_list D ! i) = key h (dl_list D ! j) \<Longrightarrow> i = j"
  using assms unfolding table_ok_def Let_def by blast+

lemma table_okI:
  assumes "dl_phys_len D = length (dl_list D)" and "0 < length (dl_list D)"
    and "\<And>a. a \<in> table_words D \<Longrightarrow> word_ok h a"
    and "\<And>i. i < length (dl_list D) \<Longrightarrow> dl_list D ! i \<noteq> 0 \<Longrightarrow>
           home (length (dl_list D)) (key h (dl_list D ! i)) \<le> i \<and>
           (\<forall>j. home (length (dl_list D)) (key h (dl_list D ! i)) \<le> j \<and> j < i \<longrightarrow> dl_list D ! j \<noteq> 0)"
    and "\<And>i j. i < length (dl_list D) \<Longrightarrow> j < length (dl_list D) \<Longrightarrow> dl_list D ! i \<noteq> 0 \<Longrightarrow>
           dl_list D ! j \<noteq> 0 \<Longrightarrow> key h (dl_list D ! i) = key h (dl_list D ! j) \<Longrightarrow> i = j"
  shows "table_ok h D"
  unfolding table_ok_def Let_def using assms by blast

lemma table_words_iff: "a \<in> table_words D \<longleftrightarrow> a \<noteq> 0 \<and> (\<exists>i<length (dl_list D). dl_list D ! i = a)"
  by (auto simp: table_words_def in_set_conv_nth)

lemma table_words_nth: "i < length (dl_list D) \<Longrightarrow> dl_list D ! i \<noteq> 0 \<Longrightarrow> dl_list D ! i \<in> table_words D"
  by (auto simp: table_words_def)

text \<open>The invariant reads the heap only at the words of the table.\<close>

lemma table_ok_frame:
  assumes "table_ok h D" and "\<And>a. a \<in> table_words D \<Longrightarrow> key h' a = key h a \<and> word_ok h' a"
  shows "table_ok h' D"
proof -
  have k: "key h' (dl_list D ! i) = key h (dl_list D ! i)"
    if "i < length (dl_list D)" "dl_list D ! i \<noteq> 0" for i
    using assms(2) that table_words_nth by blast
  show ?thesis
    using table_ok_D [OF assms(1)] assms(2) k unfolding table_ok_def Let_def
    by (metis (no_types, lifting))
qed

subsection \<open>lookup decides membership\<close>

text \<open>What \<open>lookup\<close> does to the slots from its index on: stop at NULL or at the string.\<close>

fun scan :: "heap \<Rightarrow> bytes \<Rightarrow> addr list \<Rightarrow> addr option" where
  "scan h s [] = None"
| "scan h s (a # as) = (if a = 0 then Some 0 else if key h a = s then Some a else scan h s as)"

lemma word_compare:
  assumes "word_ok h a" and "terminated str"
  shows "\<exists>w r. words h a = Some w \<and> StrCompare (wd_str w) (Some str) DYN_SIZE = Some r \<and>
    (r = 0 \<longleftrightarrow> key h a = cstring str)"
proof -
  obtain w s where "words h a = Some w" "wd_str w = Some s" "terminated s"
      "length (cstring s) < DYN_SIZE"
    using assms(1) by (auto simp: word_ok_def)
  then show ?thesis
    using StrCompare_zero_iff [of s str DYN_SIZE] assms(2) by (auto simp: key_def)
qed

lemma lookup_loop_scan:
  assumes "dl_phys_len D = length (dl_list D)" and "\<forall>a\<in>table_words D. word_ok h a"
    and "terminated str" and "index < length (dl_list D)"
  shows "lookup_loop h D str index = scan h (cstring str) (drop (Suc index) (dl_list D))"
  using assms(4)
proof (induction "length (dl_list D) - index" arbitrary: index)
  case 0
  then show ?case by simp
next
  case (Suc n)
  show ?case
  proof (cases "Suc index < length (dl_list D)")
    case False
    then show ?thesis
      using Suc.prems assms(1) by (subst lookup_loop.simps) (simp add: rd_None)
  next
    case True
    let ?a = "dl_list D ! Suc index"
    show ?thesis
    proof (cases "?a = 0")
      case True
      with \<open>Suc index < _\<close> show ?thesis
        using assms(1) by (subst lookup_loop.simps) (simp add: rd_def drop_nth_Cons)
    next
      case False
      then have "word_ok h ?a" using True assms(2) table_words_nth by blast
      then obtain w r where "words h ?a = Some w" "StrCompare (wd_str w) (Some str) DYN_SIZE = Some r"
          "r = 0 \<longleftrightarrow> key h ?a = cstring str"
        using word_compare [OF _ assms(3)] by blast
      with True False Suc assms(1) show ?thesis
        by (subst lookup_loop.simps) (simp add: rd_def drop_nth_Cons)
    qed
  qed
qed

lemma lookup_scan:
  assumes "dl_phys_len D = length (dl_list D)" and "\<forall>a\<in>table_words D. word_ok h a"
    and "terminated str" and "index < length (dl_list D)"
  shows "lookup h D str index = scan h (cstring str) (drop index (dl_list D))"
proof (cases "dl_list D ! index = 0")
  case True
  then show ?thesis using assms(4) by (simp add: lookup_def rd_def drop_nth_Cons)
next
  case False
  then have "word_ok h (dl_list D ! index)" using assms(2,4) table_words_nth by blast
  then obtain w r where "words h (dl_list D ! index) = Some w"
      "StrCompare (wd_str w) (Some str) DYN_SIZE = Some r"
      "r = 0 \<longleftrightarrow> key h (dl_list D ! index) = cstring str"
    using word_compare [OF _ assms(3)] by blast
  with False lookup_loop_scan [OF assms] assms(4) show ?thesis
    by (simp add: lookup_def rd_def drop_nth_Cons)
qed

lemma scan_found:
  assumes "p < length slots" and "slots ! p \<noteq> 0" and "key h (slots ! p) = s"
    and "i \<le> p" and "\<forall>j. i \<le> j \<and> j < p \<longrightarrow> slots ! j \<noteq> 0 \<and> key h (slots ! j) \<noteq> s"
  shows "scan h s (drop i slots) = Some (slots ! p)"
  using assms(4,5)
proof (induction "p - i" arbitrary: i)
  case 0
  with assms(1-3) show ?case by (simp add: drop_nth_Cons)
next
  case (Suc n)
  then have i: "i < length slots" "i < p" using assms(1) by simp_all
  then have "scan h s (drop (Suc i) slots) = Some (slots ! p)" using Suc by simp
  moreover have "slots ! i \<noteq> 0 \<and> key h (slots ! i) \<noteq> s" using Suc.prems i by blast
  ultimately show ?case using drop_nth_Cons [OF i(1)] by simp
qed

lemma scan_absent:
  assumes "first_free slots i < length slots"
    and "\<forall>j. i \<le> j \<and> j < first_free slots i \<longrightarrow> key h (slots ! j) \<noteq> s"
  shows "scan h s (drop i slots) = Some 0"
  using assms
proof (induction "first_free slots i - i" arbitrary: i)
  case 0
  then have "first_free slots i = i" and "i < length slots"
    using first_free_ge [of i slots] by simp_all
  with 0 first_free_empty [of slots i] show ?case by (simp add: drop_nth_Cons)
next
  case (Suc n)
  then have i: "i < length slots" "slots ! i \<noteq> 0"
    using first_free_ge [of i slots] first_free_run [of i i slots] by auto
  then have ff: "first_free slots i = first_free slots (Suc i)"
    using first_free_step [of i slots] by simp
  then have "scan h s (drop (Suc i) slots) = Some 0" using Suc by simp
  moreover have "key h (slots ! i) \<noteq> s" using Suc.prems(2) Suc.hyps(2) by simp
  ultimately show ?case using i drop_nth_Cons [OF i(1)] by simp
qed

lemma lookup_table:
  assumes "table_ok h D" and "terminated str"
  defines "n \<equiv> length (dl_list D)"
  assumes "first_free (dl_list D) (home n (cstring str)) < n"
  shows "\<exists>a. lookup h D str (home n (cstring str)) = Some a \<and>
    (if \<exists>b\<in>table_words D. key h b = cstring str
     then a \<in> table_words D \<and> key h a = cstring str else a = 0)"
proof -
  let ?slots = "dl_list D" and ?s = "cstring str"
  note ok = table_ok_D [OF assms(1)]
  have lk: "lookup h D str (home n ?s) = scan h ?s (drop (home n ?s) ?slots)"
    using ok(1-3) home_less [of n] assms(2) by (intro lookup_scan) (simp_all add: n_def)
  show ?thesis
  proof (cases "\<exists>b\<in>table_words D. key h b = ?s")
    case True
    then obtain p where p: "p < n" "?slots ! p \<noteq> 0" "key h (?slots ! p) = ?s"
      unfolding n_def by (metis table_words_iff)
    have "home n ?s \<le> p" using ok(4) [of p] p by (simp add: n_def)
    moreover have "\<forall>j. home n ?s \<le> j \<and> j < p \<longrightarrow> ?slots ! j \<noteq> 0 \<and> key h (?slots ! j) \<noteq> ?s"
    proof (intro allI impI)
      fix j assume j: "home n ?s \<le> j \<and> j < p"
      then have "?slots ! j \<noteq> 0" using ok(5) [of p j] p by (simp add: n_def)
      then show "?slots ! j \<noteq> 0 \<and> key h (?slots ! j) \<noteq> ?s"
        using ok(6) [of j p] p j by (auto simp: n_def)
    qed
    ultimately have "lookup h D str (home n ?s) = Some (?slots ! p)"
      using scan_found p lk by (simp add: n_def)
    with True p show ?thesis using table_words_nth by (simp add: n_def)
  next
    case False
    have "\<forall>j. home n ?s \<le> j \<and> j < first_free ?slots (home n ?s) \<longrightarrow> key h (?slots ! j) \<noteq> ?s"
    proof (intro allI impI)
      fix j assume j: "home n ?s \<le> j \<and> j < first_free ?slots (home n ?s)"
      then have "?slots ! j \<noteq> 0" and "j < length ?slots"
        using assms(4) first_free_run [of "home n ?s" j ?slots] by (auto simp: n_def)
      then show "key h (?slots ! j) \<noteq> ?s" using False table_words_nth by blast
    qed
    then have "lookup h D str (home n ?s) = Some 0"
      using lk scan_absent assms(4) by (simp add: n_def)
    with False show ?thesis by simp
  qed
qed

subsection \<open>How far probing runs\<close>

lemma finite_table_words [simp]: "finite (table_words D)"
  by (simp add: table_words_def)

lemma first_free_bound:
  assumes "table_ok h D" and "i + card (table_words D) < length (dl_list D)"
  shows "first_free (dl_list D) i \<le> i + card (table_words D)"
proof -
  let ?slots = "dl_list D" and ?f = "first_free (dl_list D) i"
  have le: "?f \<le> length ?slots" using assms(2) first_free_le by simp
  have run: "?slots ! j \<noteq> 0 \<and> j < length ?slots" if "j \<in> {i..<?f}" for j
    using that le first_free_run [of i j ?slots] by auto
  have "inj_on (\<lambda>j. ?slots ! j) {i..<?f}"
  proof (rule inj_onI)
    fix j k assume "j \<in> {i..<?f}" "k \<in> {i..<?f}" "?slots ! j = ?slots ! k"
    then show "j = k" using run table_ok_D(6) [OF assms(1), of j k] by metis
  qed
  moreover have "(\<lambda>j. ?slots ! j) ` {i..<?f} \<subseteq> table_words D"
    using run table_words_nth by blast
  ultimately have "card {i..<?f} \<le> card (table_words D)"
    by (metis card_inj_on_le finite_table_words)
  then show ?thesis by simp
qed

subsection \<open>insert without growth\<close>

lemma table_words_update:
  assumes "i < length (dl_list D)" and "dl_list D ! i = 0" and "a \<noteq> 0"
  shows "table_words (D\<lparr>dl_list := (dl_list D)[i := a], dl_last_index := l\<rparr>) = insert a (table_words D)"
proof -
  have "x \<in> set ((dl_list D)[i := a]) \<longleftrightarrow> x = a \<or> x \<in> set (dl_list D)" if "x \<noteq> 0" for x
  proof
    assume "x \<in> set ((dl_list D)[i := a])"
    then show "x = a \<or> x \<in> set (dl_list D)" using set_update_subset_insert by fastforce
  next
    assume x: "x = a \<or> x \<in> set (dl_list D)"
    show "x \<in> set ((dl_list D)[i := a])"
    proof (cases "x = a")
      case True
      with assms(1) show ?thesis by (simp add: set_update_memI)
    next
      case False
      with x obtain k where k: "k < length (dl_list D)" "dl_list D ! k = x"
        by (auto simp: in_set_conv_nth)
      with assms(2) that have "k \<noteq> i" by auto
      with k have "(dl_list D)[i := a] ! k = x" by simp
      with k show ?thesis by (metis length_list_update nth_mem)
    qed
  qed
  with assms(3) show ?thesis by (auto simp: table_words_def)
qed

lemma table_ok_insert:
  assumes ok: "table_ok h D" and w: "word_ok h a" "a \<noteq> 0"
    and new: "\<forall>b\<in>table_words D. key h b \<noteq> key h a"
  defines "n \<equiv> length (dl_list D)"
  defines "f \<equiv> first_free (dl_list D) (home n (key h a))"
  assumes f: "f < n"
  shows "table_ok h (D\<lparr>dl_list := (dl_list D)[f := a], dl_last_index := l\<rparr>)"
proof -
  let ?S = "(dl_list D)[f := a]"
  note D = table_ok_D [OF ok]
  have nf: "?S ! i = (if i = f then a else dl_list D ! i)" if "i < n" for i
    using that by (simp add: n_def nth_list_update)
  have zero: "dl_list D ! f = 0"
    using f first_free_empty by (simp add: f_def n_def)
  have run: "dl_list D ! j \<noteq> 0" if "home n (key h a) \<le> j" "j < f" for j
    using that f first_free_run [of "home n (key h a)" j "dl_list D"] by (simp add: f_def n_def)
  have probe: "home n (key h (?S ! i)) \<le> i \<and>
      (\<forall>j. home n (key h (?S ! i)) \<le> j \<and> j < i \<longrightarrow> ?S ! j \<noteq> 0)"
    if i: "i < n" "?S ! i \<noteq> 0" for i
  proof (cases "i = f")
    case True
    then have "?S ! i = a" using i(1) nf by simp
    moreover have "home n (key h a) \<le> f" unfolding f_def by (rule first_free_ge)
    moreover have "?S ! j \<noteq> 0" if "home n (key h a) \<le> j" "j < f" for j
      using run [OF that] nf [of j] that f by simp
    ultimately show ?thesis using True by auto
  next
    case False
    then have "dl_list D ! i \<noteq> 0" "?S ! i = dl_list D ! i" using i nf by simp_all
    moreover from this have "home n (key h (dl_list D ! i)) \<le> i"
      using D(4) [of i] i by (simp add: n_def)
    moreover have "?S ! j \<noteq> 0" if "home n (key h (dl_list D ! i)) \<le> j" "j < i" for j
      using D(5) [of i j] nf [of j] that i \<open>dl_list D ! i \<noteq> 0\<close> w(2) by (simp add: n_def)
    ultimately show ?thesis by auto
  qed
  have other: "key h (?S ! i) \<noteq> key h a" if "i < n" "i \<noteq> f" "?S ! i \<noteq> 0" for i
    using that nf [of i] new table_words_nth [of i D] by (simp add: n_def)
  have inj: "i = j" if ij: "i < n" "j < n" "?S ! i \<noteq> 0" "?S ! j \<noteq> 0"
      "key h (?S ! i) = key h (?S ! j)" for i j
  proof -
    have "?S ! f = a" using nf f by simp
    then consider "i = f" "j = f" | "i \<noteq> f" "j \<noteq> f"
      using other [of i] other [of j] ij by metis
    then show ?thesis
    proof cases
      case 2
      then show ?thesis using ij nf [of i] nf [of j] D(6) [of i j] by (simp add: n_def)
    qed simp
  qed
  have words: "table_words (D\<lparr>dl_list := ?S, dl_last_index := l\<rparr>) = insert a (table_words D)"
    by (rule table_words_update [OF f [unfolded n_def] zero w(2)])
  let ?D = "D\<lparr>dl_list := ?S, dl_last_index := l\<rparr>"
  have l: "dl_list ?D = ?S" "length ?S = n" "dl_phys_len ?D = n"
    by (simp_all add: D(1) n_def)
  show ?thesis
  proof (rule table_okI, unfold l)
    show "n = n" ..
    show "0 < n" using D(2) by (simp only: n_def)
    show "word_ok h b" if "b \<in> table_words ?D" for b
      using that D(3) w(1) unfolding words by blast
    show "home n (key h (?S ! i)) \<le> i \<and> (\<forall>j. home n (key h (?S ! i)) \<le> j \<and> j < i \<longrightarrow> ?S ! j \<noteq> 0)"
      if "i < n" "?S ! i \<noteq> 0" for i
      using that by (rule probe)
    show "i = j" if "i < n" "j < n" "?S ! i \<noteq> 0" "?S ! j \<noteq> 0" "key h (?S ! i) = key h (?S ! j)" for i j
      using that by (rule inj)
  qed
qed

lemma insert_table:
  assumes ok: "table_ok h D" and w: "word_ok h a" "a \<noteq> 0"
    and new: "\<forall>b\<in>table_words D. key h b \<noteq> key h a"
    and room: "dl_last_index D < dl_phys_len D"
  defines "n \<equiv> length (dl_list D)"
  defines "f \<equiv> first_free (dl_list D) (home n (key h a))"
  assumes f: "f < n"
  shows "\<exists>D'. insert_DYNLIST A D a (home n (key h a)) = Some (1, D') \<and> table_ok h D' \<and>
    table_words D' = insert a (table_words D) \<and> length (dl_list D') = n \<and>
    dl_last_index D' = (if dl_last_index D < f then f + 1 else dl_last_index D)"
proof -
  let ?l = "if dl_last_index D < f then f + 1 else dl_last_index D"
  let ?D = "D\<lparr>dl_list := (dl_list D)[f := a], dl_last_index := ?l\<rparr>"
  note D = table_ok_D [OF ok]
  have "home n (key h a) < n" using D(2) home_less by (simp add: n_def)
  moreover from this have "insert_slot (dl_list D) n (home n (key h a)) a = Some ((dl_list D)[f := a], f)"
    using f insert_slot_spec [of "home n (key h a)" "dl_list D" a] by (simp add: n_def f_def)
  ultimately have "insert_DYNLIST A D a (home n (key h a)) = Some (1, ?D)"
    using D(1) room by (simp add: n_def insert_DYNLIST.simps)
  moreover have "table_ok h ?D"
    using table_ok_insert [OF ok w new, of ?l] f by (simp add: f_def n_def)
  moreover have "table_words ?D = insert a (table_words D)"
    using f first_free_empty w(2) by (intro table_words_update) (simp_all add: f_def n_def)
  moreover have "length (dl_list ?D) = n" by (simp add: n_def)
  moreover have "dl_last_index ?D = ?l" by simp
  ultimately show ?thesis by blast
qed

subsection \<open>insert and lookup at the end of the table\<close>

text \<open>
  Probing does not wrap around. When it runs off the end, \<open>insert\<close> stores nothing,
  reports success and moves \<open>last_index\<close> past the end; \<open>lookup\<close> of an absent string
  reads the slot after the last one.
\<close>

lemma insert_full_run:
  assumes "dl_phys_len D = length (dl_list D)" and "dl_last_index D < dl_phys_len D"
    and "i < dl_phys_len D" and "first_free (dl_list D) i = dl_phys_len D"
  shows "insert_DYNLIST A D a i = Some (1, D\<lparr>dl_last_index := dl_phys_len D + 1\<rparr>)"
  using assms insert_slot_spec [of i "dl_list D" a] by (simp add: insert_DYNLIST.simps)

lemma scan_run_out:
  assumes "i \<le> length slots"
    and "\<forall>j. i \<le> j \<and> j < length slots \<longrightarrow> slots ! j \<noteq> 0 \<and> key h (slots ! j) \<noteq> s"
  shows "scan h s (drop i slots) = None"
  using assms
proof (induction "length slots - i" arbitrary: i)
  case 0
  then show ?case by simp
next
  case (Suc n)
  then have i: "i < length slots" by simp
  then have "scan h s (drop (Suc i) slots) = None" using Suc by simp
  moreover have "slots ! i \<noteq> 0 \<and> key h (slots ! i) \<noteq> s" using Suc.prems i by blast
  ultimately show ?case using drop_nth_Cons [OF i] by simp
qed

lemma lookup_run_out:
  assumes "table_ok h D" and "terminated str" and "i < length (dl_list D)"
    and "first_free (dl_list D) i = length (dl_list D)"
    and "\<forall>b\<in>table_words D. key h b \<noteq> cstring str"
  shows "lookup h D str i = None"
proof -
  note D = table_ok_D [OF assms(1)]
  have "lookup h D str i = scan h (cstring str) (drop i (dl_list D))"
    using D(1,3) assms(2,3) by (intro lookup_scan) simp_all
  moreover have "\<forall>j. i \<le> j \<and> j < length (dl_list D) \<longrightarrow>
      dl_list D ! j \<noteq> 0 \<and> key h (dl_list D ! j) \<noteq> cstring str"
    using first_free_run [of i _ "dl_list D"] assms(4,5) table_words_nth by metis
  ultimately show ?thesis using scan_run_out assms(3) by simp
qed

subsection \<open>Growth\<close>

lemma insert_growth:
  fixes a :: addr
  assumes "dl_phys_len D = length (dl_list D)" and "dl_phys_len D \<le> dl_last_index D"
    and "tc_realloc A (dl_list D) (dl_phys_len D * 2) = Some (dl_list D @ new)" and "length new = dl_phys_len D"
    and "i < length (dl_list D)" and "first_free (dl_list D) i < length (dl_list D)"
  shows "\<exists>l. insert_DYNLIST A D a i = Some (2, \<lparr>dl_last_index = l, dl_phys_len = 2 * length (dl_list D),
    dl_list = (dl_list D)[first_free (dl_list D) i := a] @ new\<rparr>)"
proof -
  let ?n = "length (dl_list D)" and ?f = "first_free (dl_list D) i"
  let ?S = "dl_list D @ new"
  have "takeWhile (\<lambda>a. a \<noteq> 0) (drop i ?S) = takeWhile (\<lambda>a. a \<noteq> 0) (drop i (dl_list D))"
  proof -
    have "length (takeWhile (\<lambda>a. a \<noteq> 0) (drop i (dl_list D))) < length (drop i (dl_list D))"
      using assms(6) by (simp add: first_free_def)
    then have "\<exists>x\<in>set (drop i (dl_list D)). x = 0"
      by (metis (mono_tags, lifting) nat_less_le takeWhile_eq_all_conv)
    with assms(5) show ?thesis by (auto simp: takeWhile_append1)
  qed
  then have "first_free ?S i = ?f" by (simp add: first_free_def)
  then have "insert_slot ?S (?n * 2) i a = Some ((dl_list D)[?f := a] @ new, ?f)"
    using insert_slot_spec [of i ?S a] assms(1,4-6) by (simp add: list_update_append mult_2_right)
  then show ?thesis using assms(1-3,5) by (cases D) (simp add: insert_DYNLIST.simps mult.commute Let_def)
qed

lemma disperse_after_growth:
  assumes "dl_phys_len D = 2 * n" and "dl_list D = xs @ replicate n 0" and "length xs = n"
  shows "disperse_keys h D = Some D"
  unfolding disperse_keys_def Let_def
  using assms by (intro disperse_loop_empty) (auto simp: nth_append)

text \<open>A slot above that holds anything but the address of a word: the loop gets there and reads through it.\<close>

lemma disperse_loop_stray:
  assumes "length (dl_list D) = curr_len" and "index \<le> j" and "j < curr_len"
    and "dl_list D ! j \<noteq> 0" and "words h (dl_list D ! j) = None"
  shows "disperse_loop h prev_len curr_len last_index D index = None"
  using assms
proof (induction "curr_len - index" arbitrary: index D)
  case 0
  then show ?case by simp
next
  case (Suc n)
  have i: "index < curr_len" "rd (dl_list D) index = Some (dl_list D ! index)" using Suc.prems(1-3) by (simp_all add: rd_def)
  have stay: "disperse_loop h prev_len curr_len last_index D' (Suc index) = None"
    if "length (dl_list D') = curr_len" "dl_list D' ! j = dl_list D ! j" "j \<noteq> index" for D'
    using Suc.hyps(1) [of "Suc index" D'] Suc.hyps(2) Suc.prems that by simp
  show ?case
  proof (cases "words h (dl_list D ! index)")
    case None
    show ?thesis
    proof (cases "dl_list D ! index = 0")
      case True
      then have "j \<noteq> index" using Suc.prems(4) by auto
      then show ?thesis using True i stay [of D] Suc.prems(1) by (subst disperse_loop.simps) simp
    next
      case False
      then show ?thesis using i None by (subst disperse_loop.simps) simp
    qed
  next
    case (Some w)
    then have j: "j \<noteq> index" using Suc.prems(5) by auto
    let ?k = "wd_hash w mod curr_len" and ?x = "dl_list D ! index"
    let ?f = "first_free (dl_list D) ?k"
    have k: "?k \<le> length (dl_list D)" using i(1) Suc.prems(1) by (simp add: less_imp_le)
    have ins: "insert_slot (dl_list D) curr_len ?k ?x =
        Some (if ?f < length (dl_list D) then (dl_list D)[?f := ?x] else dl_list D, ?f)"
      using insert_slot_spec [OF k, of ?x] Suc.prems(1) by simp
    have "?f \<noteq> j" if "?f < length (dl_list D)" using first_free_empty [OF that] Suc.prems(4) by auto
    then have keep: "length (if ?f < length (dl_list D) then (dl_list D)[?f := ?x] else dl_list D) = curr_len"
        "(if ?f < length (dl_list D) then (dl_list D)[?f := ?x] else dl_list D) ! j = dl_list D ! j"
      using Suc.prems(1) by auto
    show ?thesis
      using i Some ins keep j by (subst disperse_loop.simps) (auto intro!: stay simp: Suc.prems(1))
  qed
qed

subsection \<open>Properties\<close>

text \<open>\<open>hash_function\<close> is the polynomial in 65599 of the signed characters of its string,
  reduced modulo \<open>2 ^ 32\<close> once at the end: the wrap-around in every step loses nothing, and the
  function never reads past the terminator.\<close>

theorem hash_function_polynomial:
  assumes "terminated s"
  shows "\<exists>u. hash_function s = Some u \<and>
    uint u = foldl (\<lambda>x c. x * 65599 + sint c) 0 (cstring s) mod 2 ^ 32"
  using hash_function_cstring [OF assms] uint_hash_fold [of 0 "cstring s"] by (simp add: hash_of_def)

theorem hash_function_polynomial_witness:
  "\<exists>u. hash_function [99, 200, 0, 5] = Some u \<and> uint u = (99 * 65599 - 56) mod 2 ^ 32"
  using hash_function_polynomial [of "[99, 200, 0, 5]"] by (simp add: terminated_def cstring_def)

text \<open>A heap with two words to evaluate examples with.\<close>

definition sample_word :: "bytes \<Rightarrow> struct_Word" where
  "sample_word s = \<lparr>wd_hash = unat (hash_of s), wd_str = Some (s @ [0]), wd_list = 0\<rparr>"

definition sample_words :: heap where
  "sample_words = \<lparr>links = Map.empty, words = [1 \<mapsto> sample_word [103], 2 \<mapsto> sample_word [100]], calls = 2\<rparr>"

lemma sample_words_ok:
  "word_ok sample_words 1" "word_ok sample_words 2" "key sample_words 1 = [103]" "key sample_words 2 = [100]"
  by (simp_all add: sample_words_def sample_word_def word_ok_def key_def cstring_def terminated_def DYN_SIZE_def)

lemma sample_homes: "home 4 [103] = 3" "home 4 [100] = 0" "home 8 [103] = 7" "home 8 [100] = 4" "home 4 [101] = 1"
  by (simp_all add: home_def hash_of_def HASH_MULTIPLIER_def)

lemma sample_homes_Suc:
  "home (Suc (Suc (Suc (Suc 0)))) [103] = 3" "home (Suc (Suc (Suc (Suc 0)))) [100] = 0"
  "home (Suc (Suc (Suc (Suc 0)))) [101] = 1"
  by (simp_all add: home_def hash_of_def HASH_MULTIPLIER_def)

lemma less_4: "i < Suc (Suc (Suc (Suc 0))) \<longleftrightarrow> i = 0 \<or> i = 1 \<or> i = 2 \<or> i = (3 :: nat)"
  by auto

lemma sample_table_ok:
  "table_ok sample_words \<lparr>dl_last_index = l, dl_phys_len = 4, dl_list = [0, 0, 0, 1]\<rparr>"
  "table_words \<lparr>dl_last_index = l, dl_phys_len = 4, dl_list = [0, 0, 0, 1]\<rparr> = {1}"
  using sample_words_ok sample_homes_Suc
  by (auto simp: table_ok_def table_words_def less_4 Let_def)

text \<open>C19. \<open>lookup\<close> decides membership: in a well-formed table with enough room it returns the word whose
  string is the argument, and NULL when there is none.\<close>

theorem lookup_decides_membership:
  assumes ok: "table_ok h D" and str: "terminated str"
    and room: "home (dl_phys_len D) (cstring str) + card (table_words D) < dl_phys_len D"
  shows "\<exists>a. lookup h D str (home (dl_phys_len D) (cstring str)) = Some a \<and>
    (a \<noteq> 0 \<longleftrightarrow> cstring str \<in> key h ` table_words D) \<and>
    (a \<noteq> 0 \<longrightarrow> a \<in> table_words D \<and> key h a = cstring str)"
proof -
  note n = table_ok_D(1) [OF ok]
  have "first_free (dl_list D) (home (length (dl_list D)) (cstring str)) < length (dl_list D)"
    using first_free_bound [OF ok room [unfolded n]] room unfolding n by simp
  then obtain a where a: "lookup h D str (home (dl_phys_len D) (cstring str)) = Some a"
      "if \<exists>b\<in>table_words D. key h b = cstring str then a \<in> table_words D \<and> key h a = cstring str else a = 0"
    using lookup_table [OF ok str] unfolding n by blast
  moreover have "a \<noteq> 0" if "a \<in> table_words D" using that by (simp add: table_words_def)
  moreover have "cstring str \<in> key h ` table_words D \<longleftrightarrow> (\<exists>b\<in>table_words D. key h b = cstring str)"
    by (metis imageE imageI)
  ultimately show ?thesis by (metis (full_types))
qed

definition sample_table :: "nat \<Rightarrow> struct_DynList" where
  "sample_table l = \<lparr>dl_last_index = l, dl_phys_len = 4, dl_list = [0, 0, 0, 1]\<rparr>"

lemma sample_table_fields:
  "dl_phys_len (sample_table l) = 4" "dl_list (sample_table l) = [0, 0, 0, 1]" "dl_last_index (sample_table l) = l"
  "table_ok sample_words (sample_table l)" "table_words (sample_table l) = {1}"
  using sample_table_ok [of l] by (simp_all add: sample_table_def)

lemma sample_strings: "terminated [c, 0]" "c \<noteq> 0 \<Longrightarrow> cstring [c, 0] = [c]"
  by (simp_all add: terminated_def cstring_def)

theorem lookup_decides_membership_witness:
  "lookup sample_words (sample_table 0) [101, 0] 1 = Some 0"
  using lookup_decides_membership [of sample_words "sample_table 0" "[101, 0]"]
  by (simp add: sample_table_fields sample_strings sample_homes sample_words_ok [unfolded One_nat_def])

text \<open>What a lookup finds in a table with one more word.\<close>

definition finds :: "heap \<Rightarrow> addr set \<Rightarrow> bytes \<Rightarrow> addr \<Rightarrow> bool" where
  "finds h W t r \<longleftrightarrow> (if \<exists>b\<in>W. key h b = t then r \<in> W \<and> key h r = t else r = 0)"

lemma finds_insert:
  assumes r: "finds h (insert a W) t r" and q: "finds h W t q" and new: "key h a \<notin> key h ` W" and inj: "inj_on (key h) W"
  shows "r = (if t = key h a then a else q)"
proof (cases "t = key h a")
  case True
  then have "r \<in> insert a W" "key h r = key h a" using r by (auto simp: finds_def split: if_splits)
  then show ?thesis using True new by (metis imageI insertE)
next
  case False
  then have "(\<exists>b\<in>insert a W. key h b = t) \<longleftrightarrow> (\<exists>b\<in>W. key h b = t)" by auto
  then have r': "finds h W t r" using r False by (auto simp: finds_def split: if_splits)
  then have "r = q" using q inj by (cases "\<exists>b\<in>W. key h b = t") (simp_all add: finds_def inj_on_def)
  then show ?thesis using False by simp
qed

text \<open>C18. An insertion without growth keeps the table well formed, and afterwards \<open>lookup\<close> finds the new word
  under its string and answers every other string as before.\<close>

theorem insert_then_lookup:
  assumes ok: "table_ok h D" and w: "word_ok h a" "a \<noteq> 0" and new: "key h a \<notin> key h ` table_words D"
    and room: "dl_last_index D < dl_phys_len D" and str: "terminated str"
    and fit: "home (dl_phys_len D) (key h a) + card (table_words D) < dl_phys_len D"
      "home (dl_phys_len D) (cstring str) + card (table_words D) + 1 < dl_phys_len D"
  shows "\<exists>D' r q. insert_DYNLIST A D a (home (dl_phys_len D) (key h a)) = Some (1, D') \<and> table_ok h D' \<and>
    lookup h D' str (home (dl_phys_len D) (cstring str)) = Some r \<and>
    lookup h D str (home (dl_phys_len D) (cstring str)) = Some q \<and>
    r = (if cstring str = key h a then a else q)"
proof -
  note n = table_ok_D(1) [OF ok]
  let ?n = "length (dl_list D)"
  have new': "\<forall>b\<in>table_words D. key h b \<noteq> key h a" using new by (metis imageI)
  have "first_free (dl_list D) (home ?n (key h a)) < ?n"
    using first_free_bound [OF ok, of "home ?n (key h a)"] fit(1) by (simp add: n)
  then obtain D' where D': "insert_DYNLIST A D a (home ?n (key h a)) = Some (1, D')" "table_ok h D'"
      "table_words D' = insert a (table_words D)" "length (dl_list D') = ?n"
    using insert_table [OF ok w new' room, of A] by blast
  have c: "card (table_words D') \<le> Suc (card (table_words D))" unfolding D'(3) by (rule card_insert_le_m1) simp_all
  have ff: "first_free (dl_list D') (home ?n (cstring str)) < ?n" "first_free (dl_list D) (home ?n (cstring str)) < ?n"
    using first_free_bound [OF D'(2), of "home ?n (cstring str)"] first_free_bound [OF ok, of "home ?n (cstring str)"]
      fit(2) c D'(4) by (simp_all add: n)
  obtain r where r: "lookup h D' str (home ?n (cstring str)) = Some r" "finds h (insert a (table_words D)) (cstring str) r"
    using lookup_table [OF D'(2) str] ff(1) D'(4) unfolding finds_def D'(3) by metis
  obtain q where q: "lookup h D str (home ?n (cstring str)) = Some q" "finds h (table_words D) (cstring str) q"
    using lookup_table [OF ok str] ff(2) unfolding finds_def by metis
  have "inj_on (key h) (table_words D)" using table_ok_D(6) [OF ok] table_words_iff by (intro inj_onI) metis
  then have "r = (if cstring str = key h a then a else q)" by (rule finds_insert [OF r(2) q(2) new])
  then show ?thesis using D'(1,2) r(1) q(1) unfolding n by blast
qed

theorem insert_then_lookup_witness:
  "\<exists>D'. insert_DYNLIST sample_alloc (sample_table 0) 2 0 = Some (1, D') \<and>
    lookup sample_words D' [100, 0] 0 = Some 2"
  using insert_then_lookup [of sample_words "sample_table 0" 2 "[100, 0]" sample_alloc]
  by (auto simp: sample_table_fields sample_strings sample_homes sample_words_ok sample_words_ok [unfolded One_nat_def])

text \<open>C17. Growth hides words. The table doubles as soon as \<open>last_index\<close> has reached its length, which one word
  in the last slot is enough for; \<open>disperse_keys\<close> then looks only at the new half, which holds what \<open>tc_realloc\<close> left there. If that is
  zero, a word of the old table whose home in the doubled table lies in the new half is still stored, but \<open>lookup\<close> reports it absent.
  If any slot of the new half holds a stray value, one that is not the address of a word, \<open>disperse_keys\<close> reads through it, which is
  undefined.\<close>

theorem growth_hides_words:
  assumes ok: "table_ok h D" and full: "dl_phys_len D \<le> dl_last_index D" and A: "realloc_ok A"
    and i: "i < dl_phys_len D" "first_free (dl_list D) i < dl_phys_len D" and a: "a \<noteq> 0"
    and b: "b \<in> table_words D" "dl_phys_len D \<le> home (2 * dl_phys_len D) (key h b)"
    and str: "terminated str" "cstring str = key h b"
  shows "\<exists>new D1. tc_realloc A (dl_list D) (dl_phys_len D * 2) = Some (dl_list D @ new) \<and> length new = dl_phys_len D \<and>
    insert_DYNLIST A D a i = Some (2, D1) \<and> dl_phys_len D1 = 2 * dl_phys_len D \<and> b \<in> table_words D1 \<and>
    (if \<forall>x\<in>set new. x = 0
     then disperse_keys h D1 = Some D1 \<and> lookup h D1 str (home (2 * dl_phys_len D) (cstring str)) = Some 0
     else (\<exists>x\<in>set new. x \<noteq> 0 \<and> words h x = None) \<longrightarrow> disperse_keys h D1 = None)"
proof -
  note n = table_ok_D(1) [OF ok]
  let ?n = "length (dl_list D)" and ?f = "first_free (dl_list D) i"
  obtain ys where ys: "tc_realloc A (dl_list D) (?n * 2) = Some ys" "length ys = ?n * 2" "take ?n ys = dl_list D"
    using A unfolding realloc_ok_def by (metis le_add1 mult_2_right)
  define new where "new = drop ?n ys"
  have new: "tc_realloc A (dl_list D) (dl_phys_len D * 2) = Some (dl_list D @ new)" "length new = dl_phys_len D"
    using ys append_take_drop_id [of ?n ys] by (simp_all add: new_def n)
  let ?S = "(dl_list D)[?f := a] @ new"
  obtain l where ins: "insert_DYNLIST A D a i = Some (2, \<lparr>dl_last_index = l, dl_phys_len = 2 * ?n, dl_list = ?S\<rparr>)"
    using insert_growth [OF n full new] i unfolding n by blast
  let ?D = "\<lparr>dl_last_index = l, dl_phys_len = 2 * ?n, dl_list = ?S\<rparr>"
  have zero: "dl_list D ! ?f = 0" using i(2) unfolding n by (rule first_free_empty)
  have "table_words (D\<lparr>dl_list := (dl_list D)[?f := a], dl_last_index := l\<rparr>) = insert a (table_words D)"
    using i(2) zero a unfolding n by (rule table_words_update)
  then have still: "b \<in> table_words ?D" using b(1) by (auto simp: table_words_def)
  have home: "home (2 * ?n) (key h b) < 2 * ?n" using table_ok_D(2) [OF ok] by (intro home_less) simp
  have hid: "disperse_keys h ?D = Some ?D \<and> lookup h ?D str (home (2 * ?n) (cstring str)) = Some 0" if "\<forall>x\<in>set new. x = 0"
  proof -
    have r: "new = replicate ?n 0" using that new(2) n by (simp add: replicate_eqI)
    then have "disperse_keys h ?D = Some ?D"
      by (intro disperse_after_growth [of _ ?n "(dl_list D)[?f := a]"]) simp_all
    moreover have "dl_list ?D ! home (2 * ?n) (key h b) = 0" using b(2) home r unfolding n by (simp add: nth_append)
    ultimately show ?thesis using home new(2) n by (simp add: str(2) lookup_def rd_def)
  qed
  have stray: "disperse_keys h ?D = None" if x: "x \<in> set new" "x \<noteq> 0" "words h x = None" for x
  proof -
    obtain j where j: "j < ?n" "new ! j = x" using x(1) new(2) unfolding n in_set_conv_nth by auto
    then have "dl_list ?D ! (?n + j) = x" by (simp add: nth_append)
    then show ?thesis unfolding disperse_keys_def Let_def
      using x(2,3) j new(2) n by (intro disperse_loop_stray [of _ _ _ "?n + j"]) simp_all
  qed
  show ?thesis
    using new ins still hid stray unfolding n by (intro exI [of _ new] exI [of _ ?D]) auto
qed

theorem growth_hides_words_witness:
  "\<exists>D1. insert_DYNLIST sample_alloc (sample_table 4) 2 0 = Some (2, D1) \<and> disperse_keys sample_words D1 = Some D1 \<and>
    dl_phys_len D1 = 8 \<and> 1 \<in> table_words D1 \<and> lookup sample_words D1 [103, 0] 7 = Some 0"
proof -
  have t: "dl_phys_len (sample_table 4) = 4" "dl_list (sample_table 4) = [0, 0, 0, 1]" "cstring [103, 0] = [103 :: byte]"
    by (simp_all add: sample_table_fields sample_strings)
  have hyps: "table_ok sample_words (sample_table 4)" "dl_phys_len (sample_table 4) \<le> dl_last_index (sample_table 4)"
      "realloc_ok sample_alloc" "0 < dl_phys_len (sample_table 4)" "first_free (dl_list (sample_table 4)) 0 < dl_phys_len (sample_table 4)"
      "(2 :: addr) \<noteq> 0" "1 \<in> table_words (sample_table 4)" "dl_phys_len (sample_table 4) \<le> home (2 * dl_phys_len (sample_table 4)) (key sample_words 1)"
      "terminated [103, 0]" "cstring [103, 0] = key sample_words 1"
    by (simp_all add: sample_table_fields sample_strings sample_homes sample_words_ok sample_alloc_ok first_free_def
        sample_words_ok [unfolded One_nat_def])
  have h: "2 * 4 = (8 :: nat)" "4 * 2 = (8 :: nat)" "home 8 [103] = 7" by (simp_all add: sample_homes)
  obtain new D1 where g: "tc_realloc sample_alloc [0, 0, 0, 1] 8 = Some ([0, 0, 0, 1] @ new)"
      "insert_DYNLIST sample_alloc (sample_table 4) 2 0 = Some (2, D1)" "dl_phys_len D1 = 8" "1 \<in> table_words D1"
      "if \<forall>x\<in>set new. x = 0 then disperse_keys sample_words D1 = Some D1 \<and> lookup sample_words D1 [103, 0] 7 = Some 0
       else (\<exists>x\<in>set new. x \<noteq> 0 \<and> words sample_words x = None) \<longrightarrow> disperse_keys sample_words D1 = None"
    using growth_hides_words [OF hyps] unfolding t h by (elim exE conjE) (rule that)
  have "new = [0, 0, 0, 0]" using g(1) by (simp add: sample_alloc_def numeral_eq_Suc)
  then have "\<forall>x\<in>set new. x = 0" by simp
  with g(5) have "disperse_keys sample_words D1 = Some D1 \<and> lookup sample_words D1 [103, 0] 7 = Some 0" by (simp only: if_P)
  then show ?thesis using g(2-4) by (intro exI [of _ D1] conjI) simp_all
qed

text \<open>Probing does not wrap around: when every slot from the index on is taken, \<open>insert\<close> stores nothing and still
  returns 1, and \<open>last_index\<close> ends up past the table.\<close>

theorem insert_drops_word:
  assumes "dl_phys_len D = length (dl_list D)" and "dl_last_index D < dl_phys_len D"
    and "i < dl_phys_len D" and "first_free (dl_list D) i = dl_phys_len D"
  shows "insert_DYNLIST A D a i = Some (1, D\<lparr>dl_last_index := dl_phys_len D + 1\<rparr>)"
  using assms by (rule insert_full_run)

theorem insert_drops_word_witness:
  "insert_DYNLIST sample_alloc \<lparr>dl_last_index = 0, dl_phys_len = 4, dl_list = [0, 0, 0, 1]\<rparr> 2 3 =
    Some (1, \<lparr>dl_last_index = 5, dl_phys_len = 4, dl_list = [0, 0, 0, 1]\<rparr>)"
  using insert_drops_word [of "\<lparr>dl_last_index = 0, dl_phys_len = 4, dl_list = [0, 0, 0, 1]\<rparr>" 3 sample_alloc 2]
  by (simp add: first_free_def)

text \<open>\<open>lookup\<close> of an absent string whose run of taken slots reaches the end of the table reads the slot after the
  last one, outside the array.\<close>

theorem lookup_reads_past_end:
  assumes "table_ok h D" and "terminated str" and "i < length (dl_list D)"
    and "first_free (dl_list D) i = length (dl_list D)"
    and "\<forall>b\<in>table_words D. key h b \<noteq> cstring str"
  shows "lookup h D str i = None"
  using assms by (rule lookup_run_out)

theorem lookup_reads_past_end_witness:
  "lookup sample_words \<lparr>dl_last_index = 4, dl_phys_len = 4, dl_list = [0, 0, 0, 1]\<rparr> [107, 0] 3 = None"
  using lookup_reads_past_end [OF sample_table_ok(1), of "[107, 0]" 3 4] sample_table_ok(2) [of 4] sample_words_ok
  by (simp add: sample_strings first_free_def)

end
