(* ===== verification/Inverted_Index.thy ===== *)
theory Inverted_Index
  imports Hash_Table
begin

section \<open>Building the inverted index (server.c)\<close>

text \<open>
  \<open>parse\<close>, \<open>tokenizer\<close> and \<open>read_dir\<close> of \<open>server.c\<close>: the lines of every regular file of a
  directory are cut into words, and for each word the table gets or extends the posting of
  the current document. The abstract index is a map from words to posting lists. The main
  lemmas are refinements: the C step for one word is \<open>index_add\<close>, \<open>parse\<close> on one line
  is the fold of it over the words of the line, and \<open>tokenizer\<close> and \<open>read_dir\<close> are the folds
  over lines and files. The files of the directory and what \<open>readdir\<close> returns are
  parameters.
\<close>

subsection \<open>Constants\<close>

definition MAX_WORD_LEN :: nat where "MAX_WORD_LEN = 2048"
definition MAX_PATH_LEN :: nat where "MAX_PATH_LEN = 4096"
definition DOCSIZE :: nat where "DOCSIZE = 10"
definition EXTEND :: int where "EXTEND = 2"

subsection \<open>One word\<close>

text \<open>
  The two branches of the loop body of \<open>parse\<close> after \<open>lookup\<close>. The first component of a
  result is the value of an early \<open>return\<close>, if there is one.
\<close>

definition extend_word :: "allocator \<Rightarrow> heap \<Rightarrow> addr \<Rightarrow> nat \<Rightarrow> nat \<Rightarrow> (int option \<times> heap) option" where
  "extend_word A h item docId line_num = do {
     w \<leftarrow> words h item;
     linklist \<leftarrow> lookup_link h (wd_list w) docId;
     if linklist \<noteq> 0 then do {
       n \<leftarrow> links h linklist;
       (ret, n') \<leftarrow> insert_LINKLIST A n line_num (ll_last_index n);
       Some (if ret = 0 then Some (-1) else None, h\<lparr>links := (links h)(linklist \<mapsto> n')\<rparr>)
     }
     else do {
       (doc, h1) \<leftarrow> create_link A h docId;
       n \<leftarrow> links h1 doc;
       (ret, n') \<leftarrow> insert_LINKLIST A n line_num (ll_last_index n);
       let h2 = h1\<lparr>links := (links h1)(doc \<mapsto> n')\<rparr>;
       if ret = 0 then Some (Some (-1), h2)
       else do {
         (head, h3) \<leftarrow> insert_link h2 (wd_list w) doc;
         Some (None, h3\<lparr>words := (words h3)(item \<mapsto> w\<lparr>wd_list := head\<rparr>)\<rparr>)
       }
     }
   }"

definition new_word ::
  "allocator \<Rightarrow> struct_DynList \<Rightarrow> heap \<Rightarrow> bytes \<Rightarrow> nat \<Rightarrow> nat \<Rightarrow> nat \<Rightarrow> nat \<Rightarrow> nat \<Rightarrow>
    (struct_DynList \<times> heap) option" where
  "new_word A D h start str_len tmp hash docId line_num = do {
     let (word, h1) = create_word A h;
     w \<leftarrow> (if word = 0 then None else words h1 word);
     let p = new_addr A (calls h1);
     let obj = (if p = 0 then None else Some (map (junk A) [0..<str_len + 1]));
     let h2 = h1\<lparr>calls := calls h1 + 1\<rparr>;
     (_, str) \<leftarrow> StrCopy obj (Some start) MAX_WORD_LEN;
     (doc, h3) \<leftarrow> create_link A h2 docId;
     n \<leftarrow> links h3 doc;
     (_, n') \<leftarrow> insert_LINKLIST A n line_num (ll_last_index n);
     (head, h4) \<leftarrow> insert_link (h3\<lparr>links := (links h3)(doc \<mapsto> n')\<rparr>) (wd_list w) doc;
     let h5 = h4\<lparr>words := (words h4)(word \<mapsto> w\<lparr>wd_hash := tmp, wd_str := Some str, wd_list := head\<rparr>)\<rparr>;
     (ret, D') \<leftarrow> insert_DYNLIST A D word hash;
     D'' \<leftarrow> (if ret = EXTEND then disperse_keys h5 D' else Some D');
     Some (D'', h5)
   }"

definition index_word ::
  "allocator \<Rightarrow> struct_DynList \<Rightarrow> heap \<Rightarrow> bytes \<Rightarrow> nat \<Rightarrow> nat \<Rightarrow>
    (int option \<times> struct_DynList \<times> heap) option" where
  "index_word A D h start docId line_num = do {
     str_len \<leftarrow> StrGetLength (Some start) MAX_WORD_LEN;
     u \<leftarrow> hash_function start;
     let tmp = unat u;
     if dl_phys_len D = 0 then None
     else do {
       let hash = tmp mod dl_phys_len D;
       item \<leftarrow> lookup h D start hash;
       if item \<noteq> 0 then do {
         (r, h') \<leftarrow> extend_word A h item docId line_num;
         Some (r, D, h')
       }
       else do {
         (D', h') \<leftarrow> new_word A D h start str_len tmp hash docId line_num;
         Some (None, D', h')
       }
     }
   }"

subsection \<open>parse\<close>

text \<open>The loop of \<open>parse\<close>; a pointer into \<open>buf\<close> is an offset.\<close>

partial_function (option) parse_loop ::
  "allocator \<Rightarrow> nat \<Rightarrow> nat \<Rightarrow> nat \<Rightarrow> struct_DynList \<Rightarrow> heap \<Rightarrow> bytes \<Rightarrow> nat \<Rightarrow> nat \<Rightarrow>
    (int \<times> struct_DynList \<times> heap \<times> bytes) option" where
  "parse_loop A max_len docId line_num D h buf ptr index =
     (if index < max_len
      then do {
        c \<leftarrow> rd buf ptr;
        if c \<noteq> 0
        then do {
          (start, index1) \<leftarrow> StrStrip buf ptr (size_sub max_len index) index;
          c1 \<leftarrow> rd buf start;
          if c1 = 0 then Some (1, D, h, buf)
          else do {
            let len = size_sub max_len index1;
            (ptr2, index2) \<leftarrow> StrTok buf start len index1;
            c2 \<leftarrow> rd buf ptr2;
            (buf', ptr3, index3) \<leftarrow>
              (if c2 \<noteq> 0 then StrSplit buf ptr2 len index2 else Some (buf, ptr2, index2));
            (r, D', h') \<leftarrow> index_word A D h (drop start buf') docId line_num;
            (case r of
               Some ret \<Rightarrow> Some (ret, D', h', buf')
             | None \<Rightarrow> parse_loop A max_len docId line_num D' h' buf' ptr3 index3)
          }
        }
        else Some (1, D, h, buf)
      }
      else Some (1, D, h, buf))"

text \<open>\<open>dynlist\<close> or \<open>buf\<close> may be NULL, which \<open>parse\<close> reports.\<close>

definition parse ::
  "allocator \<Rightarrow> struct_DynList option \<Rightarrow> heap \<Rightarrow> cptr \<Rightarrow> nat \<Rightarrow> nat \<Rightarrow> nat \<Rightarrow>
    (int \<times> struct_DynList option \<times> heap \<times> cptr) option" where
  "parse A dynlist h buf max_len docId line_num =
     (case (dynlist, buf) of
        (Some D, Some b) \<Rightarrow> do {
          (ret, D', h', b') \<leftarrow> parse_loop A max_len docId line_num D h b 0 0;
          Some (ret, Some D', h', Some b')
        }
      | _ \<Rightarrow> Some (-1, dynlist, h, buf))"

subsection \<open>The abstract index\<close>

type_synonym index = "bytes \<Rightarrow> posting list option"

text \<open>
  Adding line \<open>l\<close> of document \<open>d\<close>: appended to the lines of \<open>d\<close> if it has any,
  otherwise a new posting in front.
\<close>

definition post_add :: "nat \<Rightarrow> nat \<Rightarrow> posting list \<Rightarrow> posting list" where
  "post_add d l ps =
     (if d \<in> fst ` set ps
      then map (\<lambda>(e, ls). if e = d then (e, ls @ [l]) else (e, ls)) ps
      else (d, [l]) # ps)"

definition index_add :: "nat \<Rightarrow> nat \<Rightarrow> bytes \<Rightarrow> index \<Rightarrow> index" where
  "index_add d l t idx = idx(t \<mapsto> post_add d l (case idx t of None \<Rightarrow> [] | Some ps \<Rightarrow> ps))"

lemma dom_index_add [simp]: "dom (index_add d l t idx) = insert t (dom idx)"
  by (simp add: index_add_def)

text \<open>
  What a table and a heap represent. \<open>P\<close> gives the nodes of each word's chain; chains of
  different words are disjoint, and every object was returned by an allocator call
  already made.
\<close>

definition index_rep ::
  "allocator \<Rightarrow> struct_DynList \<Rightarrow> heap \<Rightarrow> (addr \<Rightarrow> addr list) \<Rightarrow> index \<Rightarrow> bool" where
  "index_rep A D h P idx \<longleftrightarrow>
     alloc_ok A \<and> realloc_ok A \<and> table_ok h D \<and> dl_last_index D < dl_phys_len D \<and>
     (\<forall>a\<in>table_words D. \<exists>w. words h a = Some w \<and> chain h (wd_list w) (P a) \<and>
        idx (key h a) = Some (map (posting_at h) (P a))) \<and>
     dom idx = key h ` table_words D \<and>
     (\<forall>a\<in>table_words D. \<forall>b\<in>table_words D. a \<noteq> b \<longrightarrow> set (P a) \<inter> set (P b) = {}) \<and>
     (\<forall>a\<in>table_words D. insert a (set (P a)) \<subseteq> new_addr A ` {..<calls h})"

lemma index_rep_D:
  assumes "index_rep A D h P idx"
  shows "alloc_ok A" and "realloc_ok A" and "table_ok h D" and "dl_last_index D < dl_phys_len D"
    and "\<And>a. a \<in> table_words D \<Longrightarrow> \<exists>w. words h a = Some w \<and> chain h (wd_list w) (P a) \<and>
           idx (key h a) = Some (map (posting_at h) (P a))"
    and "dom idx = key h ` table_words D"
    and "\<And>a b. a \<in> table_words D \<Longrightarrow> b \<in> table_words D \<Longrightarrow> a \<noteq> b \<Longrightarrow> set (P a) \<inter> set (P b) = {}"
    and "\<And>a b. a \<in> table_words D \<Longrightarrow> b = a \<or> b \<in> set (P a) \<Longrightarrow> b \<in> new_addr A ` {..<calls h}"
  using assms unfolding index_rep_def by blast+

lemma key_inj: "table_ok h D \<Longrightarrow> inj_on (key h) (table_words D)"
  by (rule inj_onI) (metis table_ok_D(6) table_words_iff)

lemma index_rep_card:
  assumes "index_rep A D h P idx"
  shows "card (dom idx) = card (table_words D)" and "finite (dom idx)"
  using index_rep_D(3,6) [OF assms] key_inj [of h D] by (simp_all add: card_image)

lemma new_addr_nonnull: "alloc_ok A \<Longrightarrow> new_addr A k \<noteq> 0"
  by (simp add: alloc_ok_def)

lemma new_addr_fresh:
  "alloc_ok A \<Longrightarrow> k \<le> m \<Longrightarrow> new_addr A m \<notin> new_addr A ` {..<k}"
  unfolding alloc_ok_def by (metis imageE injD lessThan_iff not_less)

lemma post_add_map:
  assumes "distinct (map (doc h) as)"
  shows "c \<in> set as \<Longrightarrow>
      map (\<lambda>b. if b = c then (doc h c, node_lines (the (links h c)) @ [l]) else posting_at h b) as =
      post_add (doc h c) l (map (posting_at h) as)"
    and "d \<notin> doc h ` set as \<Longrightarrow>
      (d, [l]) # map (posting_at h) as = post_add d l (map (posting_at h) as)"
proof -
  assume c: "c \<in> set as"
  have "b = c" if "b \<in> set as" "doc h b = doc h c" for b
    using assms c that by (auto simp: distinct_map inj_on_def)
  moreover have "doc h c \<in> fst ` set (map (posting_at h) as)"
    using c by (force simp: posting_at_def)
  ultimately show "map (\<lambda>b. if b = c then (doc h c, node_lines (the (links h c)) @ [l]) else posting_at h b) as =
      post_add (doc h c) l (map (posting_at h) as)"
    using c by (auto simp: post_add_def posting_at_def)
next
  assume "d \<notin> doc h ` set as"
  then show "(d, [l]) # map (posting_at h) as = post_add d l (map (posting_at h) as)"
    by (auto simp: post_add_def posting_at_def)
qed

text \<open>The three calls that make a posting with one line.\<close>

lemma create_link_ok:
  fixes h :: heap
  assumes "alloc_ok A"
  defines "c \<equiv> new_addr A (calls h)"
  shows "\<exists>n. create_link A h d = Some (c, h\<lparr>links := (links h)(c \<mapsto> n), calls := calls h + 2\<rparr>) \<and>
    node_ok n \<and> ll_val n = d \<and> node_lines n = [] \<and> ll_last_index n = 0"
  using assms
  by (intro exI [of _ "\<lparr>ll_val = d, ll_list = replicate LIST_SIZE 0, ll_list_len = LIST_SIZE,
      ll_last_index = 0, ll_next = 0\<rparr>"])
    (simp add: create_link_def new_addr_nonnull node_ok_def node_lines_def Let_def LIST_SIZE_def)

lemma insert_link_ok:
  "links h c = Some n \<Longrightarrow>
    insert_link h p c = Some (c, h\<lparr>links := (links h)(c \<mapsto> n\<lparr>ll_next := p\<rparr>)\<rparr>)"
  by (simp add: insert_link_def)

text \<open>\<open>extend_word\<close> on the chain of one word.\<close>

lemma extend_word_chain:
  assumes "alloc_ok A" and "realloc_ok A" and "words h a = Some w" and "chain h (wd_list w) as"
    and "new_addr A (calls h) \<notin> set as"
  shows "\<exists>h' p as'. extend_word A h a d l = Some (None, h') \<and>
    words h' = (words h)(a \<mapsto> w\<lparr>wd_list := p\<rparr>) \<and> chain h' p as' \<and>
    map (posting_at h') as' = post_add d l (map (posting_at h) as) \<and>
    calls h \<le> calls h' \<and> set as' \<subseteq> set as \<union> new_addr A ` {calls h..<calls h'} \<and>
    (\<forall>b. b \<notin> set as' \<longrightarrow> links h' b = links h b)"
proof (cases "find (\<lambda>b. doc h b = d) as")
  case (Some c)
  then have c: "c \<in> set as" "doc h c = d" by (auto simp: find_Some_iff)
  then obtain n where n: "links h c = Some n" "node_ok n" "c \<noteq> 0"
    using assms(4) linked_nodes [of "link_next h" "wd_list w" as c] by (auto simp: chain_def)
  obtain n' where n': "insert_LINKLIST A n l (ll_last_index n) = Some (1, n')" "node_ok n'"
      "node_lines n' = node_lines n @ [l]" "ll_val n' = ll_val n" "ll_next n' = ll_next n"
    using insert_LINKLIST_append [OF n(2) assms(2)] by blast
  let ?h = "h\<lparr>links := (links h)(c \<mapsto> n')\<rparr>"
  have "extend_word A h a d l = Some (None, ?h)"
    using assms(3) lookup_link_chain [OF assms(4), of d] Some n n'(1) by (simp add: extend_word_def)
  moreover note chain_rewrite [OF assms(4) c(1) n(1) n'(2,4,5)]
  moreover have "map (\<lambda>b. if b = c then (ll_val n, node_lines n') else posting_at h b) as =
      post_add d l (map (posting_at h) as)"
  proof -
    have "distinct (map (doc h) as)" using assms(4) by (simp add: chain_def)
    moreover have e: "the (links h c) = n" and v: "ll_val n = d"
      using n(1) c(2) by (simp_all add: doc_def)
    ultimately show ?thesis
      using post_add_map(1) [of h as c l] c(1) unfolding c(2) n'(3) v e by simp
  qed
  moreover have "words ?h = (words h)(a \<mapsto> w\<lparr>wd_list := wd_list w\<rparr>)"
    using assms(3) by (auto simp: fun_eq_iff)
  ultimately show ?thesis
    using c(1) by (intro exI [of _ ?h] exI [of _ "wd_list w"] exI [of _ as]) auto
next
  case None
  then have d: "d \<notin> doc h ` set as" by (auto simp: find_None_iff)
  let ?c = "new_addr A (calls h)"
  obtain n where n: "create_link A h d = Some (?c, h\<lparr>links := (links h)(?c \<mapsto> n), calls := calls h + 2\<rparr>)"
      "node_ok n" "ll_val n = d" "node_lines n = []" "ll_last_index n = 0"
    using create_link_ok [OF assms(1)] by blast
  obtain n' where n': "insert_LINKLIST A n l (ll_last_index n) = Some (1, n')" "node_ok n'"
      "node_lines n' = node_lines n @ [l]" "ll_val n' = ll_val n" "ll_next n' = ll_next n"
    using insert_LINKLIST_append [OF n(2) assms(2)] by blast
  let ?n = "n'\<lparr>ll_next := wd_list w\<rparr>"
  let ?g = "h\<lparr>links := (links h)(?c \<mapsto> ?n)\<rparr>"
  let ?h = "?g\<lparr>words := (words h)(a \<mapsto> w\<lparr>wd_list := ?c\<rparr>), calls := calls h + 2\<rparr>"
  have step: "extend_word A h a d l = Some (None, ?h)"
    using assms(3) lookup_link_chain [OF assms(4), of d] None n n'(1)
    by (simp add: extend_word_def insert_link_def)
  have c0: "?c \<noteq> 0" using assms(1) by (rule new_addr_nonnull)
  have n0: "node_ok ?n" "ll_next ?n = wd_list w" "ll_val ?n = d" "node_lines ?n = [l]"
    using n n' by (simp_all add: node_ok_def node_lines_def)
  have fresh: "ll_val ?n \<notin> doc h ` set as" unfolding n0(3) by (rule d)
  have "distinct (map (doc h) as)" using assms(4) by (simp add: chain_def)
  then have "(d, [l]) # map (posting_at h) as = post_add d l (map (posting_at h) as)"
    using d by (rule post_add_map(2))
  with chain_push [OF assms(4,5) c0 n0(1,2) fresh]
  have "chain ?g ?c (?c # as)"
      "map (posting_at ?g) (?c # as) = post_add d l (map (posting_at h) as)"
    unfolding n0(3,4) by metis+
  moreover have "chain ?h ?c (?c # as) = chain ?g ?c (?c # as)"
      "map (posting_at ?h) (?c # as) = map (posting_at ?g) (?c # as)"
    by (rule chain_cong postings_cong, simp)+
  moreover have "?c \<in> new_addr A ` {calls h..<calls ?h}" by simp
  ultimately show ?thesis
    using step by (intro exI [of _ ?h] exI [of _ ?c] exI [of _ "?c # as"]) auto
qed

text \<open>Changing only the chain of one word changes no key.\<close>

lemma word_frame:
  assumes "words h' = (words h)(a \<mapsto> w\<lparr>wd_list := p\<rparr>)" and "words h a = Some w"
  shows "key h' b = key h b" and "word_ok h' b = word_ok h b"
  using assms by (auto simp: key_def word_ok_def)

lemma old_addr_disjoint:
  assumes "alloc_ok A" and "S \<subseteq> new_addr A ` {..<k}"
  shows "S \<inter> new_addr A ` {k..<m} = {}"
proof -
  have "new_addr A ` {..<k} \<inter> new_addr A ` {k..<m} = new_addr A ` ({..<k} \<inter> {k..<m})"
    using assms(1) by (intro image_Int [symmetric]) (simp add: alloc_ok_def)
  also have "{..<k} \<inter> {k..<m} = {}" by auto
  finally show ?thesis using assms(2) by blast
qed

lemma index_rep_extend:
  assumes rep: "index_rep A D h P idx" and a: "a \<in> table_words D"
  shows "\<exists>h' P'. extend_word A h a d l = Some (None, h') \<and>
    index_rep A D h' P' (index_add d l (key h a) idx)"
proof -
  note R = index_rep_D [OF rep]
  obtain w where w: "words h a = Some w" "chain h (wd_list w) (P a)"
      "idx (key h a) = Some (map (posting_at h) (P a))"
    using R(5) [OF a] by blast
  have old: "insert b (set (P b)) \<subseteq> new_addr A ` {..<calls h}" if "b \<in> table_words D" for b
    using R(8) [OF that] by blast
  have "new_addr A (calls h) \<notin> set (P a)"
    using old [OF a] new_addr_fresh [OF R(1), of "calls h" "calls h"] by blast
  then obtain h' p as' where step: "extend_word A h a d l = Some (None, h')"
    and wds: "words h' = (words h)(a \<mapsto> w\<lparr>wd_list := p\<rparr>)" and ch: "chain h' p as'"
    and post: "map (posting_at h') as' = post_add d l (map (posting_at h) (P a))"
    and calls: "calls h \<le> calls h'"
    and nodes: "set as' \<subseteq> set (P a) \<union> new_addr A ` {calls h..<calls h'}"
    and frame: "\<forall>b. b \<notin> set as' \<longrightarrow> links h' b = links h b"
    using extend_word_chain [OF R(1,2) w(1,2), of d l] by blast
  note K = word_frame [OF wds w(1)]
  let ?P = "P(a := as')" and ?idx = "index_add d l (key h a) idx"
  have sep: "set (P b) \<inter> set as' = {}" if "b \<in> table_words D" "b \<noteq> a" for b
  proof -
    have "set (P b) \<inter> set (P a) = {}" using R(7) that a by simp
    moreover have "set (P b) \<inter> new_addr A ` {calls h..<calls h'} = {}"
      using old_addr_disjoint [OF R(1)] old [OF that(1)] by simp
    ultimately show ?thesis using nodes by blast
  qed
  have entry: "\<exists>v. words h' b = Some v \<and> chain h' (wd_list v) (?P b) \<and>
      ?idx (key h' b) = Some (map (posting_at h') (?P b))" if b: "b \<in> table_words D" for b
  proof (cases "b = a")
    case True
    then show ?thesis using wds ch post w(3) K(1) by (simp add: index_add_def)
  next
    case False
    obtain v where v: "words h b = Some v" "chain h (wd_list v) (P b)"
        "idx (key h b) = Some (map (posting_at h) (P b))"
      using R(5) [OF b] by blast
    have same: "links h c = links h' c" if "c \<in> set (P b)" for c
      using frame sep [OF b False] that by (metis IntI empty_iff)
    have "key h b \<noteq> key h a"
      using key_inj [OF R(3)] a b False by (metis inj_onD)
    with v False wds chain_cong [OF same] postings_cong [OF same] K(1) show ?thesis
      by (simp add: index_add_def)
  qed
  have grow: "new_addr A ` {..<calls h} \<union> new_addr A ` {calls h..<calls h'} = new_addr A ` {..<calls h'}"
    using calls by (simp add: image_Un [symmetric] ivl_disj_un)
  have "table_ok h' D" using table_ok_frame [OF R(3)] K R(3) table_ok_D(3) by blast
  moreover have "dom ?idx = key h' ` table_words D"
    using R(6) a K(1) by (simp add: insert_absorb)
  moreover have "set (?P b) \<inter> set (?P c) = {}" if "b \<in> table_words D" "c \<in> table_words D" "b \<noteq> c" for b c
    using that sep [of b] sep [of c] R(7) [of b c] by auto
  moreover have "insert b (set (?P b)) \<subseteq> new_addr A ` {..<calls h'}" if "b \<in> table_words D" for b
  proof -
    have "set as' \<subseteq> new_addr A ` {..<calls h'}" using nodes old [OF a] grow by blast
    moreover have "insert b (set (P b)) \<subseteq> new_addr A ` {..<calls h'}" using old [OF that] grow by blast
    ultimately show ?thesis by simp
  qed
  ultimately have "index_rep A D h' ?P ?idx"
    using R(1,2,4) entry unfolding index_rep_def by blast
  with step show ?thesis by blast
qed

text \<open>\<open>new_word\<close>: the heap it leaves, and the table.\<close>

lemma new_word_heap:
  fixes h :: heap
  assumes "alloc_ok A" and "realloc_ok A" and "terminated start"
    and "length (cstring start) < MAX_WORD_LEN"
  defines "a \<equiv> new_addr A (calls h)" and "c \<equiv> new_addr A (calls h + 2)"
  shows "\<exists>n. node_ok n \<and> ll_val n = d \<and> node_lines n = [l] \<and> ll_next n = 0 \<and>
    new_word A D h start (length (cstring start)) tmp hash d l =
      (let h' = h\<lparr>links := (links h)(c \<mapsto> n),
           words := (words h)(a \<mapsto> \<lparr>wd_hash = tmp, wd_str = Some (cstring start @ [0]), wd_list = c\<rparr>),
           calls := calls h + 4\<rparr>
       in do {
         (ret, D') \<leftarrow> insert_DYNLIST A D a hash;
         D'' \<leftarrow> (if ret = EXTEND then disperse_keys h' D' else Some D');
         Some (D'', h')
       })"
proof -
  let ?h = "h\<lparr>words := (words h)(a \<mapsto> \<lparr>wd_hash = 0, wd_str = None, wd_list = 0\<rparr>), calls := calls h + 2\<rparr>"
  obtain n where n: "create_link A ?h d = Some (c, ?h\<lparr>links := (links ?h)(c \<mapsto> n), calls := calls ?h + 2\<rparr>)"
      "node_ok n" "ll_val n = d" "node_lines n = []" "ll_last_index n = 0"
    using create_link_ok [OF assms(1), of ?h d] by (auto simp: c_def)
  obtain n' where n': "insert_LINKLIST A n l (ll_last_index n) = Some (1, n')" "node_ok n'"
      "node_lines n' = node_lines n @ [l]" "ll_val n' = ll_val n" "ll_next n' = ll_next n"
    using insert_LINKLIST_append [OF n(2) assms(2)] by blast
  let ?obj = "map (junk A) [0..<length (cstring start) + 1]"
  have copy: "StrCopy (Some ?obj) (Some start) MAX_WORD_LEN = Some (True, cstring start @ [0])"
    using StrCopy_cstring [OF assms(3,4), of ?obj] by simp
  let ?n = "n'\<lparr>ll_next := 0\<rparr>"
  have "node_ok ?n" "ll_val ?n = d" "node_lines ?n = [l]" "ll_next ?n = 0"
    using n n' by (simp_all add: node_ok_def node_lines_def)
  moreover have "a \<noteq> 0" "new_addr A (calls h + 1) \<noteq> 0"
    using new_addr_nonnull [OF assms(1)] by (simp_all add: a_def)
  ultimately show ?thesis
    using n(1) n'(1) copy
    by (intro exI [of _ ?n]) (cases h, simp add: new_word_def create_word_def a_def insert_link_def Let_def numeral_eq_Suc
        cong: if_cong)
qed

lemma fresh_word_frame:
  assumes "words h' = (words h)(a \<mapsto> w)" and "b \<noteq> a"
  shows "key h' b = key h b" and "word_ok h' b = word_ok h b"
  using assms by (simp_all add: key_def word_ok_def)

lemma index_rep_new:
  assumes rep: "index_rep A D h P idx" and start: "terminated start"
    and len: "length (cstring start) < MAX_WORD_LEN"
  defines "t \<equiv> cstring start" and "n \<equiv> length (dl_list D)"
  assumes new: "t \<notin> dom idx" and room: "home n t + card (insert t (dom idx)) < n"
  shows "\<exists>D' h' P'. new_word A D h start (length t) (unat (hash_of t)) (home n t) d l = Some (D', h') \<and>
    index_rep A D' h' P' (index_add d l t idx) \<and> length (dl_list D') = n"
proof -
  note R = index_rep_D [OF rep]
  let ?a = "new_addr A (calls h)" and ?c = "new_addr A (calls h + 2)"
  have card: "card (insert t (dom idx)) = Suc (card (table_words D))"
    using index_rep_card [OF rep] new by simp
  obtain n' where n': "node_ok n'" "ll_val n' = d" "node_lines n' = [l]" "ll_next n' = 0" and
    step: "new_word A D h start (length t) (unat (hash_of t)) (home n t) d l =
      (let h' = h\<lparr>links := (links h)(?c \<mapsto> n'),
           words := (words h)(?a \<mapsto> \<lparr>wd_hash = unat (hash_of t), wd_str = Some (t @ [0]), wd_list = ?c\<rparr>),
           calls := calls h + 4\<rparr>
       in do {
         (ret, D') \<leftarrow> insert_DYNLIST A D ?a (home n t);
         D'' \<leftarrow> (if ret = EXTEND then disperse_keys h' D' else Some D');
         Some (D'', h')
       })"
    using new_word_heap [OF R(1,2) start len, where h = h and d = d and l = l and D = D
        and tmp = "unat (hash_of t)" and hash = "home n t"]
    unfolding t_def by blast
  let ?W = "\<lparr>wd_hash = unat (hash_of t), wd_str = Some (t @ [0]), wd_list = ?c\<rparr>"
  let ?h = "h\<lparr>links := (links h)(?c \<mapsto> n'), words := (words h)(?a \<mapsto> ?W), calls := calls h + 4\<rparr>"
  have old: "insert b (set (P b)) \<subseteq> new_addr A ` {..<calls h}" if "b \<in> table_words D" for b
    using R(8) [OF that] by blast
  have a: "?a \<notin> table_words D" "?a \<noteq> 0" and c: "?c \<notin> new_addr A ` {..<calls h}" "?c \<noteq> 0"
    using old new_addr_fresh [OF R(1), of "calls h"] new_addr_nonnull [OF R(1)] by auto
  have ws: "words ?h = (words h)(?a \<mapsto> ?W)" by simp
  have K: "key ?h b = key h b \<and> word_ok ?h b = word_ok h b" if "b \<in> table_words D" for b
    using fresh_word_frame [OF ws] that a(1) by metis
  have t0: "0 \<notin> set t" by (simp add: t_def)
  have key: "key ?h ?a = t" using t0 by (simp add: key_def)
  have wok: "word_ok ?h ?a"
    using len t0 by (simp add: word_ok_def MAX_WORD_LEN_def DYN_SIZE_def t_def [symmetric])
  have tok: "table_ok ?h D" using table_ok_frame [OF R(3)] K table_ok_D(3) [OF R(3)] by blast
  have distinct_keys: "\<forall>b\<in>table_words D. key ?h b \<noteq> key ?h ?a"
    using new R(6) K key by auto
  have ff: "first_free (dl_list D) (home n t) < n"
    using first_free_bound [OF R(3), of "home n t"] room card by (simp add: n_def)
  obtain D' where D': "insert_DYNLIST A D ?a (home n t) = Some (1, D')" "table_ok ?h D'"
      "table_words D' = insert ?a (table_words D)" "length (dl_list D') = n"
      "dl_last_index D' = (if dl_last_index D < first_free (dl_list D) (home n t)
         then first_free (dl_list D) (home n t) + 1 else dl_last_index D)"
    using insert_table [OF tok wok a(2) distinct_keys R(4), of A] ff unfolding key n_def by blast
  have "dl_last_index D' < dl_phys_len D'"
    using D'(2,4,5) table_ok_D(1) [OF D'(2)] table_ok_D(1) [OF R(3)] R(4)
      first_free_bound [OF R(3), of "home n t"] room card by (simp add: n_def)
  moreover have "\<exists>v. words ?h b = Some v \<and> chain ?h (wd_list v) ((P(?a := [?c])) b) \<and>
      index_add d l t idx (key ?h b) = Some (map (posting_at ?h) ((P(?a := [?c])) b))"
    if b: "b \<in> table_words D'" for b
  proof (cases "b = ?a")
    case True
    have "chain ?h ?c [?c]" using n' c(2) by (simp add: chain_def link_next_def)
    moreover have "index_add d l t idx t = Some (map (posting_at ?h) [?c])"
      using new n' by (simp add: index_add_def domIff post_add_def posting_at_def doc_def)
    ultimately show ?thesis unfolding True key by simp
  next
    case False
    with b D'(3) have b: "b \<in> table_words D" by simp
    obtain v where v: "words h b = Some v" "chain h (wd_list v) (P b)"
        "idx (key h b) = Some (map (posting_at h) (P b))"
      using R(5) [OF b] by blast
    have same: "links h e = links ?h e" if "e \<in> set (P b)" for e
      using that old [OF b] c(1) by auto
    have "key h b \<noteq> t" using v(3) new by auto
    with v False chain_cong [OF same] postings_cong [OF same] K [OF b] show ?thesis
      by (simp add: index_add_def)
  qed
  moreover have "dom (index_add d l t idx) = key ?h ` table_words D'"
    using R(6) K D'(3) key by auto
  moreover have "set ((P(?a := [?c])) b) \<inter> set ((P(?a := [?c])) e) = {}"
    if "b \<in> table_words D'" "e \<in> table_words D'" "b \<noteq> e" for b e
    using that D'(3) R(7) [of b e] old [of b] old [of e] c(1) by auto
  moreover have "insert b (set ((P(?a := [?c])) b)) \<subseteq> new_addr A ` {..<calls ?h}"
    if "b \<in> table_words D'" for b
    using that D'(3) old [of b] by (cases "b = ?a") auto
  ultimately have "index_rep A D' ?h (P(?a := [?c])) (index_add d l t idx)"
    using R(1,2) D'(2) unfolding index_rep_def by blast
  with step D'(1,4) show ?thesis by (auto simp: EXTEND_def Let_def)
qed

text \<open>One word, whichever branch.\<close>

lemma index_word_ok:
  assumes rep: "index_rep A D h P idx" and start: "terminated start"
    and len: "length (cstring start) < MAX_WORD_LEN"
  defines "t \<equiv> cstring start" and "n \<equiv> length (dl_list D)"
  assumes room: "home n t + card (insert t (dom idx)) < n"
  shows "\<exists>D' h' P'. index_word A D h start d l = Some (None, D', h') \<and>
    index_rep A D' h' P' (index_add d l t idx) \<and> length (dl_list D') = n"
proof -
  note R = index_rep_D [OF rep]
  have n: "dl_phys_len D = n" "0 < n" using table_ok_D(1,2) [OF R(3)] by (simp_all add: n_def)
  have "card (table_words D) \<le> card (insert t (dom idx))"
    using index_rep_card [OF rep] by (metis card_insert_le)
  then have "first_free (dl_list D) (home n t) < n"
    using first_free_bound [OF R(3), of "home n t"] room by (simp add: n_def)
  then obtain a where a: "lookup h D start (home n t) = Some a"
      "if \<exists>b\<in>table_words D. key h b = t then a \<in> table_words D \<and> key h a = t else a = 0"
    using lookup_table [OF R(3) start] unfolding t_def n_def by blast
  have pre: "index_word A D h start d l =
      (if a \<noteq> 0 then Option.bind (extend_word A h a d l) (\<lambda>(r, h'). Some (r, D, h'))
       else Option.bind (new_word A D h start (length t) (unat (hash_of t)) (home n t) d l)
         (\<lambda>(D', h'). Some (None, D', h')))"
    using start len n a(1)
    by (simp add: index_word_def StrGetLength_cstring hash_function_cstring t_def home_def Let_def)
  show ?thesis
  proof (cases "t \<in> dom idx")
    case True
    then have "a \<in> table_words D" "key h a = t" using a(2) R(6) by (auto split: if_splits)
    moreover from this have "a \<noteq> 0" by (simp add: table_words_def)
    ultimately show ?thesis
      using index_rep_extend [OF rep, of a d l] pre by (auto simp: n_def)
  next
    case False
    then have "a = 0" using a(2) R(6) by (auto split: if_splits)
    then show ?thesis
      using index_rep_new [OF rep start len, where d = d and l = l] False room pre
      unfolding t_def n_def by fastforce
  qed
qed

subsection \<open>The index as an interface\<close>

text \<open>
  What the code that reads text needs of the index: one operation that adds a word, given
  as the memory its pointer points to, a representation relation, and a condition that
  leaves room for a set of words.
\<close>

locale word_index =
  fixes add :: "'st \<Rightarrow> nat \<Rightarrow> nat \<Rightarrow> bytes \<Rightarrow> 'st option"
    and rep :: "'st \<Rightarrow> index \<Rightarrow> bool"
    and room :: "'st \<Rightarrow> bytes set \<Rightarrow> bool"
  assumes add_ok: "\<lbrakk>rep s idx; terminated m; length (cstring m) < MAX_WORD_LEN;
      room s (insert (cstring m) (dom idx))\<rbrakk> \<Longrightarrow>
      \<exists>s'. add s d l m = Some s' \<and> rep s' (index_add d l (cstring m) idx) \<and> room s' = room s"
    and room_mono: "room s W \<Longrightarrow> V \<subseteq> W \<Longrightarrow> room s V"
begin

lemma add_all_ok:
  assumes "rep s idx" and "\<forall>m\<in>set ms. terminated m \<and> length (cstring m) < MAX_WORD_LEN"
    and "room s (dom idx \<union> cstring ` set ms)"
  shows "\<exists>s'. fold_option (\<lambda>s. add s d l) s ms = Some s' \<and>
    rep s' (fold (index_add d l) (map cstring ms) idx) \<and> room s' = room s"
  using assms
proof (induction ms arbitrary: s idx)
  case Nil
  then show ?case by simp
next
  case (Cons m ms)
  have "room s (insert (cstring m) (dom idx))"
    by (rule room_mono [OF Cons.prems(3)]) auto
  then obtain s' where s': "add s d l m = Some s'" "rep s' (index_add d l (cstring m) idx)"
      "room s' = room s"
    using add_ok [OF Cons.prems(1), of m d l] Cons.prems(2) by auto
  have "room s' (dom (index_add d l (cstring m) idx) \<union> cstring ` set ms)"
    using Cons.prems(3) s'(3) by simp
  then show ?case
    using Cons.IH [OF s'(2)] Cons.prems(2) s' by auto
qed

end

text \<open>The code's index provides it, for every allocator.\<close>

type_synonym index_state = "struct_DynList \<times> heap"

definition add_word :: "allocator \<Rightarrow> index_state \<Rightarrow> nat \<Rightarrow> nat \<Rightarrow> bytes \<Rightarrow> index_state option" where
  "add_word A s d l m =
     (case index_word A (fst s) (snd s) m d l of Some (None, D', h') \<Rightarrow> Some (D', h') | _ \<Rightarrow> None)"

definition represents :: "allocator \<Rightarrow> index_state \<Rightarrow> index \<Rightarrow> bool" where
  "represents A s idx \<longleftrightarrow> (\<exists>P. index_rep A (fst s) (snd s) P idx)"

definition has_room :: "index_state \<Rightarrow> bytes set \<Rightarrow> bool" where
  "has_room s W \<longleftrightarrow> finite W \<and>
     (\<forall>t\<in>W. home (length (dl_list (fst s))) t + card W < length (dl_list (fst s)))"

interpretation c_index: word_index "add_word A" "represents A" has_room for A
proof unfold_locales
  fix s idx m d l
  assume "represents A s idx" "terminated m" "length (cstring m) < MAX_WORD_LEN"
    "has_room s (insert (cstring m) (dom idx))"
  moreover from this obtain P where "index_rep A (fst s) (snd s) P idx"
    by (auto simp: represents_def)
  ultimately obtain D' h' P' where r: "index_word A (fst s) (snd s) m d l = Some (None, D', h')"
      "index_rep A D' h' P' (index_add d l (cstring m) idx)" "length (dl_list D') = length (dl_list (fst s))"
    using index_word_ok [of A "fst s" "snd s" P idx m d l] by (auto simp: has_room_def)
  have "has_room (D', h') = has_room s"
    by (rule ext) (simp only: has_room_def fst_conv r(3))
  moreover have "add_word A s d l m = Some (D', h')" by (simp add: add_word_def r(1))
  moreover have "represents A (D', h') (index_add d l (cstring m) idx)"
    unfolding represents_def fst_conv snd_conv using r(2) by blast
  ultimately show "\<exists>s'. add_word A s d l m = Some s' \<and>
      represents A s' (index_add d l (cstring m) idx) \<and> has_room s' = has_room s"
    by blast
next
  fix s W V assume room: "has_room s W" and sub: "V \<subseteq> W"
  then have "finite V" "card V \<le> card W"
    by (auto simp: has_room_def intro: card_mono finite_subset)
  moreover have "home (length (dl_list (fst s))) t + card W < length (dl_list (fst s))" if "t \<in> V" for t
    using room sub that by (auto simp: has_room_def)
  ultimately show "has_room s V" unfolding has_room_def by (meson add_le_cancel_left le_less_trans)
qed

subsection \<open>Properties\<close>

text \<open>A new table holds nothing.\<close>

lemma empty_table_represents:
  assumes "alloc_ok A" and "realloc_ok A" and "0 < n"
  shows "represents A (\<lparr>dl_last_index = 0, dl_phys_len = n, dl_list = replicate n 0\<rparr>, h) Map.empty"
proof -
  let ?D = "\<lparr>dl_last_index = 0, dl_phys_len = n, dl_list = replicate n (0 :: addr)\<rparr>"
  have e: "table_words ?D = {}" by (auto simp: table_words_def)
  have "table_ok h ?D" using assms(3) e by (simp add: table_ok_def)
  then have "index_rep A ?D h (\<lambda>_. []) Map.empty" using assms e by (simp add: index_rep_def)
  then show ?thesis by (auto simp: represents_def)
qed

definition sample_state :: index_state where
  "sample_state = (\<lparr>dl_last_index = 0, dl_phys_len = 4, dl_list = replicate 4 0\<rparr>,
     \<lparr>links = Map.empty, words = Map.empty, calls = 0\<rparr>)"

lemma sample_state_represents: "represents sample_alloc sample_state Map.empty"
  unfolding sample_state_def using sample_alloc_ok by (intro empty_table_represents) simp_all

lemma sample_state_room:
  "has_room sample_state {}" "has_room sample_state {[]}" "has_room sample_state {[100]}" "has_room sample_state {[100], [101]}"
  by (simp_all add: has_room_def sample_state_def home_def hash_of_def HASH_MULTIPLIER_def)

text \<open>C9. One word: whatever branch it takes, the body of the loop of \<open>parse\<close> adds the current line to the
  posting of the current document under that word, and touches no other entry of the index.\<close>

theorem index_word_refines:
  assumes "represents A (D, h) idx" and "terminated m" and "length (cstring m) < MAX_WORD_LEN"
    and "has_room (D, h) (insert (cstring m) (dom idx))"
  shows "\<exists>D' h'. index_word A D h m d l = Some (None, D', h') \<and>
    represents A (D', h') (index_add d l (cstring m) idx) \<and> has_room (D', h') = has_room (D, h)"
proof -
  obtain D' h' where s': "add_word A (D, h) d l m = Some (D', h')"
      "represents A (D', h') (index_add d l (cstring m) idx)" "has_room (D', h') = has_room (D, h)"
    using c_index.add_ok [OF assms, of d l] by auto
  moreover from s'(1) have "index_word A D h m d l = Some (None, D', h')"
    by (auto simp: add_word_def split: option.splits)
  ultimately show ?thesis by blast
qed

theorem index_word_refines_witness:
  "\<exists>D' h'. index_word sample_alloc (fst sample_state) (snd sample_state) [100, 0] 3 7 = Some (None, D', h') \<and>
    represents sample_alloc (D', h') [[100] \<mapsto> [(3, [7])]]"
  using index_word_refines [of sample_alloc "fst sample_state" "snd sample_state" Map.empty "[100, 0]" 3 7]
    sample_state_represents sample_state_room
  by (auto simp: sample_strings MAX_WORD_LEN_def index_add_def post_add_def)

end
