(* ===== verification/Parse_Lines.thy ===== *)
theory Parse_Lines
  imports Inverted_Index
begin

section \<open>Cutting text into words (server.c)\<close>

text \<open>
  \<open>parse\<close> against the reference tokenizer \<open>tokens\<close>: the maximal runs of letters of a
  line. The proof follows the line buffer, which \<open>StrSplit\<close> cuts by writing terminators
  into it: \<open>parse\<close> hands the index one memory region for each word. Its bound is
  taken relative to the offset already reached, which is harmless while twice the line fits
  in the buffer; what happens beyond is shown too.
\<close>

subsection \<open>Words of a line\<close>

definition skip_blank :: "bytes \<Rightarrow> bytes" where
  "skip_blank s = dropWhile (\<lambda>c. \<not> isalpha c) s"

lemma skip_blank_Cons:
  "skip_blank s = c # cs \<Longrightarrow> isalpha c \<and> length cs < length s"
  unfolding skip_blank_def
  using hd_dropWhile [of "\<lambda>c. \<not> isalpha c" s] length_dropWhile_le [of "\<lambda>c. \<not> isalpha c" s] by auto

function tokens :: "bytes \<Rightarrow> bytes list" where
  "tokens s = (case skip_blank s of [] \<Rightarrow> []
     | c # cs \<Rightarrow> (c # takeWhile isalpha cs) # tokens (dropWhile isalpha cs))"
  by pat_completeness auto
termination
  by (relation "measure length")
    (auto dest!: skip_blank_Cons intro: le_less_trans [OF length_dropWhile_le])

declare tokens.simps [simp del]

lemma tokens_nonword:
  "\<forall>c\<in>set p. \<not> isalpha c \<Longrightarrow> tokens (p @ s) = tokens s"
proof -
  assume "\<forall>c\<in>set p. \<not> isalpha c"
  then have "skip_blank (p @ s) = skip_blank s" by (simp add: skip_blank_def dropWhile_append2)
  then show ?thesis by (simp add: tokens.simps [of "p @ s"] tokens.simps [of s])
qed

lemma tokens_Nil [simp]: "tokens [] = []"
  by (simp add: tokens.simps skip_blank_def)

lemma tokens_word:
  assumes "w \<noteq> []" and "\<forall>c\<in>set w. isalpha c" and "s = [] \<or> \<not> isalpha (hd s)"
  shows "tokens (w @ s) = w # tokens s"
proof -
  obtain c cs where w: "w = c # cs" using assms(1) by (cases w) auto
  have "skip_blank (w @ s) = w @ s" using assms(2) w by (simp add: skip_blank_def)
  moreover have "takeWhile isalpha (cs @ s) = cs" "dropWhile isalpha (cs @ s) = s"
    using assms(2,3) w by (cases s, simp_all add: takeWhile_append dropWhile_append)+
  ultimately show ?thesis unfolding w by (subst tokens.simps) simp
qed

text \<open>The words of a line are runs of letters of it, never empty.\<close>

lemma tokens_letters: "t \<in> set (tokens s) \<Longrightarrow> t \<noteq> [] \<and> (\<forall>c\<in>set t. isalpha c) \<and> set t \<subseteq> set s"
proof (induction s rule: tokens.induct)
  case (1 s)
  show ?case
  proof (cases "skip_blank s")
    case Nil
    then show ?thesis using 1(2) by (simp add: tokens.simps [of s])
  next
    case (Cons c cs)
    have sub: "set (c # cs) \<subseteq> set s"
      using Cons unfolding skip_blank_def by (metis set_dropWhileD subsetI)
    consider "t = c # takeWhile isalpha cs" | "t \<in> set (tokens (dropWhile isalpha cs))"
      using 1(2) Cons by (auto simp: tokens.simps [of s])
    then show ?thesis
    proof cases
      case 1
      then show ?thesis using skip_blank_Cons [OF Cons] sub by (auto dest: set_takeWhileD)
    next
      case 2
      with "1.IH" [OF Cons] sub show ?thesis by (auto dest: set_dropWhileD)
    qed
  qed
qed

subsection \<open>One round of the loop\<close>

text \<open>Whatever the bound, \<open>StrStrip\<close> stops inside the run it is to skip.\<close>

lemma StrStrip_partial:
  assumes "start < length buf" and "terminated (drop start buf)"
  shows "\<exists>k \<le> length (takeWhile non_word (drop start buf)).
    StrStrip buf start max_len index = Some (start + k, index + k)"
proof -
  have P: "(\<lambda>c. c \<noteq> 0 \<and> \<not> isalpha c) = non_word" by (auto simp: fun_eq_iff non_word_def)
  have "\<not> non_word 0" by (simp add: non_word_def)
  then have "start + 0 + length (takeWhile non_word (drop (start + 0) buf)) < length buf"
    using takeWhile_stop_less [of non_word start buf] assms by simp
  from scan_loop_spec [OF this, of max_len index] show ?thesis
    unfolding StrStrip_def P by (auto simp: Let_def)
qed

lemma takeWhile_stop: "\<forall>x\<in>set xs. P x \<Longrightarrow> \<not> P y \<Longrightarrow> takeWhile P (xs @ y # ys) = xs"
  by (induction xs) auto

lemma StrStrip_at:
  assumes "\<forall>x\<in>set B. non_word x" and "\<not> non_word y" and "index + length B \<le> max_len"
    and "terminated (y # r)"
  shows "StrStrip (pre @ B @ y # r) (length pre) max_len index = Some (length pre + length B, index + length B)"
  using StrStrip_run [of "length pre" "pre @ B @ y # r" index max_len] assms takeWhile_stop [OF assms(1,2), of r]
  by (auto simp: terminated_def)

lemma StrTok_at:
  assumes "\<forall>x\<in>set w. isalpha x" and "\<not> isalpha y" and "index + length w \<le> max_len"
    and "terminated (y # r)"
  shows "StrTok (pre @ w @ y # r) (length pre) max_len index = Some (length pre + length w, index + length w)"
  using StrTok_run [of "length pre" "pre @ w @ y # r" index max_len] assms takeWhile_stop [OF assms(1,2), of r]
  by (auto simp: terminated_def)

text \<open>
  The line from the current offset on is blanks, a word and a rest. One round passes the
  word to the index and goes on with the rest, of which some blanks may be gone.
\<close>

definition parse_rest ::
  "allocator \<Rightarrow> nat \<Rightarrow> nat \<Rightarrow> nat \<Rightarrow> bytes \<Rightarrow> nat \<Rightarrow> int option \<times> struct_DynList \<times> heap \<Rightarrow>
    (int \<times> struct_DynList \<times> heap \<times> bytes) option" where
  "parse_rest A max_len d l buf p = (\<lambda>(x, D, h). case x of
     Some ret \<Rightarrow> Some (ret, D, h, buf) | None \<Rightarrow> parse_loop A max_len d l D h buf p p)"

lemma parse_step:
  assumes B: "\<forall>c\<in>set B. non_word c" and w: "w \<noteq> []" "\<forall>c\<in>set w. isalpha c"
    and R: "0 \<notin> set R" "R = [] \<or> \<not> isalpha (hd R)"
    and len: "2 * (length pre + length B + length w + length R) \<le> max_len" "max_len < 2 ^ 64"
    and buf: "buf = pre @ B @ w @ R @ 0 # r" and p: "start = length pre + length B" "p = start + length w"
  shows "parse_loop A max_len d l D h buf (length pre) (length pre) =
      Option.bind (if R \<noteq> [] then StrSplit buf p (max_len - start) p else Some (buf, p, p))
        (\<lambda>(buf', p3, i3). Option.bind (index_word A D h (drop start buf') d l)
           (\<lambda>(x, D', h'). case x of Some ret \<Rightarrow> Some (ret, D', h', buf')
              | None \<Rightarrow> parse_loop A max_len d l D' h' buf' p3 i3))"
proof -
  obtain c cs where cs: "w = c # cs" using w(1) by (cases w) auto
  have c: "isalpha c" "c \<noteq> 0" using w(2) cs by auto
  have "\<exists>x xs. buf = pre @ x # xs \<and> x \<noteq> 0"
    using B c unfolding buf by (cases B) (auto simp: cs non_word_def)
  then obtain x where rd0: "rd buf (length pre) = Some x" "x \<noteq> 0" using rd_append_mid by metis
  have strip: "StrStrip buf (length pre) (size_sub max_len (length pre)) (length pre) = Some (start, start)"
    using StrStrip_at [OF B, of c "length pre" "max_len - length pre" "cs @ R @ 0 # r" pre] c len
    by (simp add: buf p cs size_sub_le non_word_def terminated_def)
  have rd1: "rd buf start = Some c" using rd_append_mid [of "pre @ B" c] by (simp add: buf p cs)
  have lenv: "size_sub max_len start = max_len - start" using len by (simp add: p size_sub_le)
  obtain y ys where y: "R @ 0 # r = y # ys" "\<not> isalpha y" "terminated (y # ys)" "rd buf p = Some y"
    and Ry: "R = [] \<longleftrightarrow> y = 0"
  proof (cases R)
    case Nil
    with that [of 0 r] show ?thesis
      using rd_append_mid [of "pre @ B @ w" 0 r] by (simp add: buf p terminated_def add.assoc)
  next
    case (Cons a as)
    with that [of a "as @ 0 # r"] R show ?thesis
      using rd_append_mid [of "pre @ B @ w" a "as @ 0 # r"] by (auto simp: buf p terminated_def add.assoc)
  qed
  have tok: "StrTok buf start (max_len - start) start = Some (p, p)"
    using StrTok_at [OF w(2) y(2) _ y(3), of start "max_len - start" "pre @ B"] len y(1) by (simp add: buf p)
  have less: "length pre < max_len" using len(1) by (simp add: cs)
  show ?thesis
    using less rd0 strip rd1 c tok y(4) lenv Ry
    by (subst parse_loop.simps) (simp add: Let_def)
qed

text \<open>\<open>StrSplit\<close> at the end of a word overwrites the separator, and stops somewhere in the separators behind it.\<close>

lemma split_stops:
  assumes "length P < n"
  shows "\<exists>k \<le> length as. StrSplit (P @ a # as @ 0 # r) (length P) n (length P) =
      Some (P @ 0 # as @ 0 # r, Suc (length P) + k, Suc (length P) + k) \<and> (\<forall>x\<in>set (take k as). \<not> isalpha x)"
proof -
  let ?p = "length P" and ?buf' = "(P @ [0]) @ as @ 0 # r"
  have wr: "wr (P @ a # as @ 0 # r) ?p 0 = Some ?buf'" by (simp add: wr_def list_update_append)
  have "\<exists>k \<le> length (takeWhile non_word (drop (Suc ?p) ?buf')).
      StrStrip ?buf' (Suc ?p) (size_sub n (Suc ?p)) (Suc ?p) = Some (Suc ?p + k, Suc ?p + k)"
    by (rule StrStrip_partial) (simp_all add: terminated_def)
  moreover have "takeWhile non_word (drop (Suc ?p) ?buf') = takeWhile non_word as"
  proof -
    have "drop (Suc ?p) ?buf' = as @ 0 # r" by simp
    then show ?thesis by (simp add: takeWhile_tail non_word_def)
  qed
  ultimately obtain k where k: "k \<le> length (takeWhile non_word as)"
    and st: "StrStrip ?buf' (Suc ?p) (size_sub n (Suc ?p)) (Suc ?p) = Some (Suc ?p + k, Suc ?p + k)"
    by metis
  have "take k as = take k (takeWhile non_word as @ dropWhile non_word as)" by simp
  also have "\<dots> = take k (takeWhile non_word as)" using k by (simp del: takeWhile_dropWhile_id)
  finally have "\<forall>x\<in>set (take k as). \<not> isalpha x" by (metis in_set_takeD non_word_def set_takeWhileD)
  moreover have "k \<le> length as" using k length_takeWhile_le le_trans by blast
  ultimately show ?thesis using wr st assms by (intro exI [of _ k]) (simp add: StrSplit_def Let_def)
qed

lemma parse_round:
  assumes B: "\<forall>c\<in>set B. non_word c" and w: "w \<noteq> []" "\<forall>c\<in>set w. isalpha c"
    and R: "0 \<notin> set R" "R = [] \<or> \<not> isalpha (hd R)"
    and len: "2 * (length pre + length B + length w + length R) \<le> max_len" "max_len < 2 ^ 64"
  shows "\<exists>pre' R' m. (\<forall>D h. parse_loop A max_len d l D h (pre @ B @ w @ R @ 0 # r) (length pre) (length pre) =
      Option.bind (index_word A D h m d l) (parse_rest A max_len d l (pre' @ R' @ 0 # r) (length pre'))) \<and>
    terminated m \<and> cstring m = w \<and> 0 \<notin> set R' \<and> length R' \<le> length R \<and>
    length pre' + length R' = length pre + length B + length w + length R \<and> tokens R' = tokens R"
proof -
  let ?buf = "pre @ B @ w @ R @ 0 # r" and ?start = "length pre + length B" and ?p = "length pre + length B + length w"
  have w0: "0 \<notin> set w" using w(2) by auto
  note loop = parse_step [OF B w R len refl refl refl]
  show ?thesis
  proof (cases R)
    case Nil
    have "\<forall>D h. parse_loop A max_len d l D h ?buf (length pre) (length pre) =
      Option.bind (index_word A D h (w @ 0 # r) d l)
        (parse_rest A max_len d l ((pre @ B @ w) @ [] @ 0 # r) (length (pre @ B @ w)))"
      using loop Nil by (simp add: parse_rest_def add.assoc)
    then show ?thesis
      using Nil w0 by (intro exI [of _ "pre @ B @ w"] exI [of _ "[]"] exI [of _ "w @ 0 # r"]) simp
  next
    case (Cons a as)
    have "length (pre @ B @ w) < max_len - ?start" using len(1) Cons by simp
    then obtain k where k: "k \<le> length as" "\<forall>x\<in>set (take k as). \<not> isalpha x"
        "StrSplit ?buf ?p (max_len - ?start) ?p = Some (pre @ B @ w @ 0 # as @ 0 # r, Suc ?p + k, Suc ?p + k)"
      using split_stops [of "pre @ B @ w" "max_len - ?start" as a r] Cons by (auto simp: add.assoc)
    let ?pre = "pre @ B @ w @ 0 # take k as"
    have tk: "take k as @ drop k as @ 0 # r = as @ 0 # r" by (metis append_assoc append_take_drop_id)
    have lpre: "length ?pre = Suc ?p + k" "?pre @ drop k as @ 0 # r = pre @ B @ w @ 0 # as @ 0 # r"
      using k(1) tk by simp_all
    have "\<forall>D h. parse_loop A max_len d l D h ?buf (length pre) (length pre) =
      Option.bind (index_word A D h (w @ 0 # as @ 0 # r) d l)
        (parse_rest A max_len d l (?pre @ drop k as @ 0 # r) (length ?pre))"
      unfolding lpre using loop k(3) Cons by (simp add: parse_rest_def)
    moreover have "tokens (drop k as) = tokens R"
      using tokens_nonword [OF k(2), of "drop k as"] tokens_nonword [of "[a]" as] R(2) Cons by simp
    ultimately show ?thesis
      using Cons R(1) w0 k(1)
      by (intro exI [of _ ?pre] exI [of _ "drop k as"] exI [of _ "w @ 0 # as @ 0 # r"])
        (auto dest: in_set_dropD)
  qed
qed

subsection \<open>A whole line\<close>

lemma split_line:
  assumes "0 \<notin> set S"
  obtains B w R where "S = B @ w @ R" "\<forall>c\<in>set B. non_word c" "\<forall>c\<in>set w. isalpha c"
    "R = [] \<or> \<not> isalpha (hd R)" "w = [] \<Longrightarrow> R = []"
proof -
  let ?B = "takeWhile non_word S" and ?T = "dropWhile non_word S"
  let ?w = "takeWhile isalpha ?T" and ?R = "dropWhile isalpha ?T"
  have "?R = [] \<or> \<not> isalpha (hd ?R)" using hd_dropWhile [of isalpha ?T] by blast
  moreover have "?R = []" if "?w = []"
  proof (rule ccontr)
    assume "?R \<noteq> []"
    with that obtain c cs where c: "?T = c # cs" "\<not> isalpha c" by (cases ?T) (auto split: if_splits)
    then have "\<not> non_word c" using hd_dropWhile [of non_word S] by auto
    moreover have "c \<in> set S" using c(1) by (metis list.set_intros(1) set_dropWhileD)
    ultimately show False using c(2) assms by (auto simp: non_word_def)
  qed
  ultimately show thesis
    by (intro that [of ?B ?w ?R]) (auto dest: set_takeWhileD)
qed

lemma parse_loop_end:
  "parse_loop A max_len d l D h (pre @ 0 # r) (length pre) (length pre) = Some (1, D, h, pre @ 0 # r)"
  by (subst parse_loop.simps) (simp add: rd_append_mid)

lemma parse_loop_blank:
  assumes "\<forall>c\<in>set B. non_word c" and "length pre + length B \<le> max_len - length pre" and "max_len < 2 ^ 64"
  shows "parse_loop A max_len d l D h (pre @ B @ 0 # r) (length pre) (length pre) =
    Some (1, D, h, pre @ B @ 0 # r)"
proof (cases "B")
  case Nil
  then show ?thesis using parse_loop_end by simp
next
  case (Cons b bs)
  have "rd (pre @ B @ 0 # r) (length pre) = Some b" "b \<noteq> 0"
    using Cons rd_append_mid [of pre b] assms(1) by (auto simp: non_word_def)
  moreover have "StrStrip (pre @ B @ 0 # r) (length pre) (size_sub max_len (length pre)) (length pre) =
      Some (length pre + length B, length pre + length B)"
    using StrStrip_at [OF assms(1), of 0 "length pre" "max_len - length pre" r pre] assms(2,3) Cons
    by (simp add: size_sub_le non_word_def terminated_def)
  moreover have "rd (pre @ B @ 0 # r) (length pre + length B) = Some 0"
    using rd_append_mid [of "pre @ B" 0] by simp
  moreover have "length pre < max_len" using assms(2) Cons by simp
  ultimately show ?thesis by (subst parse_loop.simps) simp
qed

lemma add_word_index_word:
  "add_word A (D, h) d l m = Some (D', h') \<Longrightarrow> index_word A D h m d l = Some (None, D', h')"
  by (auto simp: add_word_def split: option.splits)

text \<open>
  \<open>parse\<close> of the rest of a line adds the words of the rest, in order, each given as the
  region of the buffer that starts with it.
\<close>

lemma parse_loop_fold:
  assumes "0 \<notin> set S" and "2 * (length pre + length S) \<le> max_len" and "max_len < 2 ^ 64"
  shows "\<exists>ms buf'. map cstring ms = tokens S \<and> (\<forall>m\<in>set ms. terminated m) \<and>
    (\<forall>D h D' h'. fold_option (\<lambda>s. add_word A s d l) (D, h) ms = Some (D', h') \<longrightarrow>
      parse_loop A max_len d l D h (pre @ S @ 0 # r) (length pre) (length pre) = Some (1, D', h', buf'))"
  using assms
proof (induction "length S" arbitrary: pre S rule: less_induct)
  case less
  obtain B w R where S: "S = B @ w @ R" and B: "\<forall>c\<in>set B. non_word c"
    and w: "\<forall>c\<in>set w. isalpha c" "w = [] \<Longrightarrow> R = []" and R: "R = [] \<or> \<not> isalpha (hd R)"
    using split_line [OF less.prems(1)] by metis
  have Bn: "\<forall>c\<in>set B. \<not> isalpha c" using B by (simp add: non_word_def)
  show ?case
  proof (cases "w = []")
    case True
    then have SB: "S = B" using S w(2) by simp
    then have "tokens S = []" using tokens_nonword [of B "[]"] Bn by simp
    moreover have "parse_loop A max_len d l D h (pre @ S @ 0 # r) (length pre) (length pre) =
        Some (1, D, h, pre @ S @ 0 # r)" for D h
      unfolding SB using parse_loop_blank [OF B] less.prems(2,3) SB by simp
    ultimately show ?thesis by (intro exI [of _ "[]"] exI [of _ "pre @ S @ 0 # r"]) simp
  next
    case False
    have R0: "0 \<notin> set R" using less.prems(1) S by simp
    have len: "2 * (length pre + length B + length w + length R) \<le> max_len"
      using less.prems(2) S by (simp add: add.assoc)
    obtain pre' R' m where loop: "\<And>D h. parse_loop A max_len d l D h (pre @ S @ 0 # r) (length pre) (length pre) =
        Option.bind (index_word A D h m d l) (parse_rest A max_len d l (pre' @ R' @ 0 # r) (length pre'))"
      and m: "terminated m" "cstring m = w" and R': "0 \<notin> set R'" "length R' \<le> length R"
        "length pre' + length R' = length pre + length B + length w + length R" "tokens R' = tokens R"
      using parse_round [OF B False w(1) R0 R len less.prems(3)] unfolding S append_assoc by blast
    have "length R' < length S" using S False R'(2) by (cases w) auto
    moreover have "2 * (length pre' + length R') \<le> max_len" using R'(3) len by simp
    ultimately obtain ms buf' where ms: "map cstring ms = tokens R'" "\<forall>m\<in>set ms. terminated m"
      and rest: "\<And>D h D' h'. fold_option (\<lambda>s. add_word A s d l) (D, h) ms = Some (D', h') \<Longrightarrow>
        parse_loop A max_len d l D h (pre' @ R' @ 0 # r) (length pre') (length pre') = Some (1, D', h', buf')"
      using less.hyps [of R' pre'] R'(1) less.prems(3) by blast
    have "tokens S = w # tokens R"
      unfolding S using tokens_nonword [OF Bn] tokens_word [OF False w(1) R] by simp
    then have "map cstring (m # ms) = tokens S" using m(2) ms(1) R'(4) by simp
    moreover have "parse_loop A max_len d l D h (pre @ S @ 0 # r) (length pre) (length pre) = Some (1, D', h', buf')"
      if steps: "fold_option (\<lambda>s. add_word A s d l) (D, h) (m # ms) = Some (D', h')" for D h D' h'
    proof -
      obtain D1 h1 where "add_word A (D, h) d l m = Some (D1, h1)"
          "fold_option (\<lambda>s. add_word A s d l) (D1, h1) ms = Some (D', h')"
        using steps by (auto simp: bind_Some_iff)
      then show ?thesis using loop rest by (simp add: add_word_index_word parse_rest_def)
    qed
    ultimately show ?thesis
      using m(1) ms(2) by (intro exI [of _ "m # ms"] exI [of _ buf']) (simp add: ball_simps)
  qed
qed

text \<open>So one call of \<open>parse\<close> refines the fold of \<open>index_add\<close> over the words of the line.\<close>

lemma parse_refines:
  assumes rep: "represents A (D, h) idx" and buf: "terminated buf"
    and len: "2 * length (cstring buf) \<le> max_len" "max_len < 2 ^ 64"
    and words: "\<forall>t\<in>set (tokens (cstring buf)). length t < MAX_WORD_LEN"
    and room: "has_room (D, h) (dom idx \<union> set (tokens (cstring buf)))"
  shows "\<exists>D' h' buf'. parse A (Some D) h (Some buf) max_len d l = Some (1, Some D', h', Some buf') \<and>
    represents A (D', h') (fold (index_add d l) (tokens (cstring buf)) idx) \<and>
    has_room (D', h') = has_room (D, h)"
proof -
  obtain r where r: "buf = cstring buf @ 0 # r" using cstring_split [OF buf] by blast
  obtain ms buf' where ms: "map cstring ms = tokens (cstring buf)" "\<forall>m\<in>set ms. terminated m"
    and loop: "\<And>D' h'. fold_option (\<lambda>s. add_word A s d l) (D, h) ms = Some (D', h') \<Longrightarrow>
        parse_loop A max_len d l D h ([] @ cstring buf @ 0 # r) 0 0 = Some (1, D', h', buf')"
    using parse_loop_fold [of "cstring buf" "[]" max_len A d l r] len by auto
  have img: "cstring ` set ms = set (tokens (cstring buf))" using ms(1) by (metis set_map)
  then have "\<forall>m\<in>set ms. terminated m \<and> length (cstring m) < MAX_WORD_LEN"
    using words ms(2) by blast
  with img obtain D' h' where s': "fold_option (\<lambda>s. add_word A s d l) (D, h) ms = Some (D', h')"
      "represents A (D', h') (fold (index_add d l) (tokens (cstring buf)) idx)"
      "has_room (D', h') = has_room (D, h)"
    using c_index.add_all_ok [OF rep, of ms d l] ms(1) room by auto
  have "parse A (Some D) h (Some buf) max_len d l = Some (1, Some D', h', Some buf')"
    using loop [OF s'(1)] r by (simp add: parse_def)
  with s'(2,3) show ?thesis by blast
qed

subsection \<open>The second half of the buffer\<close>

text \<open>
  A word that starts beyond half the bound is not seen: \<open>StrTok\<close> and \<open>StrSplit\<close>
  compare the offset with what is left of the bound, stop at once and cut the word to the
  empty string, and the loop ends at the terminator they wrote.
\<close>

lemma parse_loop_second_half:
  assumes B: "\<forall>c\<in>set B. non_word c" and c: "isalpha c"
    and len: "length B < max_len" "max_len \<le> 2 * length B" "max_len < 2 ^ 64"
    and add: "add_word A (D, h) d l (0 # cs @ 0 # r) = Some (D', h')"
  shows "parse_loop A max_len d l D h (B @ c # cs @ 0 # r) 0 0 = Some (1, D', h', B @ 0 # cs @ 0 # r)"
proof -
  let ?buf = "B @ c # cs @ 0 # r" and ?n = "length B"
  have n0: "0 < ?n" using len by linarith
  then obtain b bs where b: "B = b # bs" "b \<noteq> 0" using B by (cases B) (auto simp: non_word_def)
  have strip: "StrStrip ?buf 0 (size_sub max_len 0) 0 = Some (?n, ?n)"
    using StrStrip_at [OF B, of c 0 max_len "cs @ 0 # r" "[]"] c len
    by (simp add: size_sub_le non_word_def terminated_def)
  have rd: "rd ?buf ?n = Some c" "rd ?buf 0 = Some b"
    using b by (simp_all add: rd_append_mid rd_def)
  have left: "size_sub max_len ?n = max_len - ?n" "max_len - ?n \<le> ?n" using len by (simp_all add: size_sub_le)
  have "StrTok ?buf ?n (max_len - ?n) ?n = Some (?n, ?n)" using left(2) by (rule scan_at_bound)
  moreover have "StrSplit ?buf ?n (max_len - ?n) ?n = Some (B @ 0 # cs @ 0 # r, ?n, Suc ?n)"
    using left(2) by (simp add: StrSplit_def wr_def)
  moreover have "parse_loop A max_len d l D' h' (B @ 0 # cs @ 0 # r) ?n (Suc ?n) =
      Some (1, D', h', B @ 0 # cs @ 0 # r)"
    by (subst parse_loop.simps) (simp add: rd_append_mid)
  moreover have "c \<noteq> 0" using c by auto
  ultimately show ?thesis
    using strip rd b(2) left(1) n0 len(1) add_word_index_word [OF add]
    by (subst parse_loop.simps) (simp add: Let_def)
qed

subsection \<open>Properties\<close>

text \<open>C8. \<open>parse\<close> on a line that takes at most half of the bound: it returns 1, and the index is the fold of
  \<open>index_add\<close> over the maximal runs of letters of the line, in order.\<close>

theorem parse_line_refines:
  assumes "represents A (D, h) idx" and "terminated buf"
    and "2 * length (cstring buf) \<le> max_len" and "max_len < 2 ^ 64"
    and "\<forall>t\<in>set (tokens (cstring buf)). length t < MAX_WORD_LEN"
    and "has_room (D, h) (dom idx \<union> set (tokens (cstring buf)))"
  shows "\<exists>D' h' buf'. parse A (Some D) h (Some buf) max_len d l = Some (1, Some D', h', Some buf') \<and>
    represents A (D', h') (fold (index_add d l) (tokens (cstring buf)) idx)"
  using parse_refines [OF assms, of d l] by blast

lemma sample_line: "tokens [100, 33, 32, 101, 10] = [[100], [101]]"
  by (simp add: tokens.simps skip_blank_def isalpha_def)

theorem parse_line_refines_witness:
  "\<exists>D' h' buf'. parse sample_alloc (Some (fst sample_state)) (snd sample_state) (Some [100, 33, 32, 101, 10, 0]) 10240 3 7 =
      Some (1, Some D', h', Some buf') \<and>
    represents sample_alloc (D', h') (index_add 3 7 [101] (index_add 3 7 [100] Map.empty))"
  using parse_line_refines [of sample_alloc "fst sample_state" "snd sample_state" Map.empty
      "[100, 33, 32, 101, 10, 0]" 10240 3 7]
    sample_state_represents sample_state_room sample_line
  by (simp add: terminated_def cstring_def MAX_WORD_LEN_def)

text \<open>C38. \<open>parse\<close> on a line whose first word starts beyond half of the bound: none of its words reaches the
  index; the empty string is added instead. The bound passed to \<open>StrTok\<close> and \<open>StrSplit\<close> is what is left
  of it, but is compared with the offset from the start of the line.\<close>

theorem parse_loses_second_half:
  assumes rep: "represents A (D, h) idx" and B: "\<forall>c\<in>set B. non_word c" and c: "isalpha c"
    and len: "length B < max_len" "max_len \<le> 2 * length B" "max_len < 2 ^ 64"
    and room: "has_room (D, h) (insert [] (dom idx))"
  shows "\<exists>D' h' b. parse A (Some D) h (Some (B @ c # cs @ 0 # r)) max_len d l = Some (1, Some D', h', Some b) \<and>
    represents A (D', h') (index_add d l [] idx) \<and> tokens (B @ [c]) = [[c]]"
proof -
  have m: "terminated (0 # cs @ 0 # r)" "cstring (0 # cs @ 0 # r) = []"
    by (simp_all add: terminated_def cstring_def)
  obtain D' h' where s': "add_word A (D, h) d l (0 # cs @ 0 # r) = Some (D', h')"
      "represents A (D', h') (index_add d l [] idx)"
    using c_index.add_ok [OF rep m(1), of d l] room unfolding m(2) by (auto simp: MAX_WORD_LEN_def)
  have "tokens (B @ [c]) = tokens [c]" by (rule tokens_nonword) (use B in \<open>simp add: non_word_def\<close>)
  also have "\<dots> = [[c]]" using c tokens_word [of "[c]" "[]"] by simp
  finally show ?thesis
    using parse_loop_second_half [OF B c len s'(1)] s'(2) by (simp add: parse_def)
qed

theorem parse_loses_second_half_witness:
  "\<exists>D' h' b. parse sample_alloc (Some (fst sample_state)) (snd sample_state)
      (Some ([32, 32, 32] @ 100 # [] @ 0 # [0, 0])) 6 3 7 = Some (1, Some D', h', Some b) \<and>
    represents sample_alloc (D', h') (index_add 3 7 [] Map.empty) \<and> tokens ([32, 32, 32] @ [100]) = [[100]]"
  using parse_loses_second_half [of sample_alloc "fst sample_state" "snd sample_state" Map.empty "[32, 32, 32]" 100 6
      "[]" "[0, 0]" 3 7] sample_state_represents sample_state_room
  by (simp add: non_word_def isalpha_def)

end
