(* ===== verification/Directory.thy ===== *)
theory Directory
  imports Parse_Lines
begin

section \<open>Reading the files of a directory (server.c)\<close>

text \<open>
  \<open>tokenizer\<close> reads one file line by line and \<open>read_dir\<close> does so for every regular file of a
  directory, numbering the documents and recording the addresses of their names in \<open>file_list\<close>. What the
  operating system holds (the directory's entries, the contents of files) is a parameter. The lemmas show
  that the index is the fold of \<open>index_add\<close> over documents, lines and words, and that
  slot \<open>d\<close> of \<open>file_list\<close> holds the address of the name of document \<open>d\<close>, as long as the list does not have to grow.
\<close>

subsection \<open>fgets\<close>

text \<open>
  The C library's \<open>fgets\<close>: at most \<open>size - 1\<close> bytes, up to and including a newline. The third
  component of \<open>fgets_chars\<close> says whether the end of the file was met.
\<close>

record stream =
  st_rest :: bytes
  st_eof :: bool

fun fgets_chars :: "nat \<Rightarrow> bytes \<Rightarrow> bytes \<times> bytes \<times> bool" where
  "fgets_chars 0 s = ([], s, False)"
| "fgets_chars (Suc n) [] = ([], [], True)"
| "fgets_chars (Suc n) (c # s) =
     (if c = 10 then ([c], s, False)
      else let (l, r, e) = fgets_chars n s in (c # l, r, e))"

definition fgets :: "bytes \<Rightarrow> nat \<Rightarrow> stream \<Rightarrow> bytes option \<times> stream" where
  "fgets buf n fp =
     (let (l, r, e) = fgets_chars (n - 1) (st_rest fp)
      in if l = [] then (None, fp\<lparr>st_eof := True\<rparr>)
         else (Some (l @ 0 # drop (Suc (length l)) buf), \<lparr>st_rest = r, st_eof = e\<rparr>))"

subsection \<open>tokenizer\<close>

text \<open>\<open>buf\<close> has \<open>DYN_SIZE + 1\<close> bytes, one more than \<open>fgets\<close> may fill.\<close>

partial_function (option) tokenizer_loop ::
  "allocator \<Rightarrow> nat \<Rightarrow> nat \<Rightarrow> struct_DynList option \<Rightarrow> heap \<Rightarrow> bytes \<Rightarrow> stream \<Rightarrow>
    (struct_DynList option \<times> heap) option" where
  "tokenizer_loop A docId line_num dynlist h buf fp =
     (if st_eof fp then Some (dynlist, h)
      else case fgets buf DYN_SIZE fp of
             (None, fp') \<Rightarrow> Some (dynlist, h)
           | (Some buf', fp') \<Rightarrow> do {
               (_, dynlist', h', buf'') \<leftarrow> parse A dynlist h (Some buf') DYN_SIZE docId line_num;
               tokenizer_loop A docId (line_num + 1) dynlist' h' (the buf'') fp'
             })"

text \<open>
  \<open>fs\<close> maps the name given to \<open>fopen\<close> to the contents of the file, if it can be opened.
\<close>

type_synonym filesystem = "bytes \<Rightarrow> bytes option"

definition tokenizer ::
  "allocator \<Rightarrow> filesystem \<Rightarrow> struct_DynList option \<Rightarrow> heap \<Rightarrow> bytes \<Rightarrow> bytes \<Rightarrow> nat \<Rightarrow>
    (int \<times> struct_DynList option \<times> heap) option" where
  "tokenizer A fs dynlist h filename abs_path docId = do {
     let file_len = MAX_WORD_LEN + MAX_PATH_LEN + 1;
     let buf = replicate (DYN_SIZE + 1) 0;
     let file_buf = replicate file_len 0;
     name_len \<leftarrow> StrGetLength (Some filename) MAX_WORD_LEN;
     path_len \<leftarrow> StrGetLength (Some abs_path) MAX_PATH_LEN;
     (_, b1) \<leftarrow> StrCopy (Some file_buf) (Some abs_path) file_len;
     (_, b2) \<leftarrow> StrConcat (Some b1) (Some (lit ''/'' @ [0])) file_len;
     (_, b3) \<leftarrow> StrConcat (Some b2) (Some filename) file_len;
     if \<not> terminated b3 then None
     else case fs (cstring b3) of
            None \<Rightarrow> Some (-1, dynlist, h)
          | Some content \<Rightarrow> do {
              (dynlist', h') \<leftarrow> tokenizer_loop A docId 1 dynlist h buf \<lparr>st_rest = content, st_eof = False\<rparr>;
              Some (1, dynlist', h')
            }
   }"

subsection \<open>read_dir\<close>

text \<open>
  An entry of \<open>readdir\<close>: its type, the bytes at \<open>d_name\<close>, and the address of \<open>d_name\<close>,
  which is what \<open>read_dir\<close> stores.
\<close>

record dirent =
  d_type :: nat
  d_name :: bytes
  d_ptr :: addr

definition DT_REG :: nat where "DT_REG = 8"

definition skip_entry :: "dirent \<Rightarrow> bool option" where
  "skip_entry e =
     (if d_type e \<noteq> DT_REG then Some True
      else do {
        r1 \<leftarrow> StrCompare (Some (d_name e)) (Some (lit ''.'' @ [0])) MAX_WORD_LEN;
        if r1 = 0 then Some True
        else do {
          r2 \<leftarrow> StrCompare (Some (d_name e)) (Some (lit ''..'' @ [0])) MAX_WORD_LEN;
          Some (r2 = 0)
        }
      })"

fun read_entries ::
  "allocator \<Rightarrow> filesystem \<Rightarrow> bytes \<Rightarrow> nat \<Rightarrow> dirent list \<Rightarrow> struct_DynList option \<Rightarrow> heap \<Rightarrow>
    struct_DynList option \<Rightarrow> (struct_DynList option \<times> heap \<times> struct_DynList option) option" where
  "read_entries A fs abs_path docId [] Dynlist h file_list = Some (Dynlist, h, file_list)"
| "read_entries A fs abs_path docId (entry # rest) Dynlist h file_list = do {
     skip \<leftarrow> skip_entry entry;
     if skip then read_entries A fs abs_path docId rest Dynlist h file_list
     else do {
       F \<leftarrow> file_list;
       (_, F') \<leftarrow> insert_DYNLIST A F (d_ptr entry) (dl_last_index F);
       (_, Dynlist', h') \<leftarrow> tokenizer A fs Dynlist h (d_name entry) abs_path docId;
       read_entries A fs abs_path (docId + 1) rest Dynlist' h' (Some F')
     }
   }"

text \<open>The first component of the result: whether \<open>opendir\<close> gave a directory.\<close>

definition read_dir ::
  "allocator \<Rightarrow> filesystem \<Rightarrow> (bytes \<Rightarrow> dirent list option) \<Rightarrow> struct_DynList option \<Rightarrow> heap \<Rightarrow>
    struct_DynList option \<Rightarrow> bytes \<Rightarrow> (bool \<times> struct_DynList option \<times> heap \<times> struct_DynList option) option" where
  "read_dir A fs opendir Dynlist h file_list abs_path =
     (case opendir (cstring abs_path) of
        None \<Rightarrow> Some (False, Dynlist, h, file_list)
      | Some entries \<Rightarrow> do {
          (Dynlist', h', file_list') \<leftarrow> read_entries A fs abs_path 0 entries Dynlist h file_list;
          Some (True, Dynlist', h', file_list')
        })"

subsection \<open>Lines\<close>

text \<open>The lines of a text, each with its newline.\<close>

fun lines :: "bytes \<Rightarrow> bytes list" where
  "lines [] = []"
| "lines (c # s) = (if c = 10 then [c] # lines s
     else case lines s of [] \<Rightarrow> [[c]] | L # Ls \<Rightarrow> (c # L) # Ls)"

lemma lines_Nil_iff [simp]: "lines s = [] \<longleftrightarrow> s = []"
  by (cases s) (auto split: list.splits)

lemma concat_lines: "concat (lines s) = s"
  by (induction s) (auto split: list.splits)

lemma lines_nonempty: "L \<in> set (lines s) \<Longrightarrow> L \<noteq> []"
  by (induction s arbitrary: L) (auto split: list.splits if_splits)

lemma fgets_chars_line:
  "lines s = L # Ls \<Longrightarrow> length L \<le> n \<Longrightarrow>
    \<exists>r e. fgets_chars n s = (L, r, e) \<and> lines r = Ls \<and> (e \<longrightarrow> r = [])"
proof (induction s arbitrary: n L Ls)
  case Nil
  then show ?case by simp
next
  case (Cons c s)
  have "L \<noteq> []" using Cons.prems(1) lines_nonempty [of L "c # s"] by (metis list.set_intros(1))
  then obtain m where n: "n = Suc m" using Cons.prems(2) by (cases n) auto
  consider "c = 10" | "c \<noteq> 10" "s = []" | "c \<noteq> 10" "s \<noteq> []" by blast
  then show ?case
  proof cases
    case 1
    then show ?thesis using Cons.prems(1) n by (intro exI [of _ s] exI [of _ False]) simp
  next
    case 2
    then have "L = [c]" "Ls = []" using Cons.prems(1) by simp_all
    then show ?thesis using n 2 by (intro exI [of _ "[]"] exI [of _ "m \<noteq> 0"]) (cases m, simp_all)
  next
    case 3
    then obtain L' where L': "lines s = L' # Ls" "L = c # L'"
      using Cons.prems(1) by (cases "lines s") auto
    then show ?thesis using Cons.IH [OF L'(1), of m] Cons.prems(2) n 3 by auto
  qed
qed

subsection \<open>One file\<close>

fun index_lines :: "nat \<Rightarrow> nat \<Rightarrow> bytes list \<Rightarrow> index \<Rightarrow> index" where
  "index_lines d l [] idx = idx"
| "index_lines d l (L # Ls) idx =
     index_lines d (l + 1) Ls (fold (index_add d l) (tokens (cstring L)) idx)"

definition line_ok :: "bytes \<Rightarrow> bool" where
  "line_ok L \<longleftrightarrow> 2 * length L \<le> DYN_SIZE \<and> (\<forall>t\<in>set (tokens (cstring L)). length t < MAX_WORD_LEN)"

definition line_words :: "bytes list \<Rightarrow> bytes set" where
  "line_words Ls = (\<Union>L\<in>set Ls. set (tokens (cstring L)))"

lemma dom_index_adds [simp]: "dom (fold (index_add d l) ts idx) = dom idx \<union> set ts"
  by (induction ts arbitrary: idx) auto

lemma dom_index_lines [simp]: "dom (index_lines d l Ls idx) = dom idx \<union> line_words Ls"
  by (induction Ls arbitrary: l idx) (auto simp: line_words_def)

lemma cstring_prefix: "cstring (L @ 0 # r) = cstring L"
  by (induction L) (simp_all add: cstring_def)

lemma tokenizer_loop_lines:
  assumes "represents A (D, h) idx" and "\<forall>L\<in>set (lines (st_rest fp)). line_ok L"
    and "st_eof fp \<longrightarrow> st_rest fp = []"
    and "has_room (D, h) (dom idx \<union> line_words (lines (st_rest fp)))"
  shows "\<exists>D' h'. tokenizer_loop A d l (Some D) h buf fp = Some (Some D', h') \<and>
    represents A (D', h') (index_lines d l (lines (st_rest fp)) idx) \<and> has_room (D', h') = has_room (D, h)"
  using assms
proof (induction "lines (st_rest fp)" arbitrary: fp buf l D h idx)
  case Nil
  then have "st_rest fp = []" using lines_Nil_iff [of "st_rest fp"] by simp
  then have "tokenizer_loop A d l (Some D) h buf fp = Some (Some D, h)"
    by (subst tokenizer_loop.simps) (simp add: fgets_def DYN_SIZE_def numeral_eq_Suc)
  with Nil show ?case by simp
next
  case (Cons L Ls)
  have ok: "2 * length L \<le> DYN_SIZE" "\<forall>t\<in>set (tokens (cstring L)). length t < MAX_WORD_LEN"
    using Cons.prems(2) unfolding Cons.hyps(2) [symmetric] by (simp_all add: line_ok_def)
  then have "length L \<le> DYN_SIZE - 1" by (simp add: DYN_SIZE_def)
  then obtain r e where r: "fgets_chars (DYN_SIZE - 1) (st_rest fp) = (L, r, e)" "lines r = Ls" "e \<longrightarrow> r = []"
    using fgets_chars_line [OF Cons.hyps(2) [symmetric]] by blast
  let ?buf = "L @ 0 # drop (Suc (length L)) buf" and ?fp = "\<lparr>st_rest = r, st_eof = e\<rparr>"
  have "L \<noteq> []" using lines_nonempty [of L "st_rest fp"] by (simp add: Cons.hyps(2) [symmetric])
  then have get: "fgets buf DYN_SIZE fp = (Some ?buf, ?fp)" using r(1) by (simp add: fgets_def)
  have open_fp: "\<not> st_eof fp" using Cons.prems(3) Cons.hyps(2) by auto
  have cs: "cstring ?buf = cstring L" by (rule cstring_prefix)
  have "length (cstring L) \<le> length L" by (simp add: cstring_def length_takeWhile_le)
  then have short: "2 * length (cstring ?buf) \<le> DYN_SIZE" using ok(1) cs by simp
  have room: "has_room (D, h) (dom idx \<union> set (tokens (cstring ?buf)))"
    unfolding cs using Cons.prems(4) Cons.hyps(2)
    by (elim c_index.room_mono) (auto simp: line_words_def Cons.hyps(2) [symmetric])
  obtain D1 h1 buf1 where step: "parse A (Some D) h (Some ?buf) DYN_SIZE d l = Some (1, Some D1, h1, Some buf1)"
      "represents A (D1, h1) (fold (index_add d l) (tokens (cstring L)) idx)" "has_room (D1, h1) = has_room (D, h)"
    using parse_refines [OF Cons.prems(1) _ short _ _ room, of d l] ok(2) unfolding cs
    by (auto simp: DYN_SIZE_def)
  have "has_room (D1, h1) (dom (fold (index_add d l) (tokens (cstring L)) idx) \<union> line_words (lines (st_rest ?fp)))"
    unfolding step(3) using Cons.prems(4)
    by (elim c_index.room_mono) (auto simp: line_words_def Cons.hyps(2) [symmetric] r(2))
  moreover have "\<forall>L\<in>set (lines (st_rest ?fp)). line_ok L"
    using Cons.prems(2) unfolding Cons.hyps(2) [symmetric] by (simp add: r(2))
  ultimately obtain D' h' where "tokenizer_loop A d (l + 1) (Some D1) h1 buf1 ?fp = Some (Some D', h')"
      "represents A (D', h') (index_lines d (l + 1) Ls (fold (index_add d l) (tokens (cstring L)) idx))"
      "has_room (D', h') = has_room (D1, h1)"
    using Cons.hyps(1) [of ?fp D1 h1 "fold (index_add d l) (tokens (cstring L)) idx" "l + 1" buf1]
      step(2) r(2,3) by auto
  moreover have "tokenizer_loop A d l (Some D) h buf fp = tokenizer_loop A d (l + 1) (Some D1) h1 buf1 ?fp"
    using open_fp get step(1) by (subst tokenizer_loop.simps) simp
  ultimately show ?case using step(3) unfolding Cons.hyps(2) [symmetric] by simp
qed

text \<open>
  The name \<open>tokenizer\<close> opens is the path, a slash and the entry's name, as long as they
  fit in its buffer.
\<close>

definition path_ok :: "bytes \<Rightarrow> bytes \<Rightarrow> bool" where
  "path_ok abs_path name \<longleftrightarrow> terminated abs_path \<and> terminated name \<and>
     length (cstring abs_path) < MAX_PATH_LEN \<and> length (cstring name) < MAX_WORD_LEN"

definition file_name :: "bytes \<Rightarrow> bytes \<Rightarrow> bytes" where
  "file_name abs_path name = cstring abs_path @ lit ''/'' @ cstring name"

lemma lit_slash: "lit ''/'' = [47]"
  by (simp add: lit_def)

lemma tokenizer_opens:
  assumes "path_ok abs_path name"
  shows "tokenizer A fs dynlist h name abs_path d =
    (case fs (file_name abs_path name) of
       None \<Rightarrow> Some (-1, dynlist, h)
     | Some content \<Rightarrow> do {
         (dynlist', h') \<leftarrow> tokenizer_loop A d 1 dynlist h (replicate (DYN_SIZE + 1) 0)
           \<lparr>st_rest = content, st_eof = False\<rparr>;
         Some (1, dynlist', h')
       })"
proof -
  let ?n = "MAX_WORD_LEN + MAX_PATH_LEN + 1" and ?p = "cstring abs_path" and ?f = "cstring name"
  have ok: "terminated abs_path" "terminated name" "length ?p < MAX_PATH_LEN" "length ?f < MAX_WORD_LEN"
    using assms by (simp_all add: path_ok_def)
  have n: "?n < 2 ^ 64" by (simp add: MAX_WORD_LEN_def MAX_PATH_LEN_def)
  have fit: "length ?p + 1 + length ?f < ?n" "length ?p < ?n" using ok(3,4) by simp_all
  have copy: "StrCopy (Some (replicate ?n 0)) (Some abs_path) ?n = Some (True, ?p @ 0 # drop (Suc (length ?p)) (replicate ?n 0))"
    using ok(1) fit(2) by (intro StrCopy_cstring) (simp_all only: length_replicate)
  let ?b1 = "?p @ 0 # drop (Suc (length ?p)) (replicate ?n (0 :: byte))"
  have l1: "length ?b1 = ?n" using fit(2) by simp
  have c1: "cstring ?b1 = ?p" "terminated ?b1" by simp_all
  have sl: "cstring (lit ''/'' @ [0]) = [47]" "terminated (lit ''/'' @ [0])"
    by (simp_all add: lit_slash cstring_def terminated_def)
  obtain r2 where b2: "StrConcat (Some ?b1) (Some (lit ''/'' @ [0])) ?n = Some (True, ?p @ [47] @ 0 # r2)"
      "length (?p @ [47] @ 0 # r2) = ?n"
    using StrConcat_cstring [OF c1(2) sl(2) n] fit unfolding c1(1) sl(1) l1 by auto
  have c2: "cstring (?p @ [47] @ 0 # r2) = ?p @ [47]" "terminated (?p @ [47] @ 0 # r2)"
    using cstring_append [of "?p @ [47]" r2] terminated_append [of "?p @ [47]" r2] by simp_all
  obtain r3 where b3: "StrConcat (Some (?p @ [47] @ 0 # r2)) (Some name) ?n = Some (True, (?p @ [47]) @ ?f @ 0 # r3)"
    using StrConcat_cstring [OF c2(2) ok(2) n] fit b2(2) unfolding c2(1) by auto
  have c3: "cstring ((?p @ [47]) @ ?f @ 0 # r3) = file_name abs_path name" "terminated ((?p @ [47]) @ ?f @ 0 # r3)"
    using cstring_append [of "?p @ [47] @ ?f" r3] terminated_append [of "?p @ [47] @ ?f" r3]
    by (simp_all add: file_name_def lit_slash)
  show ?thesis
    unfolding tokenizer_def Let_def copy
    by (simp only: Option.bind.simps prod.case b2(1) b3 c3 ok StrGetLength_cstring simp_thms if_False)
qed

lemma tokenizer_refines:
  assumes "represents A (D, h) idx" and "path_ok abs_path name"
    and "fs (file_name abs_path name) = Some content" and "\<forall>L\<in>set (lines content). line_ok L"
    and "has_room (D, h) (dom idx \<union> line_words (lines content))"
  shows "\<exists>D' h'. tokenizer A fs (Some D) h name abs_path d = Some (1, Some D', h') \<and>
    represents A (D', h') (index_lines d 1 (lines content) idx) \<and> has_room (D', h') = has_room (D, h)"
  using tokenizer_loop_lines [of A D h idx "\<lparr>st_rest = content, st_eof = False\<rparr>" d 1
      "replicate (DYN_SIZE + 1) 0"] assms
  by (auto simp: tokenizer_opens)

subsection \<open>The list of file names\<close>

text \<open>
  \<open>file_list\<close> is filled from slot 0 without gaps, although \<open>last_index\<close> is the count of
  names rounded down to an even number.
\<close>

definition file_list_ok :: "struct_DynList \<Rightarrow> addr list \<Rightarrow> bool" where
  "file_list_ok F ps \<longleftrightarrow> 0 \<notin> set ps \<and> length ps \<le> dl_phys_len F \<and> 0 < dl_phys_len F \<and>
     even (dl_phys_len F) \<and> dl_list F = ps @ replicate (dl_phys_len F - length ps) 0 \<and>
     dl_last_index F = 2 * (length ps div 2)"

lemma first_free_append:
  assumes "0 \<notin> set ps" and "i \<le> length ps" and "0 < k"
  shows "first_free (ps @ replicate k 0) i = length ps"
proof -
  have "takeWhile (\<lambda>a. a \<noteq> 0) (drop i ps @ replicate k 0) = drop i ps"
    using assms(1,3) by (cases k) (auto simp: takeWhile_append dest: in_set_dropD)
  then show ?thesis using assms(2) by (simp add: first_free_def)
qed

lemma insert_file:
  assumes ok: "file_list_ok F ps" and p: "p \<noteq> 0" and room: "length ps < dl_phys_len F"
  shows "\<exists>F'. insert_DYNLIST A F p (dl_last_index F) = Some (1, F') \<and> file_list_ok F' (ps @ [p]) \<and>
    dl_phys_len F' = dl_phys_len F"
proof -
  let ?n = "dl_phys_len F" and ?k = "length ps"
  have F: "0 \<notin> set ps" "?k \<le> ?n" "0 < ?n" "even ?n" "dl_list F = ps @ replicate (?n - ?k) 0"
      "dl_last_index F = 2 * (?k div 2)"
    using ok by (simp_all add: file_list_ok_def)
  have less: "\<not> ?n \<le> 2 * (?k div 2)" using room by linarith
  have "first_free (ps @ replicate (?n - ?k) 0) (2 * (?k div 2)) = ?k"
    using F(1) room by (intro first_free_append) simp_all
  then have "insert_slot (ps @ replicate (?n - ?k) 0) ?n (2 * (?k div 2)) p =
      Some ((ps @ replicate (?n - ?k) 0)[?k := p], ?k)"
    using insert_slot_spec [of "2 * (?k div 2)" "ps @ replicate (?n - ?k) 0" p] room by simp
  moreover have "(ps @ replicate (?n - ?k) 0)[?k := p] = (ps @ [p]) @ replicate (?n - Suc ?k) 0"
    using room by (cases "?n - ?k") (simp_all add: list_update_append Suc_diff_Suc [symmetric])
  ultimately have "insert_DYNLIST A F p (dl_last_index F) =
      Some (1, F\<lparr>dl_list := (ps @ [p]) @ replicate (?n - Suc ?k) 0,
          dl_last_index := (if 2 * (?k div 2) < ?k then ?k + 1 else 2 * (?k div 2))\<rparr>)"
    unfolding insert_DYNLIST.simps using F(5,6) less by (simp add: Let_def)
  moreover have "file_list_ok (F\<lparr>dl_list := (ps @ [p]) @ replicate (?n - Suc ?k) 0,
      dl_last_index := (if 2 * (?k div 2) < ?k then ?k + 1 else 2 * (?k div 2))\<rparr>) (ps @ [p])"
  proof -
    have "(if 2 * (?k div 2) < ?k then ?k + 1 else 2 * (?k div 2)) = 2 * (Suc ?k div 2)"
      by (cases "even ?k") (auto elim!: evenE oddE)
    then show ?thesis using F(1,3,4) p room by (simp add: file_list_ok_def)
  qed
  ultimately show ?thesis by auto
qed

text \<open>With the list full, the name goes to the first empty slot of what \<open>tc_realloc\<close> left in the grown part, if there is one.\<close>

lemma insert_file_grows:
  assumes ok: "file_list_ok F ps" and full: "length ps = dl_phys_len F"
    and A: "tc_realloc A (dl_list F) (dl_phys_len F * 2) = Some (dl_list F @ new)" "length new = dl_phys_len F"
  shows "\<exists>F'. insert_DYNLIST A F p (dl_last_index F) = Some (2, F') \<and> dl_phys_len F' = 2 * dl_phys_len F \<and>
    dl_list F' = dl_list F @ (if 0 \<in> set new then new[first_free new 0 := p] else new)"
proof -
  let ?n = "dl_phys_len F"
  have F: "dl_list F = ps" "dl_last_index F = ?n" "0 < ?n"
    using ok full by (simp_all add: file_list_ok_def)
  have ff: "first_free (ps @ new) ?n = ?n + first_free new 0" using full by (simp add: first_free_def)
  have z: "first_free new 0 < length new \<longleftrightarrow> 0 \<in> set new"
  proof (cases "0 \<in> set new")
    case True
    then have "takeWhile (\<lambda>a. a \<noteq> 0) new \<noteq> new" unfolding takeWhile_eq_all_conv by blast
    then have "length (takeWhile (\<lambda>a. a \<noteq> 0) new) \<noteq> length new"
      using takeWhile_eq_take [of "\<lambda>a. a \<noteq> 0" new] by (cases "length (takeWhile (\<lambda>a. a \<noteq> 0) new) = length new") auto
    then show ?thesis using True length_takeWhile_le [of "\<lambda>a. a \<noteq> 0" new] by (simp add: first_free_def)
  next
    case False
    then have "takeWhile (\<lambda>a. a \<noteq> 0) new = new" unfolding takeWhile_eq_all_conv by metis
    then have "length (takeWhile (\<lambda>a. a \<noteq> 0) new) = length new" by (rule arg_cong)
    then show ?thesis using False by (simp add: first_free_def)
  qed
  have "insert_slot (ps @ new) (?n * 2) ?n p =
      Some (if 0 \<in> set new then ps @ new[first_free new 0 := p] else ps @ new, ?n + first_free new 0)"
    using insert_slot_spec [of ?n "ps @ new" p] full A(2) ff z by (simp add: list_update_append mult_2_right)
  then show ?thesis using F A(1) unfolding insert_DYNLIST.simps by (simp add: Let_def mult.commute)
qed

subsection \<open>The whole directory\<close>

definition regular :: "dirent \<Rightarrow> bool" where
  "regular e \<longleftrightarrow> d_type e = DT_REG \<and> cstring (d_name e) \<noteq> lit ''.'' \<and> cstring (d_name e) \<noteq> lit ''..''"

lemma skip_entry_regular:
  assumes "terminated (d_name e)" and "length (cstring (d_name e)) < MAX_WORD_LEN"
  shows "skip_entry e = Some (\<not> regular e)"
proof -
  have d: "terminated (lit ''.'' @ [0])" "cstring (lit ''.'' @ [0]) = lit ''.''"
      "terminated (lit ''..'' @ [0])" "cstring (lit ''..'' @ [0]) = lit ''..''"
    by (simp_all add: lit_def cstring_def terminated_def)
  obtain r1 where r1: "StrCompare (Some (d_name e)) (Some (lit ''.'' @ [0])) MAX_WORD_LEN = Some r1"
      "r1 = 0 \<longleftrightarrow> cstring (d_name e) = lit ''.''"
    using StrCompare_zero_iff [OF assms(1) d(1) assms(2)] d(2) by auto
  obtain r2 where "StrCompare (Some (d_name e)) (Some (lit ''..'' @ [0])) MAX_WORD_LEN = Some r2"
      "r2 = 0 \<longleftrightarrow> cstring (d_name e) = lit ''..''"
    using StrCompare_zero_iff [OF assms(1) d(3) assms(2)] d(4) by auto
  with r1 show ?thesis by (simp add: skip_entry_def regular_def)
qed

text \<open>The documents are the regular entries in the order of the directory.\<close>

fun index_files :: "filesystem \<Rightarrow> bytes \<Rightarrow> nat \<Rightarrow> dirent list \<Rightarrow> index \<Rightarrow> index" where
  "index_files fs path d [] idx = idx"
| "index_files fs path d (e # es) idx =
     index_files fs path (d + 1) es
       (case fs (file_name path (d_name e)) of None \<Rightarrow> idx
        | Some content \<Rightarrow> index_lines d 1 (lines content) idx)"

definition file_lines :: "filesystem \<Rightarrow> bytes \<Rightarrow> dirent \<Rightarrow> bytes list" where
  "file_lines fs path e = (case fs (file_name path (d_name e)) of None \<Rightarrow> [] | Some content \<Rightarrow> lines content)"

definition entry_ok :: "filesystem \<Rightarrow> bytes \<Rightarrow> dirent \<Rightarrow> bool" where
  "entry_ok fs path e \<longleftrightarrow> path_ok path (d_name e) \<and> d_ptr e \<noteq> 0 \<and> (\<forall>L\<in>set (file_lines fs path e). line_ok L)"

definition files_words :: "filesystem \<Rightarrow> bytes \<Rightarrow> dirent list \<Rightarrow> bytes set" where
  "files_words fs path es = (\<Union>e\<in>set es. line_words (file_lines fs path e))"

lemma index_files_Cons:
  "index_files fs path d (e # es) idx =
    index_files fs path (d + 1) es (index_lines d 1 (file_lines fs path e) idx)"
  by (simp add: file_lines_def split: option.split)

lemma tokenizer_entry:
  assumes "represents A (D, h) idx" and "entry_ok fs path e"
    and "has_room (D, h) (dom idx \<union> line_words (file_lines fs path e))"
  shows "\<exists>ret D' h'. tokenizer A fs (Some D) h (d_name e) path d = Some (ret, Some D', h') \<and>
    represents A (D', h') (index_lines d 1 (file_lines fs path e) idx) \<and> has_room (D', h') = has_room (D, h)"
proof (cases "fs (file_name path (d_name e))")
  case None
  then show ?thesis using assms by (simp add: tokenizer_opens entry_ok_def file_lines_def)
next
  case (Some content)
  with assms show ?thesis
    using tokenizer_refines [OF assms(1), of path "d_name e" fs content d] by (auto simp: entry_ok_def file_lines_def)
qed

lemma read_entries_refines:
  assumes "represents A (D, h) idx" and "file_list_ok F ps" and "length ps + length (filter regular es) \<le> dl_phys_len F"
    and "\<forall>e\<in>set es. entry_ok fs path e"
    and "has_room (D, h) (dom idx \<union> files_words fs path (filter regular es))"
  shows "\<exists>D' h' F'. read_entries A fs path d es (Some D) h (Some F) = Some (Some D', h', Some F') \<and>
    represents A (D', h') (index_files fs path d (filter regular es) idx) \<and>
    file_list_ok F' (ps @ map d_ptr (filter regular es)) \<and> has_room (D', h') = has_room (D, h)"
  using assms
proof (induction es arbitrary: d D h F ps idx)
  case Nil
  then show ?case by simp
next
  case (Cons e es)
  have e: "entry_ok fs path e" "path_ok path (d_name e)" "d_ptr e \<noteq> 0"
    using Cons.prems(4) by (simp_all add: entry_ok_def)
  then have skip: "skip_entry e = Some (\<not> regular e)"
    by (intro skip_entry_regular) (simp_all add: path_ok_def)
  show ?case
  proof (cases "regular e")
    case False
    then show ?thesis using Cons.IH [OF Cons.prems(1,2)] Cons.prems(3-5) skip by simp
  next
    case True
    have "length ps < dl_phys_len F" using Cons.prems(3) True by simp
    then obtain F1 where F1: "insert_DYNLIST A F (d_ptr e) (dl_last_index F) = Some (1, F1)"
        "file_list_ok F1 (ps @ [d_ptr e])" "dl_phys_len F1 = dl_phys_len F"
      using insert_file [OF Cons.prems(2) e(3)] by blast
    have room: "has_room (D, h) (dom idx \<union> line_words (file_lines fs path e))"
      by (rule c_index.room_mono [OF Cons.prems(5)]) (auto simp: True files_words_def)
    obtain ret' D1 h1 where t: "tokenizer A fs (Some D) h (d_name e) path d = Some (ret', Some D1, h1)"
        "represents A (D1, h1) (index_lines d 1 (file_lines fs path e) idx)" "has_room (D1, h1) = has_room (D, h)"
      using tokenizer_entry [OF Cons.prems(1) e(1) room] by blast
    have "has_room (D1, h1) (dom (index_lines d 1 (file_lines fs path e) idx) \<union>
        files_words fs path (filter regular es))"
      unfolding t(3) by (rule c_index.room_mono [OF Cons.prems(5)]) (auto simp: True files_words_def)
    moreover have "length (ps @ [d_ptr e]) + length (filter regular es) \<le> dl_phys_len F1" using Cons.prems(3) True F1(3) by simp
    ultimately
    obtain D' h' F' where "read_entries A fs path (d + 1) es (Some D1) h1 (Some F1) = Some (Some D', h', Some F')"
        "represents A (D', h') (index_files fs path (d + 1) (filter regular es)
           (index_lines d 1 (file_lines fs path e) idx))"
        "file_list_ok F' ((ps @ [d_ptr e]) @ map d_ptr (filter regular es))" "has_room (D', h') = has_room (D1, h1)"
      using Cons.IH [OF t(2) F1(2), of "d + 1"] Cons.prems(4) by auto
    then show ?thesis using skip True F1(1) t(1,3) index_files_Cons [of fs path d e] by simp
  qed
qed

lemma file_list_nth:
  assumes "file_list_ok F ps" and "d < length ps"
  shows "rd (dl_list F) d = Some (ps ! d)"
  using assms by (simp add: file_list_ok_def rd_def nth_append)

subsection \<open>Properties\<close>

text \<open>C3. \<open>read_dir\<close> on a directory within its limits: every line of a regular file has at most \<open>DYN_SIZE / 2\<close> bytes, every word
  less than \<open>MAX_WORD_LEN\<close>, the path and the names fit their buffers, the table has room for all words, and there are no more
  regular files than \<open>file_list\<close> has slots at the start, so that it does not grow. Then the index is the fold of \<open>index_add\<close> over the files in
  the order of the directory, their lines numbered from 1 and the words of each line, a file that cannot be opened contributing nothing;
  and slot \<open>d\<close> of \<open>file_list\<close> holds the address of the \<open>d_name\<close> that \<open>readdir\<close> gave for document \<open>d\<close>: the address, not a copy of the
  name.\<close>

theorem read_dir_refines:
  assumes "represents A (D, h) Map.empty" and "file_list_ok F []"
    and "opendir (cstring path) = Some es" and "\<forall>e\<in>set es. entry_ok fs path e"
    and "length (filter regular es) \<le> dl_phys_len F"
    and "has_room (D, h) (files_words fs path (filter regular es))"
  shows "\<exists>D' h' F'. read_dir A fs opendir (Some D) h (Some F) path = Some (True, Some D', h', Some F') \<and>
    represents A (D', h') (index_files fs path 0 (filter regular es) Map.empty) \<and>
    (\<forall>d<length (filter regular es). rd (dl_list F') d = Some (d_ptr (filter regular es ! d)))"
proof -
  obtain D' h' F' where r: "read_entries A fs path 0 es (Some D) h (Some F) = Some (Some D', h', Some F')"
      "represents A (D', h') (index_files fs path 0 (filter regular es) Map.empty)"
      "file_list_ok F' (map d_ptr (filter regular es))"
    using read_entries_refines [OF assms(1,2) _ assms(4), of 0] assms(5,6) by auto
  moreover have "rd (dl_list F') d = Some (d_ptr (filter regular es ! d))" if "d < length (filter regular es)" for d
    using file_list_nth [OF r(3), of d] that by simp
  ultimately show ?thesis using assms(3) by (simp add: read_dir_def)
qed

text \<open>C26. One file more than \<open>file_list\<close> has slots. The list is doubled, and the new half is what \<open>tc_realloc\<close> left there, because \<open>resize\<close> does
  not clear it: the slot of the new document holds the address of its name exactly if it was zero (or that address) before; otherwise
  the slot keeps the stray value, which a reply then takes for the address of a name, and if no slot of the new half is zero the
  address of the name is stored nowhere.\<close>

theorem file_list_growth_needs_zeroes:
  assumes ok: "file_list_ok F ps" and full: "length ps = dl_phys_len F" and A: "realloc_ok A"
  shows "\<exists>new F'. tc_realloc A (dl_list F) (dl_phys_len F * 2) = Some (dl_list F @ new) \<and> length new = dl_phys_len F \<and>
    insert_DYNLIST A F p (dl_last_index F) = Some (2, F') \<and>
    (\<forall>d<length ps. rd (dl_list F') d = Some (ps ! d)) \<and>
    rd (dl_list F') (length ps) = Some (if new ! 0 = 0 then p else new ! 0) \<and>
    (0 \<notin> set new \<longrightarrow> dl_list F' = ps @ new)"
proof -
  let ?n = "dl_phys_len F"
  have F: "dl_list F = ps" "0 < ?n" using ok full by (simp_all add: file_list_ok_def)
  obtain ys where ys: "tc_realloc A (dl_list F) (?n * 2) = Some ys" "length ys = ?n * 2" "take ?n ys = dl_list F"
    using A F(1) full unfolding realloc_ok_def by (metis le_add1 mult_2_right)
  define new where "new = drop ?n ys"
  have new: "tc_realloc A (dl_list F) (?n * 2) = Some (dl_list F @ new)" "length new = ?n"
    using ys append_take_drop_id [of ?n ys] by (simp_all add: new_def)
  obtain F' where F': "insert_DYNLIST A F p (dl_last_index F) = Some (2, F')"
      "dl_list F' = ps @ (if 0 \<in> set new then new[first_free new 0 := p] else new)"
    using insert_file_grows [OF ok full new, of p] F(1) by auto
  have ne: "0 < length new" using new(2) F(2) by simp
  then have ff: "first_free new 0 = (if new ! 0 = 0 then 0 else first_free new 1)" using first_free_step [of 0 new] by simp
  have ge: "1 \<le> first_free new 1" by (rule first_free_ge)
  have z: "new ! 0 = 0 \<Longrightarrow> 0 \<in> set new" using ne by (metis nth_mem)
  have "(if 0 \<in> set new then new[first_free new 0 := p] else new) ! 0 = (if new ! 0 = 0 then p else new ! 0)"
    using ne ff ge z by auto
  moreover have "length (if 0 \<in> set new then new[first_free new 0 := p] else new) = length new" by simp
  ultimately have "rd (dl_list F') (length ps) = Some (if new ! 0 = 0 then p else new ! 0)"
    using ne unfolding F'(2) by (simp add: rd_def nth_append del: if_image_distrib)
  moreover have "\<forall>d<length ps. rd (dl_list F') d = Some (ps ! d)" unfolding F'(2) by (simp add: rd_def nth_append)
  ultimately show ?thesis using new F' by (intro exI [of _ new] exI [of _ F']) simp
qed

text \<open>A list of two names and a \<open>tc_realloc\<close> that leaves old bytes in the grown part.\<close>

theorem file_list_growth_needs_zeroes_witness:
  "\<exists>F'. insert_DYNLIST (sample_alloc\<lparr>tc_realloc := \<lambda>xs n. Some (xs @ replicate (n - length xs) 5)\<rparr>)
      \<lparr>dl_last_index = 2, dl_phys_len = 2, dl_list = [71, 72]\<rparr> 73 2 = Some (2, F') \<and> rd (dl_list F') 2 = Some 5"
proof -
  let ?A = "sample_alloc\<lparr>tc_realloc := \<lambda>xs n. Some (xs @ replicate (n - length xs) 5)\<rparr>"
  let ?F = "\<lparr>dl_last_index = 2, dl_phys_len = 2, dl_list = [71, 72]\<rparr> :: struct_DynList"
  have "file_list_ok ?F [71, 72]" "realloc_ok ?A" by (simp_all add: file_list_ok_def realloc_ok_def)
  then obtain new F' where g: "tc_realloc ?A [71, 72] 4 = Some ([71, 72] @ new)" "insert_DYNLIST ?A ?F 73 2 = Some (2, F')"
      "rd (dl_list F') 2 = Some (if new ! 0 = 0 then 73 else new ! 0)"
    using file_list_growth_needs_zeroes [of ?F "[71, 72]" ?A 73] by (auto simp: numeral_2_eq_2)
  have "new = [5, 5]" using g(1) by (simp add: numeral_eq_Suc)
  then show ?thesis using g(2,3) by auto
qed

text \<open>A directory with two files, one of which cannot be opened.\<close>

definition sample_dir :: "dirent list" where
  "sample_dir = [\<lparr>d_type = 4, d_name = [46, 0], d_ptr = 70\<rparr>, \<lparr>d_type = 8, d_name = [97, 0], d_ptr = 71\<rparr>,
     \<lparr>d_type = 8, d_name = [98, 0], d_ptr = 72\<rparr>]"

definition sample_path :: bytes where "sample_path = [47, 116, 0]"

definition sample_fs :: filesystem where
  "sample_fs = [[47, 116, 47, 97] \<mapsto> [100, 32, 101, 10, 100, 10]]"

definition sample_files :: struct_DynList where
  "sample_files = \<lparr>dl_last_index = 0, dl_phys_len = 2, dl_list = [0, 0]\<rparr>"

lemma sample_tokens: "tokens [100, 32, 101, 10] = [[100], [101]]" "tokens [100, 10] = [[100]]"
  by (simp_all add: tokens.simps skip_blank_def isalpha_def)

lemma sample_file_lines:
  "file_lines sample_fs sample_path \<lparr>d_type = k, d_name = [97, 0], d_ptr = p\<rparr> = [[100, 32, 101, 10], [100, 10]]"
  "file_lines sample_fs sample_path \<lparr>d_type = k, d_name = [98, 0], d_ptr = p\<rparr> = []"
  "file_lines sample_fs sample_path \<lparr>d_type = k, d_name = [46, 0], d_ptr = p\<rparr> = []"
  by (simp_all add: file_lines_def file_name_def sample_fs_def sample_path_def lit_slash cstring_def)

lemma sample_regular: "filter regular sample_dir = tl sample_dir"
  by (simp add: sample_dir_def regular_def DT_REG_def lit_def cstring_def)

lemma sample_dir_words: "files_words sample_fs sample_path (tl sample_dir) = {[100], [101]}"
  by (auto simp: files_words_def sample_dir_def sample_file_lines line_words_def cstring_def sample_tokens)

lemma sample_entries_ok: "\<forall>e\<in>set sample_dir. entry_ok sample_fs sample_path e"
proof -
  have "path_ok sample_path [c, 0]" if "c \<noteq> 0" for c
    using that by (simp add: path_ok_def sample_path_def terminated_def cstring_def MAX_WORD_LEN_def MAX_PATH_LEN_def)
  then show ?thesis
    by (simp add: sample_dir_def entry_ok_def sample_file_lines line_ok_def DYN_SIZE_def MAX_WORD_LEN_def
        cstring_def sample_tokens)
qed

lemma sample_index:
  "index_files sample_fs sample_path 0 (tl sample_dir) Map.empty = [[101] \<mapsto> [(0, [1])], [100] \<mapsto> [(0, [1, 2])]]"
  by (simp add: index_files_Cons sample_dir_def sample_file_lines cstring_def sample_tokens index_add_def post_add_def
      fun_upd_twist del: index_files.simps(2)) (simp only: numeral_2_eq_2)

lemma sample_files_ok: "file_list_ok sample_files []"
  by (simp add: file_list_ok_def sample_files_def numeral_eq_Suc)

lemma sample_files_room: "length (tl sample_dir) \<le> dl_phys_len sample_files"
  by (simp add: sample_dir_def sample_files_def)

theorem read_dir_refines_witness:
  "\<exists>D' h' F'. read_dir sample_alloc sample_fs (\<lambda>_. Some sample_dir) (Some (fst sample_state)) (snd sample_state)
      (Some sample_files) sample_path = Some (True, Some D', h', Some F') \<and>
    represents sample_alloc (D', h') [[101] \<mapsto> [(0, [1])], [100] \<mapsto> [(0, [1, 2])]] \<and> rd (dl_list F') 1 = Some 72"
  using read_dir_refines [of sample_alloc "fst sample_state" "snd sample_state" sample_files
      "\<lambda>_. Some sample_dir" sample_path sample_dir sample_fs]
    sample_state_represents sample_state_room sample_files_ok sample_files_room sample_entries_ok
  unfolding sample_regular sample_dir_words sample_index by (auto simp: sample_dir_def)

end
