(* ===== verification/Query.thy ===== *)
theory Query
  imports Directory Wire
begin

section \<open>Answering a query (server.c)\<close>

text \<open>
  \<open>thread_job\<close>, the job a worker runs for a connection: it receives one request, looks the
  word up, formats one line of text for every occurrence into the packet buffer and sends it, or
  sends an error header. The lemmas show the text that is formatted, and that against an index
  built by \<open>read_dir\<close> the bytes sent are the response the index prescribes.
\<close>

subsection \<open>sprintf\<close>

text \<open>The digits of a \<open>%zu\<close>, and the text of one line of a response.\<close>

fun decimal :: "nat \<Rightarrow> bytes" where
  "decimal n = (if n < 10 then [of_nat (48 + n)] else decimal (n div 10) @ [of_nat (48 + n mod 10)])"

declare decimal.simps [simp del]

definition entry_text :: "bytes \<Rightarrow> nat \<Rightarrow> bytes" where
  "entry_text name line = name @ lit '': line #'' @ decimal line @ [10]"

text \<open>\<open>sprintf(packet + tot_len, ...)\<close> writes the text and a terminator.\<close>

definition sprintf_entry :: "bytes \<Rightarrow> nat \<Rightarrow> bytes \<Rightarrow> nat \<Rightarrow> (nat \<times> bytes) option" where
  "sprintf_entry packet tot name line =
     map_option (\<lambda>packet'. (length (entry_text name line), packet'))
       (wr_block packet tot (entry_text name line @ [0]))"

subsection \<open>thread_job\<close>

text \<open>
  \<open>names\<close> is the memory the pointers in \<open>file_list\<close> lead to: the \<open>d_name\<close> fields of the
  entries that \<open>readdir\<close> returned, as they are when the query runs.
\<close>

type_synonym name_memory = "addr \<Rightarrow> bytes option"

function doc_lines ::
  "struct_DynList \<Rightarrow> name_memory \<Rightarrow> struct_LinkedList \<Rightarrow> bytes \<Rightarrow> nat \<Rightarrow> nat \<Rightarrow> (bytes \<times> nat) option" where
  "doc_lines file_list names docs packet tot i =
     (if i < ll_last_index docs
      then case rd (dl_list file_list) (ll_val docs) of
             None \<Rightarrow> None
           | Some p \<Rightarrow>
               (case names p of
                  None \<Rightarrow> None
                | Some name \<Rightarrow>
                    if \<not> terminated name then None
                    else case rd (ll_list docs) i of
                           None \<Rightarrow> None
                         | Some line \<Rightarrow>
                             (case sprintf_entry packet tot (cstring name) line of
                                None \<Rightarrow> None
                              | Some (n, packet') \<Rightarrow> doc_lines file_list names docs packet' (tot + n) (Suc i)))
      else Some (packet, tot))"
  by pat_completeness auto
termination
  by (relation "measure (\<lambda>(file_list, names, docs, packet, tot, i). ll_last_index docs - i)") auto

declare doc_lines.simps [simp del]

partial_function (option) format_docs ::
  "heap \<Rightarrow> struct_DynList \<Rightarrow> name_memory \<Rightarrow> addr \<Rightarrow> bytes \<Rightarrow> nat \<Rightarrow> (bytes \<times> nat) option" where
  "format_docs h file_list names docs packet tot =
     (if docs = 0 then Some (packet, tot)
      else do {
        n \<leftarrow> links h docs;
        (packet', tot') \<leftarrow> doc_lines file_list names n packet tot 0;
        format_docs h file_list names (ll_next n) packet' tot'
      })"

record conn =
  rx :: "rd_event list"
  tx :: "wr_event list"
  sent :: bytes
  closed :: bool

text \<open>
  The result \<open>sent_header == NULL\<close> of \<open>create_pckt\<close> is not tested: the header is
  sent and freed through the NULL pointer, which has no defined result.
\<close>

definition send_hdr :: "struct_Hdr option \<Rightarrow> wr_event list \<Rightarrow> bytes \<Rightarrow> (wr_event list \<times> bytes) option" where
  "send_hdr header es out = do {
     H \<leftarrow> header;
     (_, es', out') \<leftarrow> send_to_host (hdr_bytes H) HDR_LEN es out;
     Some (es', out')
   }"

definition answer ::
  "allocator \<Rightarrow> struct_DynList \<Rightarrow> struct_DynList \<Rightarrow> name_memory \<Rightarrow> heap \<Rightarrow> bytes \<Rightarrow>
    wr_event list \<Rightarrow> bytes \<Rightarrow> (heap \<times> wr_event list \<times> bytes) option" where
  "answer A Dynlist file_list names h packet es out = do {
     u \<leftarrow> hash_function packet;
     if dl_phys_len Dynlist = 0 then None
     else do {
       word \<leftarrow> lookup h Dynlist packet (unat u mod dl_phys_len Dynlist);
       if word \<noteq> 0 then do {
         w \<leftarrow> words h word;
         (packet', tot) \<leftarrow> format_docs h file_list names (wd_list w) packet 0;
         let (sent_header, h') = create_pckt A h tot (msg_code RESPONSE);
         (es1, out1) \<leftarrow> send_hdr sent_header es out;
         (_, es2, out2) \<leftarrow> send_to_host packet' tot es1 out1;
         Some (h', es2, out2)
       }
       else do {
         let (error_header, h') = create_pckt A h 0 (msg_code ERROR);
         (es1, out1) \<leftarrow> send_hdr error_header es out;
         Some (h', es1, out1)
       }
     }
   }"

definition thread_job ::
  "allocator \<Rightarrow> struct_DynList \<Rightarrow> struct_DynList \<Rightarrow> name_memory \<Rightarrow> heap \<Rightarrow> conn \<Rightarrow> (heap \<times> conn) option" where
  "thread_job A Dynlist file_list names h c =
     (if new_addr A (calls h) = 0 then None
      else do {
        let packet = map (junk A) [0..<DYN_SIZE + 1];
        let h1 = h\<lparr>calls := calls h + 1\<rparr>;
        (_, packet1, rx1) \<leftarrow> recv_from_host packet HDR_LEN (rx c);
        header \<leftarrow> read_hdr packet1;
        if msg_type header = htonl (msg_code REQUEST) then do {
          let len = payload_len header;
          (tmp, packet2, rx2) \<leftarrow> recv_from_host packet1 (to_size len) rx1;
          packet3 \<leftarrow> (if tmp < 0 then None else wr packet2 (nat tmp) 0);
          (h2, es, out) \<leftarrow> answer A Dynlist file_list names h1 packet3 (tx c) (sent c);
          Some (h2, c\<lparr>rx := rx2, tx := es, sent := out, closed := True\<rparr>)
        }
        else Some (h1, c\<lparr>rx := rx1, closed := True\<rparr>)
      })"

subsection \<open>The text of a response\<close>

definition posting_text :: "(nat \<Rightarrow> bytes) \<Rightarrow> posting \<Rightarrow> bytes" where
  "posting_text name = (\<lambda>(d, ls). concat (map (entry_text (name d)) ls))"

definition response_text :: "(nat \<Rightarrow> bytes) \<Rightarrow> posting list \<Rightarrow> bytes" where
  "response_text name ps = concat (map (posting_text name) ps)"

definition names_ok :: "struct_DynList \<Rightarrow> name_memory \<Rightarrow> (nat \<Rightarrow> bytes) \<Rightarrow> nat set \<Rightarrow> bool" where
  "names_ok F names name ds \<longleftrightarrow> (\<forall>d\<in>ds. \<exists>p m. rd (dl_list F) d = Some p \<and> names p = Some m \<and>
     terminated m \<and> cstring m = name d)"

text \<open>The packet holds \<open>T\<close> from its start.\<close>

definition holds :: "bytes \<Rightarrow> bytes \<Rightarrow> bool" where
  "holds packet T \<longleftrightarrow> take (length T) packet = T"

lemma sprintf_holds:
  assumes "holds packet T" and "length T + length (entry_text name line) < length packet"
  shows "\<exists>packet'. sprintf_entry packet (length T) name line = Some (length (entry_text name line), packet') \<and>
    holds packet' (T @ entry_text name line) \<and> length packet' = length packet"
  using assms by (auto simp: sprintf_entry_def wr_block_def holds_def)

lemma doc_lines_text:
  assumes "node_ok n" and "names_ok F names name {ll_val n}" and "holds packet T"
    and "length T + length (concat (map (entry_text (name (ll_val n))) (drop i (node_lines n)))) < length packet"
    and "i \<le> ll_last_index n"
  shows "\<exists>packet'. doc_lines F names n packet (length T) i =
      Some (packet', length (T @ concat (map (entry_text (name (ll_val n))) (drop i (node_lines n))))) \<and>
    holds packet' (T @ concat (map (entry_text (name (ll_val n))) (drop i (node_lines n)))) \<and>
    length packet' = length packet"
  using assms(3-)
proof (induction "ll_last_index n - i" arbitrary: i packet T)
  case 0
  then show ?case using assms(1) by (subst doc_lines.simps) (simp add: node_lines_def)
next
  case (Suc k)
  let ?nm = "name (ll_val n)"
  have i: "i < ll_last_index n" "i < length (ll_list n)"
    using Suc.hyps(2) assms(1) unfolding node_ok_def by linarith+
  have d: "drop i (node_lines n) = ll_list n ! i # drop (Suc i) (node_lines n)"
    using i by (simp add: node_lines_def drop_nth_Cons [of i "take (ll_last_index n) (ll_list n)"])
  obtain p m where p: "rd (dl_list F) (ll_val n) = Some p" "names p = Some m" "terminated m" "cstring m = ?nm"
    using assms(2) by (auto simp: names_ok_def)
  let ?E = "entry_text ?nm (ll_list n ! i)"
  obtain packet1 where p1: "sprintf_entry packet (length T) ?nm (ll_list n ! i) = Some (length ?E, packet1)"
      "holds packet1 (T @ ?E)" "length packet1 = length packet"
    using sprintf_holds [OF Suc.prems(1), of ?nm "ll_list n ! i"] Suc.prems(2) unfolding d by auto
  have "doc_lines F names n packet (length T) i = doc_lines F names n packet1 (length (T @ ?E)) (Suc i)"
    using i p p1(1) by (subst doc_lines.simps) (simp add: c_step)
  moreover have "k = ll_last_index n - Suc i" "Suc i \<le> ll_last_index n" using Suc.hyps(2) i by simp_all
  ultimately show ?case
    using Suc.hyps(1) [of "Suc i" packet1 "T @ ?E"] p1(2,3) Suc.prems(2) unfolding d by auto
qed

lemma format_docs_text:
  assumes "chain h p as" and "names_ok F names name (doc h ` set as)" and "holds packet T"
    and "length T + length (response_text name (map (posting_at h) as)) < length packet"
  shows "\<exists>packet'. format_docs h F names p packet (length T) =
      Some (packet', length (T @ response_text name (map (posting_at h) as))) \<and>
    holds packet' (T @ response_text name (map (posting_at h) as)) \<and> length packet' = length packet"
  using assms
proof (induction as arbitrary: p packet T)
  case Nil
  then show ?case by (subst format_docs.simps) (simp add: chain_def response_text_def)
next
  case (Cons a as)
  then obtain n where n: "links h a = Some n" "p = a" "a \<noteq> 0" "chain h (ll_next n) as" "node_ok n"
    by (auto simp: chain_def link_next_def)
  let ?P = "concat (map (entry_text (name (ll_val n))) (node_lines n))"
  let ?R = "response_text name (map (posting_at h) as)"
  have R: "response_text name (map (posting_at h) (a # as)) = ?P @ ?R"
    using n(1) by (simp add: response_text_def posting_text_def posting_at_def doc_def)
  have nm: "names_ok F names name {ll_val n}" "names_ok F names name (doc h ` set as)"
    using Cons.prems(2) n(1) by (auto simp: names_ok_def doc_def)
  obtain packet1 where p1: "doc_lines F names n packet (length T) 0 = Some (packet1, length (T @ ?P))"
      "holds packet1 (T @ ?P)" "length packet1 = length packet"
    using doc_lines_text [OF n(5) nm(1) Cons.prems(3), of 0] Cons.prems(4) unfolding R by auto
  have "length (T @ ?P) + length ?R < length packet1"
    using Cons.prems(4) p1(3) unfolding R by simp
  then obtain packet2 where p2: "format_docs h F names (ll_next n) packet1 (length (T @ ?P)) = Some (packet2, length ((T @ ?P) @ ?R))"
      "holds packet2 ((T @ ?P) @ ?R)" "length packet2 = length packet1"
    using Cons.IH [OF n(4) nm(2) p1(2)] by blast
  have "format_docs h F names p packet (length T) = Some (packet2, length (T @ ?P @ ?R))"
    using n(1-3) p1(1) p2(1) by (subst format_docs.simps) simp
  then show ?case using p2(2,3) p1(3) unfolding R by auto
qed

subsection \<open>A query against an index\<close>

text \<open>Looking a string up in a table that represents an index.\<close>

lemma lookup_represents:
  assumes rep: "index_rep A D h P idx" and str: "terminated str"
    and room: "has_room (D, h) (insert (cstring str) (dom idx))"
  shows "\<exists>a. lookup h D str (home (length (dl_list D)) (cstring str)) = Some a \<and>
    (case idx (cstring str) of None \<Rightarrow> a = 0
     | Some ps \<Rightarrow> a \<noteq> 0 \<and> (\<exists>w. words h a = Some w \<and> chain h (wd_list w) (P a) \<and> ps = map (posting_at h) (P a)))"
proof -
  note R = index_rep_D [OF rep]
  let ?n = "length (dl_list D)"
  have "home ?n (cstring str) + card (insert (cstring str) (dom idx)) < ?n"
    using room by (simp add: has_room_def)
  moreover have "card (table_words D) \<le> card (insert (cstring str) (dom idx))"
    using index_rep_card [OF rep] by (metis card_insert_le)
  ultimately have "first_free (dl_list D) (home ?n (cstring str)) < ?n"
    using first_free_bound [OF R(3), of "home ?n (cstring str)"] by simp
  then obtain a where a: "lookup h D str (home ?n (cstring str)) = Some a"
      "if \<exists>b\<in>table_words D. key h b = cstring str then a \<in> table_words D \<and> key h a = cstring str else a = 0"
    using lookup_table [OF R(3) str] by blast
  show ?thesis
  proof (cases "idx (cstring str)")
    case None
    then have "cstring str \<notin> key h ` table_words D" using R(6) by (metis domIff)
    then have "\<not> (\<exists>b\<in>table_words D. key h b = cstring str)" by (metis imageI)
    then have "a = 0" using a(2) by (simp only: if_False)
    then show ?thesis using a(1) None by simp
  next
    case (Some ps)
    then have "cstring str \<in> key h ` table_words D" using R(6) by (metis domI)
    then have "\<exists>b\<in>table_words D. key h b = cstring str" by (metis imageE)
    then have aw: "a \<in> table_words D" "key h a = cstring str" using a(2) by simp_all
    moreover from aw(1) have "a \<noteq> 0" by (simp add: table_words_def)
    ultimately show ?thesis using a(1) Some R(5) [OF aw(1)] by auto
  qed
qed

lemma sint_code_distinct: "htonl (msg_code t) = htonl (msg_code u) \<longleftrightarrow> t = u"
  by (cases t; cases u; simp)

lemma send_hdr_all:
  assumes "Write_error \<notin> set es"
  shows "\<exists>es'. send_hdr (Some H) es out = Some (es', out @ hdr_bytes H) \<and> Write_error \<notin> set es'"
  using send_to_host_all [OF assms, of HDR_LEN "hdr_bytes H" out] by (auto simp: send_hdr_def)

text \<open>What a server should send for a word of an index.\<close>

definition wire_packet :: "MSG_TYPE \<Rightarrow> bytes \<Rightarrow> bytes" where
  "wire_packet t s = hdr_bytes \<lparr>tot_len = htonl (of_nat (length s + HDR_LEN)), msg_type = htonl (msg_code t)\<rparr> @ s"

definition reply :: "(nat \<Rightarrow> bytes) \<Rightarrow> index \<Rightarrow> bytes \<Rightarrow> bytes" where
  "reply name idx t = (case idx t of None \<Rightarrow> wire_packet ERROR []
     | Some ps \<Rightarrow> wire_packet RESPONSE (response_text name ps))"

lemma create_pckt_ok:
  "alloc_ok A \<Longrightarrow> create_pckt A h n m =
     (Some \<lparr>tot_len = htonl (of_nat (n + HDR_LEN)), msg_type = htonl m\<rparr>, h\<lparr>calls := calls h + 1\<rparr>)"
  by (simp add: create_pckt_def new_addr_nonnull)

lemma answer_reply:
  assumes rep: "represents A (D, h) idx" and buf: "terminated buf"
    and room: "has_room (D, h) (insert (cstring buf) (dom idx))"
    and names: "\<forall>ps. idx (cstring buf) = Some ps \<longrightarrow>
      names_ok F names name (fst ` set ps) \<and> length (response_text name ps) < length buf"
    and es: "Write_error \<notin> set es"
  shows "\<exists>h' es'. answer A D F names h buf es out = Some (h', es', out @ reply name idx (cstring buf)) \<and>
    Write_error \<notin> set es' \<and> links h' = links h \<and> words h' = words h"
proof -
  obtain P where P: "index_rep A D h P idx" using rep by (auto simp: represents_def)
  note R = index_rep_D [OF P]
  let ?n = "length (dl_list D)"
  obtain a where a: "lookup h D buf (home ?n (cstring buf)) = Some a"
      "case idx (cstring buf) of None \<Rightarrow> a = 0
       | Some ps \<Rightarrow> a \<noteq> 0 \<and> (\<exists>w. words h a = Some w \<and> chain h (wd_list w) (P a) \<and> ps = map (posting_at h) (P a))"
    using lookup_represents [OF P buf room] by blast
  have pos: "dl_phys_len D = ?n" "?n \<noteq> 0" using table_ok_D(1,2) [OF R(3)] by simp_all
  have hash: "hash_function buf = Some (hash_of (cstring buf))" by (rule hash_function_cstring [OF buf])
  have pre: "hash_function buf = Some (hash_of (cstring buf))" "dl_phys_len D \<noteq> 0"
      "lookup h D buf (unat (hash_of (cstring buf)) mod dl_phys_len D) = Some a"
    using hash a(1) pos by (simp_all add: home_def)
  show ?thesis
  proof (cases "idx (cstring buf)")
    case None
    then have a0: "a = 0" using a(2) by simp
    obtain es1 where "send_hdr (Some \<lparr>tot_len = htonl (of_nat (0 + HDR_LEN)), msg_type = htonl (msg_code ERROR)\<rparr>) es out =
        Some (es1, out @ hdr_bytes \<lparr>tot_len = htonl (of_nat (0 + HDR_LEN)), msg_type = htonl (msg_code ERROR)\<rparr>)"
        "Write_error \<notin> set es1"
      using send_hdr_all [OF es] by blast
    then show ?thesis using None pre a0 create_pckt_ok [OF R(1), of h 0]
      by (simp add: answer_def reply_def wire_packet_def)
  next
    case (Some ps)
    then obtain w where w: "a \<noteq> 0" "words h a = Some w" "chain h (wd_list w) (P a)" "ps = map (posting_at h) (P a)"
      using a(2) by auto
    have nm: "names_ok F names name (doc h ` set (P a))"
      using names Some w(4) by (auto simp: posting_at_def image_image)
    have fit: "length (response_text name ps) < length buf" using names Some by blast
    obtain buf' where f: "format_docs h F names (wd_list w) buf 0 = Some (buf', length (response_text name ps))"
        "holds buf' (response_text name ps)" "length buf' = length buf"
      using format_docs_text [OF w(3) nm, of buf "[]"] fit w(4) by (auto simp: holds_def)
    let ?H = "\<lparr>tot_len = htonl (of_nat (length (response_text name ps) + HDR_LEN)), msg_type = htonl (msg_code RESPONSE)\<rparr>"
    obtain es1 where s1: "send_hdr (Some ?H) es out = Some (es1, out @ hdr_bytes ?H)" "Write_error \<notin> set es1"
      using send_hdr_all [OF es] by blast
    obtain es2 where "send_to_host buf' (length (response_text name ps)) es1 (out @ hdr_bytes ?H) =
        Some (int (length (response_text name ps)), es2, (out @ hdr_bytes ?H) @ take (length (response_text name ps)) buf')"
        "Write_error \<notin> set es2"
      using send_to_host_all [OF s1(2)] fit f(3) by (metis less_imp_le)
    then show ?thesis
      using Some pre w(1,2) f s1(1) create_pckt_ok [OF R(1), of h "length (response_text name ps)"]
      by (simp add: answer_def reply_def wire_packet_def holds_def)
  qed
qed

text \<open>Allocator calls that store nothing in the index leave it as it is.\<close>

lemma index_rep_calls:
  assumes "index_rep A D h P idx" and "calls h \<le> k"
  shows "index_rep A D (h\<lparr>calls := k\<rparr>) P idx"
proof -
  let ?h = "h\<lparr>calls := k\<rparr>"
  have eqs: "chain ?h p as = chain h p as" "map (posting_at ?h) as = map (posting_at h) as" for p as
    by (rule chain_cong postings_cong, simp)+
  have fields: "words ?h = words h" "calls ?h = k" "key ?h = key h" "word_ok ?h = word_ok h"
    by (auto simp: fun_eq_iff key_def word_ok_def)
  have "table_ok ?h D = table_ok h D" by (simp add: table_ok_def fields)
  moreover have "new_addr A ` {..<calls h} \<subseteq> new_addr A ` {..<k}" using assms(2) by auto
  ultimately show ?thesis
    using assms(1) unfolding index_rep_def eqs fields by (meson subset_trans)
qed

text \<open>
  One connection, whatever the segmentation of the request and however the kernel takes
  the response. The request is a packet with a word that fits the buffer: \<open>answer\<close> gets the word as a string.
\<close>

lemma thread_job_request:
  assumes A: "alloc_ok A" and rx: "delivers (rx c) (wire_packet REQUEST t @ rest)" and t: "0 \<notin> set t" "length t \<le> DYN_SIZE"
  shows "\<exists>req r. terminated req \<and> cstring req = t \<and> length req = DYN_SIZE + 1 \<and> delivers r rest \<and>
    thread_job A D F names h c = do {
      (h2, es, out) \<leftarrow> answer A D F names (h\<lparr>calls := calls h + 1\<rparr>) req (tx c) (sent c);
      Some (h2, c\<lparr>rx := r, tx := es, sent := out, closed := True\<rparr>)
    }"
proof -
  define H where "H = \<lparr>tot_len = htonl (of_nat (length t + HDR_LEN)), msg_type = htonl (msg_code REQUEST)\<rparr>"
  let ?buf = "map (junk A) [0..<DYN_SIZE + 1]"
  have len: "HDR_LEN \<le> length ?buf" "length t \<le> length ?buf"
    using t(2) by (simp_all add: HDR_LEN_def DYN_SIZE_def)
  have small: "length t < 2 ^ 31" using t(2) by (simp add: DYN_SIZE_def)
  have H: "msg_type H = htonl (msg_code REQUEST)" "to_size (payload_len H) = length t"
    using payload_len_pckt [OF small] by (simp_all only: H_def struct_Hdr.simps)
  obtain b1 r1 b2 r2 where b: "recv_from_host ?buf HDR_LEN (rx c) = Some (int HDR_LEN, b1, r1)" "read_hdr b1 = Some H"
      "recv_from_host b1 (length t) r1 = Some (int (length t), t @ b2, r2)" "length (t @ b2) = length ?buf"
      "delivers r2 rest"
    using sock.get_packet [of "rx c" H t rest ?buf] rx len by (auto simp: wire_packet_def H_def)
  have "length t < length (t @ b2)" unfolding b(4) using t(2) by simp
  then obtain x b3 where b3: "b2 = x # b3" by (cases b2) auto
  let ?req = "t @ 0 # b3"
  have wr: "wr (t @ b2) (nat (int (length t))) 0 = Some ?req" by (simp add: wr_def b3)
  have lreq: "length ?req = DYN_SIZE + 1" using b(4) by (simp add: b3)
  have cs: "cstring ?req = t" "terminated ?req" using t(1) by simp_all
  have "thread_job A D F names h c = do {
      (h2, es, out) \<leftarrow> answer A D F names (h\<lparr>calls := calls h + 1\<rparr>) ?req (tx c) (sent c);
      Some (h2, c\<lparr>rx := r2, tx := es, sent := out, closed := True\<rparr>)
    }"
    unfolding thread_job_def Let_def
    using new_addr_nonnull [OF A, of "calls h"] b(1-3) wr H
    by (simp del: upt_Suc msg_code.simps)
  then show ?thesis using cs lreq b(5) by (intro exI [of _ ?req] exI [of _ r2]) simp
qed

lemma thread_job_reply:
  assumes rep: "represents A (D, h) idx" and rx: "delivers (rx c) (wire_packet REQUEST t @ rest)"
    and tx: "Write_error \<notin> set (tx c)" and t: "0 \<notin> set t" "length t \<le> DYN_SIZE"
    and room: "has_room (D, h) (insert t (dom idx))"
    and names: "\<forall>ps. idx t = Some ps \<longrightarrow>
      names_ok F names name (fst ` set ps) \<and> length (response_text name ps) \<le> DYN_SIZE"
  shows "\<exists>h' c'. thread_job A D F names h c = Some (h', c') \<and>
    sent c' = sent c @ reply name idx t \<and> closed c' \<and> delivers (rx c') rest \<and>
    links h' = links h \<and> words h' = words h"
proof -
  let ?h = "h\<lparr>calls := calls h + 1\<rparr>"
  have A: "alloc_ok A" using rep by (auto simp: represents_def index_rep_def)
  have rep': "represents A (D, ?h) idx"
    using rep index_rep_calls [of A D h _ idx "calls h + 1"] by (auto simp: represents_def)
  have room': "has_room (D, ?h) W = has_room (D, h) W" for W by (simp add: has_room_def)
  obtain req r where q: "terminated req" "cstring req = t" "length req = DYN_SIZE + 1" "delivers r rest"
      "thread_job A D F names h c = do {
        (h2, es, out) \<leftarrow> answer A D F names ?h req (tx c) (sent c);
        Some (h2, c\<lparr>rx := r, tx := es, sent := out, closed := True\<rparr>)
      }"
    using thread_job_request [OF A rx t] by blast
  obtain h' es' where "answer A D F names ?h req (tx c) (sent c) = Some (h', es', sent c @ reply name idx t)"
      "links h' = links ?h" "words h' = words ?h"
    using answer_reply [OF rep' q(1), of F names name "tx c" "sent c"] room names tx
    unfolding q(2,3) room' by (auto simp: less_Suc_eq_le)
  then show ?thesis using q(4,5) by simp
qed

subsection \<open>Names that cannot be read\<close>

text \<open>
  The names are read through the pointers of \<open>file_list\<close> when the query runs. A document whose
  pointer does not lead to a string then leaves the whole reply without a defined result.
\<close>

definition names_readable :: "struct_DynList \<Rightarrow> name_memory \<Rightarrow> nat set \<Rightarrow> bool" where
  "names_readable F names ds \<longleftrightarrow> (\<forall>d\<in>ds. \<exists>p m. rd (dl_list F) d = Some p \<and> names p = Some m \<and> terminated m)"

lemma format_docs_unreadable:
  assumes "chain h p as" and "\<forall>a\<in>set as. node_lines (the (links h a)) \<noteq> []" and "\<not> names_readable F names (doc h ` set as)"
  shows "format_docs h F names p packet tot = None"
  using assms
proof (induction as arbitrary: p packet tot)
  case Nil
  then show ?case by (simp add: names_readable_def)
next
  case (Cons a as)
  then obtain n where n: "links h a = Some n" "p = a" "a \<noteq> 0" "chain h (ll_next n) as"
    by (auto simp: chain_def link_next_def)
  have run: "format_docs h F names p packet tot = do {
      (packet', tot') \<leftarrow> doc_lines F names n packet tot 0;
      format_docs h F names (ll_next n) packet' tot'
    }"
    using n(1-3) by (subst format_docs.simps) simp
  show ?case
  proof (cases "names_readable F names {ll_val n}")
    case True
    then have "\<not> names_readable F names (doc h ` set as)"
      using Cons.prems(3) n(1) by (auto simp: names_readable_def doc_def)
    then have "format_docs h F names (ll_next n) q k = None" for q k using Cons.IH [OF n(4)] Cons.prems(2) by simp
    then show ?thesis unfolding run by (simp split: Option.bind_split prod.split)
  next
    case False
    have "node_lines n \<noteq> []" using Cons.prems(2) n(1) by simp
    then have "0 < ll_last_index n" by (simp add: node_lines_def)
    then have "doc_lines F names n packet tot 0 = None"
      using False by (subst doc_lines.simps) (auto simp: names_readable_def split: option.splits)
    then show ?thesis unfolding run by simp
  qed
qed

lemma answer_unreadable:
  assumes rep: "represents A (D, h) idx" and buf: "terminated buf"
    and room: "has_room (D, h) (insert (cstring buf) (dom idx))"
    and ps: "idx (cstring buf) = Some ps" "\<forall>(d, ls)\<in>set ps. ls \<noteq> []" "\<not> names_readable F names (fst ` set ps)"
  shows "answer A D F names h buf es out = None"
proof -
  obtain P where P: "index_rep A D h P idx" using rep by (auto simp: represents_def)
  note R = index_rep_D [OF P]
  let ?n = "length (dl_list D)"
  obtain a w where a: "lookup h D buf (home ?n (cstring buf)) = Some a" "a \<noteq> 0" "words h a = Some w"
      "chain h (wd_list w) (P a)" "ps = map (posting_at h) (P a)"
    using lookup_represents [OF P buf room] ps(1) by auto
  have "dl_phys_len D = ?n" "?n \<noteq> 0" using table_ok_D(1,2) [OF R(3)] by simp_all
  then have pre: "hash_function buf = Some (hash_of (cstring buf))" "dl_phys_len D \<noteq> 0"
      "lookup h D buf (unat (hash_of (cstring buf)) mod dl_phys_len D) = Some a"
    using hash_function_cstring [OF buf] a(1) by (simp_all add: home_def)
  have "\<not> names_readable F names (doc h ` set (P a))" "\<forall>b\<in>set (P a). node_lines (the (links h b)) \<noteq> []"
    using ps(2,3) a(5) by (auto simp: posting_at_def image_image)
  then have "format_docs h F names (wd_list w) buf 0 = None" using format_docs_unreadable [OF a(4)] by blast
  then show ?thesis using pre a(2,3) by (simp add: answer_def)
qed

lemma thread_job_unreadable:
  assumes rep: "represents A (D, h) idx" and rx: "delivers (rx c) (wire_packet REQUEST t @ rest)"
    and t: "0 \<notin> set t" "length t \<le> DYN_SIZE" and room: "has_room (D, h) (insert t (dom idx))"
    and ps: "idx t = Some ps" "\<forall>(d, ls)\<in>set ps. ls \<noteq> []" "\<not> names_readable F names (fst ` set ps)"
  shows "thread_job A D F names h c = None"
proof -
  let ?h = "h\<lparr>calls := calls h + 1\<rparr>"
  have A: "alloc_ok A" using rep by (auto simp: represents_def index_rep_def)
  have rep': "represents A (D, ?h) idx"
    using rep index_rep_calls [of A D h _ idx "calls h + 1"] by (auto simp: represents_def)
  have room': "has_room (D, ?h) W = has_room (D, h) W" for W by (simp add: has_room_def)
  obtain req r where q: "terminated req" "cstring req = t"
      "thread_job A D F names h c = do {
        (h2, es, out) \<leftarrow> answer A D F names ?h req (tx c) (sent c);
        Some (h2, c\<lparr>rx := r, tx := es, sent := out, closed := True\<rparr>)
      }"
    using thread_job_request [OF A rx t] by blast
  have "answer A D F names ?h req (tx c) (sent c) = None"
    by (rule answer_unreadable [OF rep' q(1)]) (use room ps room' q(2) in simp_all)
  then show ?thesis using q(3) by simp
qed

subsection \<open>What a client can do to the server\<close>

lemma doc_lines_overflow:
  assumes "node_ok n" and "names_ok F names name {ll_val n}" and "holds packet T" and "length T < length packet"
    and "length packet \<le> length T + length (concat (map (entry_text (name (ll_val n))) (drop i (node_lines n))))"
    and "i \<le> ll_last_index n"
  shows "doc_lines F names n packet (length T) i = None"
  using assms(3-)
proof (induction "ll_last_index n - i" arbitrary: i packet T)
  case 0
  then show ?case using assms(1) by (simp add: node_lines_def)
next
  case (Suc k)
  let ?nm = "name (ll_val n)"
  have i: "i < ll_last_index n" "i < length (ll_list n)"
    using Suc.hyps(2) assms(1) unfolding node_ok_def by linarith+
  have d: "drop i (node_lines n) = ll_list n ! i # drop (Suc i) (node_lines n)"
    using i by (simp add: node_lines_def drop_nth_Cons [of i "take (ll_last_index n) (ll_list n)"])
  obtain p m where p: "rd (dl_list F) (ll_val n) = Some p" "names p = Some m" "terminated m" "cstring m = ?nm"
    using assms(2) by (auto simp: names_ok_def)
  let ?E = "entry_text ?nm (ll_list n ! i)"
  show ?case
  proof (cases "length T + length ?E < length packet")
    case False
    then have "sprintf_entry packet (length T) ?nm (ll_list n ! i) = None"
      by (simp add: sprintf_entry_def wr_block_def)
    then show ?thesis using i p by (subst doc_lines.simps) (simp add: c_step)
  next
    case True
    obtain packet1 where p1: "sprintf_entry packet (length T) ?nm (ll_list n ! i) = Some (length ?E, packet1)"
        "holds packet1 (T @ ?E)" "length packet1 = length packet"
      using sprintf_holds [OF Suc.prems(1) True] by blast
    have "doc_lines F names n packet (length T) i = doc_lines F names n packet1 (length (T @ ?E)) (Suc i)"
      using i p p1(1) by (subst doc_lines.simps) (simp add: c_step)
    also have "\<dots> = None"
      using Suc.hyps(2) i p1 True Suc.prems(3) unfolding d by (intro Suc.hyps(1)) simp_all
    finally show ?thesis .
  qed
qed

lemma format_docs_overflow:
  assumes "chain h p as" and "names_ok F names name (doc h ` set as)" and "holds packet T" and "length T < length packet"
    and "length packet \<le> length T + length (response_text name (map (posting_at h) as))"
  shows "format_docs h F names p packet (length T) = None"
  using assms
proof (induction as arbitrary: p packet T)
  case Nil
  then show ?case by (simp add: response_text_def)
next
  case (Cons a as)
  then obtain n where n: "links h a = Some n" "p = a" "a \<noteq> 0" "chain h (ll_next n) as" "node_ok n"
    by (auto simp: chain_def link_next_def [of h a])
  let ?P = "concat (map (entry_text (name (ll_val n))) (node_lines n))"
  let ?R = "response_text name (map (posting_at h) as)"
  have R: "response_text name (map (posting_at h) (a # as)) = ?P @ ?R"
    using n(1) by (simp add: response_text_def posting_text_def posting_at_def doc_def)
  have nm: "names_ok F names name {ll_val n}" "names_ok F names name (doc h ` set as)"
    using Cons.prems(2) n(1) by (auto simp: names_ok_def doc_def)
  have un: "format_docs h F names p packet (length T) =
      Option.bind (doc_lines F names n packet (length T) 0)
        (\<lambda>(packet', tot'). format_docs h F names (ll_next n) packet' tot')"
    using n(1-3) by (subst format_docs.simps) simp
  show ?case
  proof (cases "length T + length ?P < length packet")
    case False
    then show ?thesis using doc_lines_overflow [OF n(5) nm(1) Cons.prems(3,4), of 0] un by simp
  next
    case True
    obtain packet1 where p1: "doc_lines F names n packet (length T) 0 = Some (packet1, length (T @ ?P))"
        "holds packet1 (T @ ?P)" "length packet1 = length packet"
      using doc_lines_text [OF n(5) nm(1) Cons.prems(3), of 0] True by auto
    have "length packet1 \<le> length (T @ ?P) + length ?R" using Cons.prems(5) p1(3) unfolding R by simp
    moreover have "length (T @ ?P) < length packet1" using True p1(3) by simp
    ultimately have "format_docs h F names (ll_next n) packet1 (length (T @ ?P)) = None"
      using Cons.IH [OF n(4) nm(2) p1(2)] by blast
    then show ?thesis using un p1(1) by simp
  qed
qed

text \<open>C37. A word whose response does not fit in the packet buffer: formatting it runs past the end of the
  buffer. Nothing bounds the text that \<open>sprintf\<close> appends.\<close>

theorem response_overflows_packet:
  assumes rep: "represents A (D, h) idx" and buf: "terminated buf"
    and room: "has_room (D, h) (insert (cstring buf) (dom idx))"
    and ps: "idx (cstring buf) = Some ps" "names_ok F names name (fst ` set ps)"
    and long: "length buf \<le> length (response_text name ps)" and nonempty: "buf \<noteq> []"
  shows "answer A D F names h buf es out = None"
proof -
  obtain P where P: "index_rep A D h P idx" using rep by (auto simp: represents_def)
  note R = index_rep_D [OF P]
  let ?n = "length (dl_list D)"
  obtain a w where a: "lookup h D buf (home ?n (cstring buf)) = Some a"
      "a \<noteq> 0" "words h a = Some w" "chain h (wd_list w) (P a)" "ps = map (posting_at h) (P a)"
    using lookup_represents [OF P buf room] ps(1) by auto
  have pos: "dl_phys_len D = ?n" "?n \<noteq> 0" using table_ok_D(1,2) [OF R(3)] by simp_all
  have nm: "names_ok F names name (doc h ` set (P a))"
    using ps(2) a(5) by (auto simp: posting_at_def image_image)
  have "format_docs h F names (wd_list w) buf (length []) = None"
    using format_docs_overflow [OF a(4) nm, of buf "[]"] long nonempty a(5) by (simp add: holds_def)
  then show ?thesis
    using hash_function_cstring [OF buf] a(1-3) pos by (simp add: answer_def home_def)
qed

text \<open>An index of one word to evaluate examples with, and the file list of its two documents.\<close>

definition one_word :: "struct_DynList \<times> heap" where
  "one_word = (\<lparr>dl_last_index = 0, dl_phys_len = 4, dl_list = [1, 0, 0, 0]\<rparr>,
     \<lparr>links = [3 \<mapsto> \<lparr>ll_val = 0, ll_list = [5, 12], ll_list_len = 2, ll_last_index = 2, ll_next = 0\<rparr>],
      words = [1 \<mapsto> \<lparr>wd_hash = unat (hash_of [100]), wd_str = Some [100, 0], wd_list = 3\<rparr>], calls = 4\<rparr>)"

definition one_word_index :: index where "one_word_index = [[100] \<mapsto> [(0, [5, 12])]]"

definition one_file :: struct_DynList where
  "one_file = \<lparr>dl_last_index = 0, dl_phys_len = 2, dl_list = [71, 0]\<rparr>"

definition one_name :: name_memory where "one_name = [71 \<mapsto> [97, 0]]"

lemma one_word_represents: "represents sample_alloc one_word one_word_index"
proof -
  let ?D = "fst one_word" and ?h = "snd one_word"
  have k: "key ?h 1 = [100]" "word_ok ?h 1"
    by (simp_all add: one_word_def key_def word_ok_def cstring_def terminated_def DYN_SIZE_def)
  have w: "table_words ?D = {1}" by (auto simp: one_word_def table_words_def)
  have t: "table_ok ?h ?D"
    using k sample_homes_Suc w by (auto simp: one_word_def table_ok_def less_4 Let_def)
  have c: "chain ?h 3 [3]" "posting_at ?h 3 = (0, [5, 12])"
    by (simp_all add: one_word_def chain_def link_next_def node_ok_def doc_def posting_at_def node_lines_def)
  have "\<exists>w. words ?h 1 = Some w \<and> chain ?h (wd_list w) [3] \<and> one_word_index (key ?h 1) = Some (map (posting_at ?h) [3])"
    unfolding k(1) using c by (simp add: one_word_index_def) (simp add: one_word_def)
  moreover have "insert 1 (set [3]) \<subseteq> new_addr sample_alloc ` {..<calls ?h}"
    by (auto simp: one_word_def sample_alloc_def image_iff)
  moreover have "dom one_word_index = key ?h ` {1}" using k(1) by (simp add: one_word_index_def)
  moreover have "dl_last_index ?D < dl_phys_len ?D" by (simp add: one_word_def)
  ultimately have "index_rep sample_alloc ?D ?h (\<lambda>_. [3]) one_word_index"
    unfolding index_rep_def w using sample_alloc_ok t by blast
  then show ?thesis by (auto simp: represents_def)
qed

lemma one_word_names: "names_ok one_file one_name (\<lambda>_. [97]) {0}"
  by (simp add: names_ok_def one_file_def one_name_def rd_def terminated_def cstring_def)

lemma one_word_room: "has_room one_word {[100]}" "has_room one_word {[100], [101]}"
  by (simp_all add: has_room_def one_word_def sample_homes_Suc)

lemma one_word_text: "response_text (\<lambda>_. [97]) [(0, [5, 12])] = lit ''a: line #5'' @ [10] @ lit ''a: line #12'' @ [10]"
  by (simp add: response_text_def posting_text_def entry_text_def decimal.simps lit_def)

theorem response_overflows_packet_witness:
  "answer sample_alloc (fst one_word) one_file one_name (snd one_word) ([100, 0] @ replicate 18 7) [] [] = None"
  using response_overflows_packet [of sample_alloc "fst one_word" "snd one_word" one_word_index "[100, 0] @ replicate 18 7"
      "[(0, [5, 12])]" one_file one_name "\<lambda>_. [97]" "[]" "[]"]
    one_word_represents one_word_room one_word_names one_word_text
  by (simp add: one_word_index_def terminated_def cstring_def lit_def)

text \<open>C36. The length a client announces is not checked: a request that announces, and sends, more than 10240 bytes runs past
  the end of the packet buffer, in \<open>recv_from_host\<close> or at the terminator that is stored after it.\<close>

theorem request_overflows_packet:
  assumes A: "new_addr A (calls h) \<noteq> 0" and rx: "delivers (rx c) (wire_packet REQUEST t)"
    and t: "DYN_SIZE < length t" "length t < 2 ^ 31"
  shows "thread_job A D F names h c = None"
proof -
  define H where "H = \<lparr>tot_len = htonl (of_nat (length t + HDR_LEN)), msg_type = htonl (msg_code REQUEST)\<rparr>"
  let ?buf = "map (junk A) [0..<DYN_SIZE + 1]"
  have H: "msg_type H = htonl (msg_code REQUEST)" "to_size (payload_len H) = length t"
    using payload_len_pckt [OF t(2)] by (simp_all only: H_def struct_Hdr.simps)
  have pk: "wire_packet REQUEST t = hdr_bytes H @ t" by (simp only: wire_packet_def H_def)
  have lb: "length ?buf = DYN_SIZE + 1" "HDR_LEN \<le> length ?buf" by (simp_all add: HDR_LEN_def DYN_SIZE_def)
  have "HDR_LEN \<le> length (wire_packet REQUEST t)" by (simp add: wire_packet_def)
  then obtain r1 where "recv_from_host ?buf HDR_LEN (rx c) = Some (int HDR_LEN, hdr_bytes H @ drop HDR_LEN ?buf, r1)"
      "delivers r1 t"
    using recv_from_host_delivers [OF rx _ lb(2)] unfolding pk by auto
  moreover have "length (hdr_bytes H @ drop HDR_LEN ?buf) = DYN_SIZE + 1" using lb by simp
  ultimately obtain b1 r1 where h1: "recv_from_host ?buf HDR_LEN (rx c) = Some (int HDR_LEN, b1, r1)" "delivers r1 t"
    and lb1: "length b1 = DYN_SIZE + 1" and rd1: "read_hdr b1 = Some H"
    using read_hdr_bytes by blast
  have "Option.bind (recv_from_host b1 (length t) r1)
      (\<lambda>(tmp, packet2, rx2). Option.bind (if tmp < 0 then None else wr packet2 (nat tmp) 0) (g packet2 rx2)) = None"
    for g :: "bytes \<Rightarrow> rd_event list \<Rightarrow> bytes \<Rightarrow> (heap \<times> conn) option"
  proof (cases "length t = DYN_SIZE + 1")
    case True
    then obtain r2 where "recv_from_host b1 (length t) r1 = Some (int (length t), t, r2)"
      using recv_from_host_delivers [OF h1(2), of "length t" b1] lb1 by auto
    moreover have "wr t (length t) 0 = None" by (simp add: wr_None)
    ultimately show ?thesis by simp
  next
    case False
    then have "recv_loop b1 0 (length t) r1 = None"
      using recv_loop_overflow [OF h1(2), of "length t" b1 0] lb1 t(1) by simp
    then show ?thesis by (simp add: recv_from_host_def)
  qed
  from this [of "\<lambda>packet2 rx2 packet3. Option.bind (answer A D F names (h\<lparr>calls := calls h + 1\<rparr>) packet3 (tx c) (sent c))
      (\<lambda>(h2, es, out). Some (h2, c\<lparr>rx := rx2, tx := es, sent := out, closed := True\<rparr>))"]
  show ?thesis
    using A h1(1) H rd1
    by (simp add: thread_job_def Let_def del: upt_Suc msg_code.simps)
qed

theorem request_overflows_packet_witness:
  "thread_job sample_alloc (fst one_word) one_file one_name (snd one_word)
     \<lparr>rx = [Data (wire_packet REQUEST (replicate 10241 65))], tx = [], sent = [], closed = False\<rparr> = None"
  using request_overflows_packet [of sample_alloc "snd one_word"
      "\<lparr>rx = [Data (wire_packet REQUEST (replicate 10241 65))], tx = [], sent = [], closed = False\<rparr>" "replicate 10241 65"
      "fst one_word" one_file one_name]
  by (simp add: sample_alloc_def delivers_def wire_packet_def DYN_SIZE_def hdr_bytes_def le_bytes_def)

end
