(* ===== verification/Server.thy ===== *)
theory Server
  imports Query
begin

section \<open>From the directory to the answers (server.c)\<close>

text \<open>
  \<open>main\<close> of \<open>server.c\<close> up to its event loop: the two tables are created and the
  directory is read. The lemmas put the parts together: the tables represent the index of
  the directory's files, and a query against them is answered with what that index holds.
\<close>

subsection \<open>Bootstrapping\<close>

text \<open>
  \<open>tc_ok\<close> says whether the two set-up calls of the allocator returned non-NULL. The number
  of arguments is tested after the tables have been created.
\<close>

definition bootstrap ::
  "allocator \<Rightarrow> filesystem \<Rightarrow> (bytes \<Rightarrow> dirent list option) \<Rightarrow> bool \<Rightarrow> bytes list \<Rightarrow> heap \<Rightarrow>
    (struct_DynList option \<times> heap \<times> struct_DynList option) outcome option" where
  "bootstrap A fs opendir tc_ok argv h =
     (if \<not> tc_ok then Some (Exited EXIT_FAILURE)
      else case create_list A h DYN_SIZE of
        (Exited e, _) \<Rightarrow> Some (Exited e)
      | (Returned Dynlist, h1) \<Rightarrow>
          (case create_list A h1 DOCSIZE of
             (Exited e, _) \<Rightarrow> Some (Exited e)
           | (Returned file_list, h2) \<Rightarrow>
               if length argv \<noteq> 3 then Some (Exited EXIT_FAILURE)
               else do {
                 (folder, Dynlist', h3, file_list') \<leftarrow> read_dir A fs opendir Dynlist h2 file_list (argv ! 1);
                 if \<not> folder then Some (Exited EXIT_FAILURE)
                 else Some (Returned (Dynlist', h3, file_list'))
               }))"

lemma create_list_ok:
  assumes "alloc_ok A"
  shows "create_list A h n = (Returned (Some \<lparr>dl_last_index = 0, dl_phys_len = n, dl_list = replicate n 0\<rparr>),
    h\<lparr>calls := calls h + 2\<rparr>)"
  using new_addr_nonnull [OF assms] by (simp add: create_list_def Let_def)

lemma empty_file_list: "0 < n \<Longrightarrow> even n \<Longrightarrow>
    file_list_ok \<lparr>dl_last_index = 0, dl_phys_len = n, dl_list = replicate n 0\<rparr> []"
  by (simp add: file_list_ok_def)

text \<open>
  The conditions on a directory under which its whole text is indexed: the limits on names, lines and
  words, no more regular files than \<open>file_list\<close> has slots at the start, and a slot for every word.
\<close>

definition directory_ok :: "filesystem \<Rightarrow> bytes \<Rightarrow> dirent list \<Rightarrow> bool" where
  "directory_ok fs path es \<longleftrightarrow> (\<forall>e\<in>set es. entry_ok fs path e) \<and> length (filter regular es) \<le> DOCSIZE \<and>
     (let W = files_words fs path (filter regular es)
      in \<forall>t\<in>W. home DYN_SIZE t + card W < DYN_SIZE)"

lemma finite_files_words: "finite (files_words fs path es)"
  by (simp add: files_words_def line_words_def)

lemma bootstrap_represents:
  assumes A: "alloc_ok A" "realloc_ok A" and args: "argv = [prog, path, port]"
    and dir: "opendir (cstring path) = Some es" "directory_ok fs path es"
  shows "\<exists>D h' F. bootstrap A fs opendir True argv h = Some (Returned (Some D, h', Some F)) \<and>
    represents A (D, h') (index_files fs path 0 (filter regular es) Map.empty) \<and>
    file_list_ok F (map d_ptr (filter regular es)) \<and>
    (\<forall>W. has_room (D, h') W \<longleftrightarrow> finite W \<and> (\<forall>t\<in>W. home DYN_SIZE t + card W < DYN_SIZE))"
proof -
  let ?D = "\<lparr>dl_last_index = 0, dl_phys_len = DYN_SIZE, dl_list = replicate DYN_SIZE (0 :: addr)\<rparr>"
  let ?F = "\<lparr>dl_last_index = 0, dl_phys_len = DOCSIZE, dl_list = replicate DOCSIZE (0 :: addr)\<rparr>"
  let ?h = "h\<lparr>calls := Suc (Suc (Suc (Suc (calls h))))\<rparr>"
  let ?W = "files_words fs path (filter regular es)"
  have rep: "represents A (?D, ?h) Map.empty"
    using A by (intro empty_table_represents) (auto simp: DYN_SIZE_def)
  have F: "file_list_ok ?F []" by (rule empty_file_list) (simp_all add: DOCSIZE_def)
  have ents: "\<forall>e\<in>set es. entry_ok fs path e" using dir(2) by (simp add: directory_ok_def)
  have room: "has_room (?D, ?h) (dom Map.empty \<union> ?W)"
    using dir(2) finite_files_words by (simp add: directory_ok_def has_room_def Let_def)
  have few: "length [] + length (filter regular es) \<le> dl_phys_len ?F" using dir(2) by (simp add: directory_ok_def)
  obtain D h' F where r: "read_entries A fs path 0 es (Some ?D) ?h (Some ?F) = Some (Some D, h', Some F)"
      "represents A (D, h') (index_files fs path 0 (filter regular es) Map.empty)"
      "file_list_ok F (map d_ptr (filter regular es))" "has_room (D, h') = has_room (?D, ?h)"
    using read_entries_refines [OF rep F few ents room, of 0] by auto
  have "bootstrap A fs opendir True argv h = Some (Returned (Some D, h', Some F))"
    using args dir(1) r(1) create_list_ok [OF A(1)] by (simp add: bootstrap_def read_dir_def)
  moreover have "has_room (D, h') W \<longleftrightarrow> finite W \<and> (\<forall>t\<in>W. home DYN_SIZE t + card W < DYN_SIZE)" for W
    unfolding r(4) by (simp add: has_room_def)
  ultimately show ?thesis using r(2,3) by blast
qed

subsection \<open>The documents of an index\<close>

definition postings_ok :: "nat \<Rightarrow> index \<Rightarrow> bool" where
  "postings_ok n idx \<longleftrightarrow> (\<forall>t ps. idx t = Some ps \<longrightarrow> (\<forall>(d, ls)\<in>set ps. d < n \<and> ls \<noteq> []))"

lemma postings_ok_post_add:
  "\<forall>(d, ls)\<in>set ps. d < n \<and> ls \<noteq> [] \<Longrightarrow> e < n \<Longrightarrow> \<forall>(d, ls)\<in>set (post_add e l ps). d < n \<and> ls \<noteq> []"
  by (fastforce simp: post_add_def split: if_splits)

lemma postings_ok_add:
  assumes "postings_ok n idx" and "d < n"
  shows "postings_ok n (index_add d l t idx)"
proof -
  have "\<forall>(e, ls)\<in>set (case idx t of None \<Rightarrow> [] | Some ps \<Rightarrow> ps). e < n \<and> ls \<noteq> []"
    using assms(1) by (cases "idx t") (simp_all add: postings_ok_def)
  from postings_ok_post_add [OF this assms(2), of l] show ?thesis
    using assms(1) unfolding postings_ok_def index_add_def fun_upd_apply by (metis option.inject)
qed

lemma postings_ok_adds: "postings_ok n idx \<Longrightarrow> d < n \<Longrightarrow> postings_ok n (fold (index_add d l) ts idx)"
  by (induction ts arbitrary: idx) (simp_all add: postings_ok_add)

lemma postings_ok_lines: "postings_ok n idx \<Longrightarrow> d < n \<Longrightarrow> postings_ok n (index_lines d l Ls idx)"
  by (induction Ls arbitrary: l idx) (simp_all add: postings_ok_adds)

lemma postings_ok_files: "postings_ok (d + length es) idx \<Longrightarrow> postings_ok (d + length es) (index_files fs path d es idx)"
proof (induction es arbitrary: d idx)
  case Nil
  then show ?case by simp
next
  case (Cons e es)
  have "postings_ok (d + 1 + length es) (index_lines d 1 (file_lines fs path e) idx)"
    using Cons.prems by (intro postings_ok_lines) simp_all
  from Cons.IH [OF this] show ?case unfolding index_files_Cons by simp
qed

subsection \<open>The names of the documents\<close>

text \<open>
  \<open>file_list\<close> holds the addresses that \<open>readdir\<close> gave, and \<open>thread_job\<close> reads the names through them when it replies. What is there
  then is up to the C library, which may reuse the storage of an entry for the next one: \<open>stored_name\<close> is the string at
  the address, whatever it is, and \<open>names_found\<close> says that there is one for each of some documents.
\<close>

definition stored_name :: "name_memory \<Rightarrow> dirent list \<Rightarrow> nat \<Rightarrow> bytes" where
  "stored_name names es d = (case names (d_ptr (es ! d)) of None \<Rightarrow> [] | Some m \<Rightarrow> cstring m)"

definition names_found :: "name_memory \<Rightarrow> dirent list \<Rightarrow> nat set \<Rightarrow> bool" where
  "names_found names es ds \<longleftrightarrow> (\<forall>d\<in>ds. \<exists>m. names (d_ptr (es ! d)) = Some m \<and> terminated m)"

text \<open>All documents in the answer for \<open>t\<close> have a name that can be read.\<close>

definition answerable :: "name_memory \<Rightarrow> dirent list \<Rightarrow> index \<Rightarrow> bytes \<Rightarrow> bool" where
  "answerable names es idx t \<longleftrightarrow> (\<forall>ps. idx t = Some ps \<longrightarrow> names_found names es (fst ` set ps))"

lemma names_of_files:
  assumes "file_list_ok F (map d_ptr es)" and "ds \<subseteq> {..<length es}"
  shows "names_readable F names ds \<longleftrightarrow> names_found names es ds"
    and "names_found names es ds \<Longrightarrow> names_ok F names (stored_name names es) ds"
proof -
  have rd: "rd (dl_list F) d = Some (d_ptr (es ! d))" if "d \<in> ds" for d
    using that assms(2) file_list_nth [OF assms(1), of d] by auto
  show "names_readable F names ds \<longleftrightarrow> names_found names es ds"
    using rd by (auto simp: names_readable_def names_found_def)
  show "names_ok F names (stored_name names es) ds" if "names_found names es ds"
    using that rd by (fastforce simp: names_found_def names_ok_def stored_name_def)
qed

text \<open>Where nothing has been overwritten it is the name of the file, and every answer can be given.\<close>

lemma stored_name_intact: "names (d_ptr (es ! d)) = Some (d_name (es ! d)) \<Longrightarrow> stored_name names es d = cstring (d_name (es ! d))"
  by (simp add: stored_name_def)

lemma answerable_intact:
  assumes "\<forall>e\<in>set es. names (d_ptr e) = Some (d_name e) \<and> terminated (d_name e)" and "postings_ok (length es) idx"
  shows "answerable names es idx t"
proof -
  have "names_found names es (fst ` set ps)" if "idx t = Some ps" for ps
    using that assms unfolding names_found_def postings_ok_def by (fastforce intro: nth_mem)
  then show ?thesis by (simp add: answerable_def)
qed

lemma stored_name_no_nul [simp]: "0 \<notin> set (stored_name names es d)"
  by (simp add: stored_name_def split: option.split)

subsection \<open>Properties\<close>

lemma dom_index_files: "dom (index_files fs path d es idx) = dom idx \<union> files_words fs path es"
proof (induction es arbitrary: d idx)
  case Nil
  then show ?case by (simp add: files_words_def)
next
  case (Cons e es)
  show ?case unfolding index_files_Cons Cons.IH by (auto simp: files_words_def)
qed

text \<open>The index that the files of a directory should give.\<close>

abbreviation dir_index :: "filesystem \<Rightarrow> bytes \<Rightarrow> dirent list \<Rightarrow> index" where
  "dir_index fs path es \<equiv> index_files fs path 0 (filter regular es) Map.empty"

text \<open>The table has room for the words of the directory and the one that is asked for.\<close>

definition word_room :: "filesystem \<Rightarrow> bytes \<Rightarrow> dirent list \<Rightarrow> bytes \<Rightarrow> bool" where
  "word_room fs path es t \<longleftrightarrow> (let W = insert t (files_words fs path (filter regular es))
     in \<forall>w\<in>W. home DYN_SIZE w + card W < DYN_SIZE)"

text \<open>The tables that start-up leaves, as \<open>thread_job\<close> finds them.\<close>

lemma server_ready:
  assumes A: "alloc_ok A" "realloc_ok A" and dir: "opendir (cstring path) = Some es" "directory_ok fs path es"
  shows "\<exists>D h1 F. bootstrap A fs opendir True [prog, path, port] h = Some (Returned (Some D, h1, Some F)) \<and>
    represents A (D, h1) (dir_index fs path es) \<and>
    (\<forall>t. word_room fs path es t \<longrightarrow> has_room (D, h1) (insert t (dom (dir_index fs path es)))) \<and>
    (\<forall>t ps names. dir_index fs path es t = Some ps \<longrightarrow> (\<forall>(d, ls)\<in>set ps. ls \<noteq> []) \<and>
      (names_readable F names (fst ` set ps) \<longleftrightarrow> names_found names (filter regular es) (fst ` set ps)) \<and>
      (names_found names (filter regular es) (fst ` set ps) \<longrightarrow>
        names_ok F names (stored_name names (filter regular es)) (fst ` set ps)))"
proof -
  let ?files = "filter regular es" and ?idx = "dir_index fs path es"
  obtain D h1 F where b: "bootstrap A fs opendir True [prog, path, port] h = Some (Returned (Some D, h1, Some F))"
      "represents A (D, h1) ?idx" "file_list_ok F (map d_ptr ?files)"
      "\<forall>W. has_room (D, h1) W \<longleftrightarrow> finite W \<and> (\<forall>t\<in>W. home DYN_SIZE t + card W < DYN_SIZE)"
    using bootstrap_represents [of A "[prog, path, port]" prog path port opendir es fs h] A dir by blast
  have "postings_ok (length ?files) ?idx" using postings_ok_files [of 0 ?files Map.empty] by (simp add: postings_ok_def)
  then have ps: "\<forall>(d, ls)\<in>set ps. ls \<noteq> []" "fst ` set ps \<subseteq> {..<length ?files}" if "?idx t = Some ps" for t ps
    using that unfolding postings_ok_def by fastforce+
  have "has_room (D, h1) (insert t (dom ?idx))" if "word_room fs path es t" for t
    using b(4) that finite_files_words by (simp add: dom_index_files word_room_def Let_def)
  then show ?thesis using b(1,2) ps names_of_files [OF b(3)]
    by (intro exI [of _ D] exI [of _ h1] exI [of _ F]) (metis (no_types, lifting))
qed

text \<open>One request against these tables, and the reply.\<close>

lemma server_replies:
  assumes A: "alloc_ok A" "realloc_ok A" and dir: "opendir (cstring path) = Some es" "directory_ok fs path es"
    and req: "delivers (rx c) (wire_packet REQUEST t)" "0 \<notin> set t" "length t \<le> DYN_SIZE"
    and tx: "Write_error \<notin> set (tx c)" and room: "word_room fs path es t"
    and fit: "\<forall>ps. dir_index fs path es t = Some ps \<longrightarrow>
      length (response_text (stored_name names (filter regular es)) ps) \<le> DYN_SIZE"
  shows "\<exists>D h1 F. bootstrap A fs opendir True [prog, path, port] h = Some (Returned (Some D, h1, Some F)) \<and>
    (if answerable names (filter regular es) (dir_index fs path es) t
     then \<exists>h2 c'. thread_job A D F names h1 c = Some (h2, c') \<and> closed c' \<and>
       sent c' = sent c @ reply (stored_name names (filter regular es)) (dir_index fs path es) t
     else thread_job A D F names h1 c = None)"
proof -
  let ?files = "filter regular es" and ?idx = "dir_index fs path es"
  obtain D h1 F where b: "bootstrap A fs opendir True [prog, path, port] h = Some (Returned (Some D, h1, Some F))"
      "represents A (D, h1) ?idx" "\<forall>t. word_room fs path es t \<longrightarrow> has_room (D, h1) (insert t (dom ?idx))"
      "\<forall>t ps names. ?idx t = Some ps \<longrightarrow> (\<forall>(d, ls)\<in>set ps. ls \<noteq> []) \<and>
        (names_readable F names (fst ` set ps) \<longleftrightarrow> names_found names ?files (fst ` set ps)) \<and>
        (names_found names ?files (fst ` set ps) \<longrightarrow> names_ok F names (stored_name names ?files) (fst ` set ps))"
    using server_ready [of A opendir path es fs prog port h, OF A dir] by blast
  have r: "has_room (D, h1) (insert t (dom ?idx))" using b(3) room by blast
  have rx: "delivers (rx c) (wire_packet REQUEST t @ [])" using req(1) by simp
  show ?thesis
  proof (cases "answerable names ?files ?idx t")
    case True
    then have "\<forall>ps. ?idx t = Some ps \<longrightarrow> names_ok F names (stored_name names ?files) (fst ` set ps) \<and>
        length (response_text (stored_name names ?files) ps) \<le> DYN_SIZE"
      using b(4) fit by (simp add: answerable_def)
    from thread_job_reply [OF b(2) rx tx req(2,3) r this] True b(1) show ?thesis by auto
  next
    case False
    then obtain ps where ps: "?idx t = Some ps" "\<not> names_readable F names (fst ` set ps)" "\<forall>(d, ls)\<in>set ps. ls \<noteq> []"
      using b(4) unfolding answerable_def by blast
    from thread_job_unreadable [OF b(2) rx req(2,3) r ps(1,3,2)] False b(1) show ?thesis by auto
  qed
qed

text \<open>Connections that are served one after another, each by \<open>thread_job\<close> on the heap that the one before has left.\<close>

fun serve_all ::
  "allocator \<Rightarrow> struct_DynList \<Rightarrow> struct_DynList \<Rightarrow> name_memory \<Rightarrow> heap \<Rightarrow> conn list \<Rightarrow> (heap \<times> conn list) option" where
  "serve_all A D F names h [] = Some (h, [])"
| "serve_all A D F names h (c # cs) = do {
     (h1, c1) \<leftarrow> thread_job A D F names h c;
     (h2, cs2) \<leftarrow> serve_all A D F names h1 cs;
     Some (h2, c1 # cs2)
   }"

lemma thread_job_calls: "thread_job A D F names h c = Some (h', c') \<Longrightarrow> calls h \<le> calls h'"
  by (auto simp: thread_job_def answer_def create_pckt_def Let_def split: if_splits Option.bind_splits)

lemma represents_calls:
  assumes "represents A (D, h) idx" and "links h' = links h" "words h' = words h" "calls h \<le> calls h'"
  shows "represents A (D, h') idx"
proof -
  have "h' = h\<lparr>calls := calls h'\<rparr>" using assms(2,3) by simp
  then show ?thesis using assms(1,4) index_rep_calls [of A D h _ idx "calls h'"] unfolding represents_def by auto
qed

lemma serve_all_replies:
  assumes "represents A (D, h) idx"
    and "\<forall>(c, t)\<in>set rs. delivers (rx c) (wire_packet REQUEST t) \<and> Write_error \<notin> set (tx c) \<and> 0 \<notin> set t \<and> length t \<le> DYN_SIZE \<and>
      has_room (D, h) (insert t (dom idx)) \<and>
      (\<forall>ps. idx t = Some ps \<longrightarrow> (\<forall>(d, ls)\<in>set ps. ls \<noteq> []) \<and> length (response_text name ps) \<le> DYN_SIZE \<and>
        (names_readable F names (fst ` set ps) \<longrightarrow> names_ok F names name (fst ` set ps)))"
  shows "if \<forall>(c, t)\<in>set rs. \<forall>ps. idx t = Some ps \<longrightarrow> names_readable F names (fst ` set ps)
    then \<exists>h' cs. serve_all A D F names h (map fst rs) = Some (h', cs) \<and>
      list_all2 (\<lambda>(c, t) c'. sent c' = sent c @ reply name idx t \<and> closed c') rs cs
    else serve_all A D F names h (map fst rs) = None"
  using assms
proof (induction rs arbitrary: h)
  case Nil
  then show ?case by simp
next
  case (Cons r rs)
  obtain c t where r: "r = (c, t)" by (cases r)
  have p: "delivers (rx c) (wire_packet REQUEST t @ [])" "Write_error \<notin> set (tx c)" "0 \<notin> set t" "length t \<le> DYN_SIZE"
      "has_room (D, h) (insert t (dom idx))"
      "\<forall>ps. idx t = Some ps \<longrightarrow> (\<forall>(d, ls)\<in>set ps. ls \<noteq> []) \<and> length (response_text name ps) \<le> DYN_SIZE \<and>
        (names_readable F names (fst ` set ps) \<longrightarrow> names_ok F names name (fst ` set ps))"
    using Cons.prems(2) r by simp_all
  show ?case
  proof (cases "\<forall>ps. idx t = Some ps \<longrightarrow> names_readable F names (fst ` set ps)")
    case False
    then obtain ps where ps: "idx t = Some ps" "\<not> names_readable F names (fst ` set ps)" "\<forall>(d, ls)\<in>set ps. ls \<noteq> []"
      using p(6) by blast
    have "thread_job A D F names h c = None"
      by (rule thread_job_unreadable [OF Cons.prems(1) p(1,3-5) ps(1,3,2)])
    then show ?thesis using False r by simp
  next
    case True
    then have "\<forall>ps. idx t = Some ps \<longrightarrow> names_ok F names name (fst ` set ps) \<and> length (response_text name ps) \<le> DYN_SIZE"
      using p(6) by blast
    then obtain h1 c1 where j: "thread_job A D F names h c = Some (h1, c1)" "sent c1 = sent c @ reply name idx t" "closed c1"
        "links h1 = links h" "words h1 = words h"
      using thread_job_reply [OF Cons.prems(1) p(1-5)] by blast
    have rep: "represents A (D, h1) idx" by (rule represents_calls [OF Cons.prems(1) j(4,5) thread_job_calls [OF j(1)]])
    have "has_room (D, h1) W = has_room (D, h) W" for W by (simp add: has_room_def)
    then have IH: "if \<forall>(c, t)\<in>set rs. \<forall>ps. idx t = Some ps \<longrightarrow> names_readable F names (fst ` set ps)
      then \<exists>h' cs. serve_all A D F names h1 (map fst rs) = Some (h', cs) \<and>
        list_all2 (\<lambda>(c, t) c'. sent c' = sent c @ reply name idx t \<and> closed c') rs cs
      else serve_all A D F names h1 (map fst rs) = None"
      using Cons.IH [OF rep] Cons.prems(2) by simp
    show ?thesis
    proof (cases "\<forall>(c, t)\<in>set rs. \<forall>ps. idx t = Some ps \<longrightarrow> names_readable F names (fst ` set ps)")
      case rest: True
      then obtain h2 cs where "serve_all A D F names h1 (map fst rs) = Some (h2, cs)"
          "list_all2 (\<lambda>(c, t) c'. sent c' = sent c @ reply name idx t \<and> closed c') rs cs"
        using IH by auto
      then have "serve_all A D F names h (map fst (r # rs)) = Some (h2, c1 # cs)"
          "list_all2 (\<lambda>(c, t) c'. sent c' = sent c @ reply name idx t \<and> closed c') (r # rs) (c1 # cs)"
        using j(1-3) r by simp_all
      moreover have all: "\<forall>(c, t)\<in>set (r # rs). \<forall>ps. idx t = Some ps \<longrightarrow> names_readable F names (fst ` set ps)"
        using True rest r by simp
      ultimately show ?thesis unfolding if_P [OF all] by blast
    next
      case rest: False
      then have "serve_all A D F names h1 (map fst rs) = None" using IH by simp
      then have "serve_all A D F names h (map fst (r # rs)) = None" using j(1) r by simp
      moreover have "\<not> (\<forall>(c, t)\<in>set (r # rs). \<forall>ps. idx t = Some ps \<longrightarrow> names_readable F names (fst ` set ps))"
        using rest by auto
      ultimately show ?thesis by (simp only: if_False)
    qed
  qed
qed

text \<open>C2. The server, for any number of clients. It has read a directory within its limits: names and path fit their buffers, lines have at most
  \<open>DYN_SIZE / 2\<close> bytes and words less than \<open>MAX_WORD_LEN\<close>, there are at most \<open>DOCSIZE\<close> regular files, and the table has room for the words.
  Then every client that sends a request for a word, in any segmentation, receives exactly the response that the text of the files
  prescribes, one line for each line of each file the word occurs in, or an error packet if it occurs nowhere, and its connection is
  closed; whatever the other clients ask for, and in whatever order the connections are served. The name in a line is the string that is found
  at the address \<open>readdir\<close> gave for the file, when the request is served: the name of the file unless \<open>readdir\<close> has
  reused the storage. If there is no string any more at one of the addresses that an answer needs, the result is undefined.\<close>

theorem server_answers:
  assumes A: "alloc_ok A" "realloc_ok A"
    and dir: "opendir (cstring path) = Some es" "directory_ok fs path es"
    and req: "\<forall>(c, t)\<in>set rs. delivers (rx c) (wire_packet REQUEST t) \<and> 0 \<notin> set t \<and> length t \<le> DYN_SIZE \<and> Write_error \<notin> set (tx c)"
    and room: "\<forall>(c, t)\<in>set rs. word_room fs path es t"
    and fit: "\<forall>(c, t)\<in>set rs. \<forall>ps. dir_index fs path es t = Some ps \<longrightarrow>
      length (response_text (stored_name names (filter regular es)) ps) \<le> DYN_SIZE"
  shows "\<exists>D h1 F. bootstrap A fs opendir True [prog, path, port] h = Some (Returned (Some D, h1, Some F)) \<and>
    (if \<forall>(c, t)\<in>set rs. answerable names (filter regular es) (dir_index fs path es) t
     then \<exists>h2 cs. serve_all A D F names h1 (map fst rs) = Some (h2, cs) \<and>
       list_all2 (\<lambda>(c, t) c'. sent c' = sent c @ reply (stored_name names (filter regular es)) (dir_index fs path es) t \<and> closed c') rs cs
     else serve_all A D F names h1 (map fst rs) = None)"
proof -
  let ?files = "filter regular es" and ?idx = "dir_index fs path es"
  obtain D h1 F where b: "bootstrap A fs opendir True [prog, path, port] h = Some (Returned (Some D, h1, Some F))"
      "represents A (D, h1) ?idx" "\<forall>t. word_room fs path es t \<longrightarrow> has_room (D, h1) (insert t (dom ?idx))"
      "\<forall>t ps names. ?idx t = Some ps \<longrightarrow> (\<forall>(d, ls)\<in>set ps. ls \<noteq> []) \<and>
        (names_readable F names (fst ` set ps) \<longleftrightarrow> names_found names ?files (fst ` set ps)) \<and>
        (names_found names ?files (fst ` set ps) \<longrightarrow> names_ok F names (stored_name names ?files) (fst ` set ps))"
    using server_ready [of A opendir path es fs prog port h, OF A dir] by blast
  have "\<forall>(c, t)\<in>set rs. delivers (rx c) (wire_packet REQUEST t) \<and> Write_error \<notin> set (tx c) \<and> 0 \<notin> set t \<and> length t \<le> DYN_SIZE \<and>
      has_room (D, h1) (insert t (dom ?idx)) \<and>
      (\<forall>ps. ?idx t = Some ps \<longrightarrow> (\<forall>(d, ls)\<in>set ps. ls \<noteq> []) \<and> length (response_text (stored_name names ?files) ps) \<le> DYN_SIZE \<and>
        (names_readable F names (fst ` set ps) \<longrightarrow> names_ok F names (stored_name names ?files) (fst ` set ps)))"
    using req room fit b(3,4) by fast
  note all = serve_all_replies [OF b(2) this]
  have "(\<forall>(c, t)\<in>set rs. \<forall>ps. ?idx t = Some ps \<longrightarrow> names_readable F names (fst ` set ps)) \<longleftrightarrow>
      (\<forall>(c, t)\<in>set rs. answerable names ?files ?idx t)"
    using b(4) unfolding answerable_def by fast
  with all b(1) show ?thesis by auto
qed

lemma sample_homes_DYN: "home DYN_SIZE [100] = 100" "home DYN_SIZE [101] = 101"
  by (simp_all add: home_def hash_of_def HASH_MULTIPLIER_def DYN_SIZE_def)

lemma sample_directory_ok: "directory_ok sample_fs sample_path sample_dir"
  using sample_entries_ok
  by (simp add: directory_ok_def sample_regular sample_dir_words sample_homes_DYN Let_def)
    (simp add: DYN_SIZE_def DOCSIZE_def sample_dir_def)

lemma sample_word_room: "word_room sample_fs sample_path sample_dir [100]"
proof -
  have "card {[100], [101] :: bytes} = 2" "insert [100] {[100], [101] :: bytes} = {[100], [101]}" by simp_all
  then show ?thesis unfolding word_room_def Let_def sample_regular sample_dir_words
    by (auto simp: sample_homes_DYN) (simp_all add: DYN_SIZE_def)
qed

text \<open>The memory of the names as \<open>readdir\<close> left it.\<close>

definition sample_names :: name_memory where
  "sample_names = [71 \<mapsto> [97, 0], 72 \<mapsto> [98, 0]]"

lemma sample_reply:
  "response_text (stored_name sample_names (tl sample_dir)) [(0, [1, 2])] = lit ''a: line #1'' @ [10] @ lit ''a: line #2'' @ [10]"
  by (simp add: response_text_def posting_text_def entry_text_def decimal.simps lit_def stored_name_def sample_names_def sample_dir_def cstring_def)

lemma sample_answerable: "answerable sample_names (filter regular sample_dir) (dir_index sample_fs sample_path sample_dir) [100]"
proof (rule answerable_intact)
  show "\<forall>e\<in>set (filter regular sample_dir). sample_names (d_ptr e) = Some (d_name e) \<and> terminated (d_name e)"
    unfolding sample_regular by (simp add: sample_names_def sample_dir_def terminated_def)
  show "postings_ok (length (filter regular sample_dir)) (dir_index sample_fs sample_path sample_dir)"
    using postings_ok_files [of 0 "filter regular sample_dir" Map.empty] by (simp add: postings_ok_def)
qed

theorem server_answers_witness:
  "\<exists>D h1 F h2 c1 c2. bootstrap sample_alloc sample_fs (\<lambda>_. Some sample_dir) True [[], sample_path, []] (snd sample_state) =
      Some (Returned (Some D, h1, Some F)) \<and>
    serve_all sample_alloc D F sample_names h1
      [\<lparr>rx = [Data (wire_packet REQUEST [100])], tx = [Accept 3], sent = [], closed = False\<rparr>,
       \<lparr>rx = [Data (wire_packet REQUEST [100])], tx = [], sent = [], closed = False\<rparr>] = Some (h2, [c1, c2]) \<and> closed c1 \<and>
    sent c1 = wire_packet RESPONSE (lit ''a: line #1'' @ [10] @ lit ''a: line #2'' @ [10]) \<and> sent c2 = sent c1"
proof -
  let ?c1 = "\<lparr>rx = [Data (wire_packet REQUEST [100])], tx = [Accept 3], sent = [], closed = False\<rparr>"
  let ?c2 = "\<lparr>rx = [Data (wire_packet REQUEST [100])], tx = [], sent = [], closed = False\<rparr>"
  let ?rs = "[(?c1, [100]), (?c2, [100])] :: (conn \<times> bytes) list"
  let ?files = "filter regular sample_dir" and ?idx = "dir_index sample_fs sample_path sample_dir"
  have room: "\<forall>(c, t)\<in>set ?rs. word_room sample_fs sample_path sample_dir t" using sample_word_room by simp
  have req: "\<forall>(c, t)\<in>set ?rs. delivers (rx c) (wire_packet REQUEST t) \<and> 0 \<notin> set t \<and> length t \<le> DYN_SIZE \<and> Write_error \<notin> set (tx c)"
    by (simp add: delivers_def wire_packet_def DYN_SIZE_def)
  have fit: "\<forall>(c, t)\<in>set ?rs. \<forall>ps. ?idx t = Some ps \<longrightarrow> length (response_text (stored_name sample_names ?files) ps) \<le> DYN_SIZE"
    unfolding sample_regular sample_index using sample_reply by (simp add: lit_def DYN_SIZE_def)
  have rep: "reply (stored_name sample_names ?files) ?idx [100] = wire_packet RESPONSE (lit ''a: line #1'' @ [10] @ lit ''a: line #2'' @ [10])"
    unfolding sample_regular sample_index using sample_reply by (simp add: reply_def)
  have ans: "\<forall>(c, t)\<in>set ?rs. answerable sample_names ?files ?idx t" using sample_answerable by simp
  obtain D h1 F where b: "bootstrap sample_alloc sample_fs (\<lambda>_. Some sample_dir) True [[], sample_path, []] (snd sample_state) =
        Some (Returned (Some D, h1, Some F))"
      "if \<forall>(c, t)\<in>set ?rs. answerable sample_names ?files ?idx t
       then \<exists>h2 cs. serve_all sample_alloc D F sample_names h1 (map fst ?rs) = Some (h2, cs) \<and>
         list_all2 (\<lambda>(c, t) c'. sent c' = sent c @ reply (stored_name sample_names ?files) ?idx t \<and> closed c') ?rs cs
       else serve_all sample_alloc D F sample_names h1 (map fst ?rs) = None"
    using server_answers [of sample_alloc "\<lambda>_. Some sample_dir" sample_path sample_dir sample_fs ?rs sample_names "[]" "[]" "snd sample_state",
        OF sample_alloc_ok refl sample_directory_ok req room fit] by (elim exE conjE) (rule that)
  obtain h2 cs where r: "serve_all sample_alloc D F sample_names h1 (map fst ?rs) = Some (h2, cs)"
      "list_all2 (\<lambda>(c, t) c'. sent c' = sent c @ reply (stored_name sample_names ?files) ?idx t \<and> closed c') ?rs cs"
    using b(2) unfolding if_P [OF ans] by (elim exE conjE) (rule that)
  then obtain c1 c2 where "cs = [c1, c2]" "closed c1" "sent c1 = wire_packet RESPONSE (lit ''a: line #1'' @ [10] @ lit ''a: line #2'' @ [10])"
      "sent c2 = sent c1"
    using rep by (auto simp: list_all2_Cons1)
  then show ?thesis using b(1) r(1) by (intro exI [of _ D] exI [of _ h1] exI [of _ F] exI [of _ h2] exI [of _ c1] exI [of _ c2]) simp
qed

end
