(* ===== verification/Clients.thy ===== *)
theory Clients
  imports Server
begin

section \<open>The clients (client1.c, client2.c)\<close>

text \<open>
  \<open>request_server\<close> of the two clients: the thread of \<open>client1\<close> that asks for the same word a number of times, and the command
  line of \<open>client2\<close>. What the system does for one request is a \<open>dial\<close>: the results of \<open>socket\<close> and \<open>connect\<close>, and the
  connection. What \<open>printf\<close> writes to standard output is part of the result. The lemmas show what the clients send and
  print, put them together with the model of the server, and show for which answers and
  inputs a buffer is overrun.
\<close>

definition MAX_SIZE :: nat where "MAX_SIZE = 100"

record dial =
  sk_fd :: int
  sk_connect :: int
  sk_conn :: conn

definition no_such_word :: bytes where
  "no_such_word = lit ''no such word in the server'' @ [10]"

definition wrong_command :: bytes where
  "wrong_command = lit ''wrong command sent by server'' @ [10]"

subsection \<open>The response\<close>

text \<open>
  Both clients read the header into the buffer that then takes the payload. The result of
  the first \<open>recv_from_host\<close> is not looked at; that of the second is the index of the terminator. \<open>None\<close> inside: the header is not a
  response.
\<close>

definition recv_response :: "bytes \<Rightarrow> rd_event list \<Rightarrow> (bytes \<times> rd_event list \<times> 32 word) option" where
  "recv_response buf es = do {
     (_, buf1, es1) \<leftarrow> recv_from_host buf HDR_LEN es;
     H \<leftarrow> read_hdr buf1;
     if msg_type H = htonl (msg_code RESPONSE) then do {
       (tmp, buf2, es2) \<leftarrow> recv_from_host buf1 (to_size (payload_len H)) es1;
       buf3 \<leftarrow> (if tmp < 0 then None else wr buf2 (nat tmp) 0);
       Some (buf3, es2, msg_type H)
     }
     else Some (buf1, es1, msg_type H)
   }"

subsection \<open>client1\<close>

definition exchange1 :: "struct_Hdr option \<Rightarrow> bytes \<Rightarrow> nat \<Rightarrow> bytes \<Rightarrow> conn \<Rightarrow> (bytes \<times> conn \<times> bytes) option" where
  "exchange1 header word word_len buf c = do {
     (es, out) \<leftarrow> send_hdr header (tx c) (sent c);
     (_, es1, out1) \<leftarrow> send_to_host word word_len es out;
     (buf1, rx1, m) \<leftarrow> recv_response buf (rx c);
     Some (buf1, c\<lparr>rx := rx1, tx := es1, sent := out1, closed := True\<rparr>,
       if m = htonl (msg_code RESPONSE) then []
       else if m = htonl (msg_code ERROR) then no_such_word else wrong_command)
   }"

text \<open>The loop; the first component of the result is \<open>False\<close> when it was left with \<open>return NULL\<close>.\<close>

fun request_loop1 ::
  "struct_Hdr option \<Rightarrow> bytes \<Rightarrow> nat \<Rightarrow> bytes \<Rightarrow> dial list \<Rightarrow> (bool \<times> bytes \<times> conn list \<times> bytes) option" where
  "request_loop1 header word word_len buf [] = Some (True, buf, [], [])"
| "request_loop1 header word word_len buf (d # ds) =
     (if sk_fd d < 0 then Some (False, buf, [], [])
      else if sk_connect d < 0 then Some (False, buf, [(sk_conn d)\<lparr>closed := True\<rparr>], [])
      else do {
        (buf1, c, o1) \<leftarrow> exchange1 header word word_len buf (sk_conn d);
        (ok, buf2, cs, o2) \<leftarrow> request_loop1 header word word_len buf1 ds;
        Some (ok, buf2, c # cs, o1 @ o2)
      })"

text \<open>
  \<open>init_ok\<close> says whether \<open>tc_thread_init\<close> returned non-NULL, \<open>dials i\<close> what the system does for request \<open>i\<close>. The header is freed
  after the loop only: the result says whether it was; freeing a NULL header has no defined result.
\<close>

definition request_server1 ::
  "allocator \<Rightarrow> heap \<Rightarrow> bool \<Rightarrow> bytes \<Rightarrow> int \<Rightarrow> (nat \<Rightarrow> dial) \<Rightarrow> (bool \<times> conn list \<times> bytes \<times> heap) outcome option" where
  "request_server1 A h init_ok word req_per_thread dials =
     (if \<not> init_ok then Some (Exited EXIT_FAILURE)
      else do {
        word_len \<leftarrow> StrGetLength (Some word) 100;
        let (header, h1) = create_pckt A h word_len (msg_code REQUEST);
        (ok, buf, cs, out) \<leftarrow> request_loop1 header word word_len (replicate (BUFSIZE + 1) 0) (map dials [0..<nat req_per_thread]);
        if ok \<and> header = None then None else Some (Returned (ok, cs, out, h1))
      })"

subsection \<open>client2\<close>

text \<open>\<open>scanf("%s %s", ...)\<close>: white space is skipped, and the bytes up to the next white space are stored with a terminator.\<close>

definition isspace :: "byte \<Rightarrow> bool" where
  "isspace c \<longleftrightarrow> c = 32 \<or> (9 \<le> c \<and> c \<le> 13)"

definition scan_word :: "bytes \<Rightarrow> bytes \<times> bytes" where
  "scan_word inp = (let s = dropWhile isspace inp in (takeWhile (\<lambda>c. \<not> isspace c) s, dropWhile (\<lambda>c. \<not> isspace c) s))"

definition scan_two :: "bytes \<Rightarrow> bytes \<Rightarrow> bytes \<Rightarrow> (bytes \<times> bytes \<times> bytes) option" where
  "scan_two inp cmd_buf buf =
     (case scan_word inp of (w1, inp1) \<Rightarrow>
        if w1 = [] then Some (inp1, cmd_buf, buf)
        else do {
          cmd_buf1 \<leftarrow> wr_block cmd_buf 0 (w1 @ [0]);
          case scan_word inp1 of (w2, inp2) \<Rightarrow>
            if w2 = [] then Some (inp2, cmd_buf1, buf)
            else do {
              buf1 \<leftarrow> wr_block buf 0 (w2 @ [0]);
              Some (inp2, cmd_buf1, buf1)
            }
        })"

text \<open>The variables of the command line: what is left of standard input, the buffers, the number of connections so far.\<close>

record cli =
  inp :: bytes
  cmd_buf :: bytes
  cbuf :: bytes
  packet :: bytes
  made :: nat
  finished :: "conn list"
  printed :: bytes

definition prompt :: bytes where "prompt = lit ''mini_spotlight> ''"

text \<open>The packet: the header is at its start, the word behind it.\<close>

definition fill_packet :: "bytes \<Rightarrow> bytes \<Rightarrow> nat \<Rightarrow> bytes option" where
  "fill_packet pk buf len = do {
     pk1 \<leftarrow> wr_block pk 0 (le_bytes (htonl (of_nat (len + HDR_LEN))));
     if length buf < len then None else wr_block pk1 HDR_LEN (take len buf)
   }"

definition exchange2 :: "bytes \<Rightarrow> nat \<Rightarrow> bytes \<Rightarrow> conn \<Rightarrow> (bytes \<times> conn \<times> bytes) option" where
  "exchange2 pk n buf c = do {
     (_, es, out) \<leftarrow> send_to_host pk n (tx c) (sent c);
     (buf1, rx1, m) \<leftarrow> recv_response buf (rx c);
     text \<leftarrow> (if m = htonl (msg_code RESPONSE) then (if terminated buf1 then Some (cstring buf1) else None) else Some no_such_word);
     Some (buf1, c\<lparr>rx := rx1, tx := es, sent := out, closed := True\<rparr>, text)
   }"

text \<open>One round of the loop; \<open>Inr\<close> when the thread returns.\<close>

definition cli_round :: "(nat \<Rightarrow> dial) \<Rightarrow> cli \<Rightarrow> (cli + cli) option" where
  "cli_round dials s = do {
     (inp1, cmd1, buf1) \<leftarrow> scan_two (inp s) (cmd_buf s) (cbuf s);
     let s1 = s\<lparr>inp := inp1, cmd_buf := cmd1, cbuf := buf1, printed := printed s @ prompt\<rparr>;
     r \<leftarrow> StrCompare (Some cmd1) (Some (lit ''search'' @ [0])) MAX_SIZE;
     if r \<noteq> 0 then Some (Inl s1)
     else do {
       len \<leftarrow> StrGetLength (Some buf1) MAX_SIZE;
       pk \<leftarrow> fill_packet (packet s) buf1 len;
       let d = dials (made s);
       let s2 = s1\<lparr>packet := pk, made := made s + 1\<rparr>;
       if sk_fd d < 0 then Some (Inr s2)
       else if sk_connect d < 0 then Some (Inr (s2\<lparr>finished := finished s @ [(sk_conn d)\<lparr>closed := True\<rparr>]\<rparr>))
       else do {
         (buf2, c, text) \<leftarrow> exchange2 pk (len + HDR_LEN) buf1 (sk_conn d);
         Some (Inl (s2\<lparr>cbuf := buf2, finished := finished s @ [c], printed := printed s1 @ text\<rparr>))
       }
     }
   }"

partial_function (option) cli_loop :: "(nat \<Rightarrow> dial) \<Rightarrow> cli \<Rightarrow> cli option" where
  "cli_loop dials s =
     (case cli_round dials s of
        None \<Rightarrow> None
      | Some (Inr s') \<Rightarrow> Some s'
      | Some (Inl s') \<Rightarrow> cli_loop dials s')"

definition cli_start :: "bytes \<Rightarrow> bytes \<Rightarrow> cli" where
  "cli_start input pk = \<lparr>inp = input, cmd_buf = replicate 100 0, cbuf = replicate BUFSIZE 0, packet = pk, made = 0,
     finished = [], printed = lit ''*** Starting CLI:'' @ [10]\<rparr>"

text \<open>The result of \<open>tc_malloc\<close> is not tested. A failed \<open>tc_thread_init\<close> ends the thread before the loop.\<close>

definition new_packet :: "allocator \<Rightarrow> bytes option" where
  "new_packet A = wr_block (map (junk A) [0..<MAX_SIZE + HDR_LEN]) 4 (le_bytes (htonl (msg_code REQUEST)))"

definition request_server2 :: "allocator \<Rightarrow> heap \<Rightarrow> bool \<Rightarrow> bytes \<Rightarrow> (nat \<Rightarrow> dial) \<Rightarrow> cli option option" where
  "request_server2 A h init_ok input dials =
     (if \<not> init_ok then Some None
      else if new_addr A (calls h) = 0 then None
      else do {
        pk \<leftarrow> new_packet A;
        s \<leftarrow> cli_loop dials (cli_start input pk);
        Some (Some s)
      })"

subsection \<open>Receiving a response\<close>

lemma wire_packet_append: "wire_packet t w @ rest =
    hdr_bytes \<lparr>tot_len = htonl (of_nat (length w + HDR_LEN)), msg_type = htonl (msg_code t)\<rparr> @ w @ rest"
  by (simp add: wire_packet_def)

lemma recv_response_fits:
  assumes d: "delivers es (wire_packet RESPONSE w @ rest)" and b: "HDR_LEN \<le> length buf" "length w < length buf" "length w < 2 ^ 31"
  shows "\<exists>r es'. recv_response buf es = Some (w @ 0 # r, es', htonl (msg_code RESPONSE)) \<and> length (w @ 0 # r) = length buf \<and>
    delivers es' rest"
proof -
  let ?H = "\<lparr>tot_len = htonl (of_nat (length w + HDR_LEN)), msg_type = htonl (msg_code RESPONSE)\<rparr>"
  obtain b1 c1 b2 c2 where g: "recv_from_host buf HDR_LEN es = Some (int HDR_LEN, b1, c1)" "read_hdr b1 = Some ?H"
      "recv_from_host b1 (length w) c1 = Some (int (length w), w @ b2, c2)" "length (w @ b2) = length buf" "delivers c2 rest"
    using sock.get_packet [of es ?H w rest buf] d b(1,2) unfolding wire_packet_append by auto
  obtain x r where r: "b2 = x # r" using g(4) b(2) by (cases b2) auto
  have "to_size (payload_len ?H) = length w" using payload_len_pckt [OF b(3)] by (simp only:)
  moreover have "wr (w @ b2) (length w) 0 = Some (w @ 0 # r)" unfolding r by (simp add: wr_def)
  ultimately have "recv_response buf es = Some (w @ 0 # r, c2, htonl (msg_code RESPONSE))"
    using g(1-3) by (simp add: recv_response_def)
  then show ?thesis using g(4,5) r by auto
qed

text \<open>Of a header for a short payload the first byte is zero.\<close>

lemma byte_of_small:
  assumes "n < 2 ^ 24"
  shows "byte_of 3 (of_nat n) = 0"
proof -
  have "unat (of_nat n :: 32 word) = n" using assms by (simp add: unat_of_nat)
  then have "unat (drop_bit 24 (of_nat n :: 32 word)) = 0" using assms by (simp only: unat_drop_bit_eq) (simp add: drop_bit_eq_div)
  then have "drop_bit 24 (of_nat n :: 32 word) = 0" by (simp only: unat_eq_0)
  then show ?thesis by (simp add: byte_of_def)
qed

lemma recv_response_other:
  assumes d: "delivers es (wire_packet t w @ rest)" and b: "HDR_LEN \<le> length buf" and t: "t \<noteq> RESPONSE"
  shows "\<exists>buf' es'. recv_response buf es = Some (buf', es', htonl (msg_code t)) \<and> length buf' = length buf \<and>
    (length w + HDR_LEN < 2 ^ 24 \<longrightarrow> (\<exists>r. buf' = 0 # r))"
proof -
  let ?H = "\<lparr>tot_len = htonl (of_nat (length w + HDR_LEN)), msg_type = htonl (msg_code t)\<rparr>"
  obtain es' where "recv_from_host buf HDR_LEN es = Some (int HDR_LEN, hdr_bytes ?H @ drop HDR_LEN buf, es')"
    using recv_from_host_delivers [OF d, of HDR_LEN buf] b unfolding wire_packet_append by auto
  moreover have ne: "htonl (msg_code t) \<noteq> htonl (msg_code RESPONSE)" using t sint_code_distinct by blast
  ultimately have "recv_response buf es = Some (hdr_bytes ?H @ drop HDR_LEN buf, es', htonl (msg_code t))"
    using ne by (simp add: recv_response_def read_hdr_bytes del: htonl_inj msg_code.simps)
  moreover have "\<exists>r. hdr_bytes ?H @ drop HDR_LEN buf = 0 # r" if "length w + HDR_LEN < 2 ^ 24"
    using byte_of_small [OF that] by (simp add: hdr_bytes_big_endian)
  ultimately show ?thesis using b by (intro exI [of _ "hdr_bytes ?H @ drop HDR_LEN buf"] exI [of _ es']) simp
qed

text \<open>A response that leaves no room for the terminator.\<close>

lemma recv_response_overflows:
  assumes d: "delivers es (wire_packet RESPONSE w @ rest)" and b: "HDR_LEN \<le> length buf" "length buf \<le> length w" "length w < 2 ^ 31"
  shows "recv_response buf es = None"
proof -
  let ?H = "\<lparr>tot_len = htonl (of_nat (length w + HDR_LEN)), msg_type = htonl (msg_code RESPONSE)\<rparr>"
  let ?b1 = "hdr_bytes ?H @ drop HDR_LEN buf"
  obtain es' where r: "recv_from_host buf HDR_LEN es = Some (int HDR_LEN, ?b1, es')" "delivers es' (w @ rest)"
    using recv_from_host_delivers [OF d, of HDR_LEN buf] b(1) unfolding wire_packet_append by auto
  have n: "to_size (payload_len ?H) = length w" using payload_len_pckt [OF b(3)] by (simp only:)
  have len: "length ?b1 = length buf" using b(1) by simp
  show ?thesis
  proof (cases "length buf = length w")
    case True
    then obtain es2 where "recv_from_host ?b1 (length w) es' = Some (int (length w), w, es2)"
      using recv_from_host_delivers [OF r(2), of "length w" ?b1] len by auto
    then show ?thesis using r(1) n by (simp add: recv_response_def read_hdr_bytes wr_def)
  next
    case False
    then have "recv_from_host ?b1 (length w) es' = None"
      using recv_loop_overflow [OF r(2), of "length w" ?b1 0] len b(2) by (simp add: recv_from_host_def)
    then show ?thesis using r(1) n by (simp add: recv_response_def read_hdr_bytes)
  qed
qed

text \<open>What a client takes from the reply of a server whose index is \<open>idx\<close>.\<close>

lemma recv_reply:
  assumes d: "delivers es (reply name idx t @ rest)" and b: "HDR_LEN \<le> length buf" "length buf < 2 ^ 31"
    and fit: "\<forall>ps. idx t = Some ps \<longrightarrow> length (response_text name ps) < length buf"
  shows "\<exists>buf' es'. recv_response buf es = Some (buf', es', htonl (msg_code (if idx t = None then ERROR else RESPONSE))) \<and>
    length buf' = length buf \<and> (\<exists>r. buf' = (case idx t of None \<Rightarrow> [] | Some ps \<Rightarrow> response_text name ps) @ 0 # r)"
proof (cases "idx t")
  case None
  then have "delivers es (wire_packet ERROR [] @ rest)" using d by (simp add: reply_def)
  from recv_response_other [OF this b(1)] show ?thesis using None by (auto simp: HDR_LEN_def)
next
  case (Some ps)
  then have "delivers es (wire_packet RESPONSE (response_text name ps) @ rest)" using d by (simp add: reply_def)
  moreover have "length (response_text name ps) < length buf" using fit Some by simp
  ultimately obtain r es' where "recv_response buf es = Some (response_text name ps @ 0 # r, es', htonl (msg_code RESPONSE))"
      "length (response_text name ps @ 0 # r) = length buf"
    using recv_response_fits [of es "response_text name ps" rest buf] b by auto
  then show ?thesis using Some by auto
qed

subsection \<open>Asking a server\<close>

text \<open>
  The system gives a connection, nothing that is sent fails, and what arrives is the reply of a server for the word \<open>t\<close>.
\<close>

definition answered :: "(nat \<Rightarrow> bytes) \<Rightarrow> index \<Rightarrow> bytes \<Rightarrow> dial \<Rightarrow> bool" where
  "answered name idx t d \<longleftrightarrow> 0 \<le> sk_fd d \<and> 0 \<le> sk_connect d \<and> Write_error \<notin> set (tx (sk_conn d)) \<and>
     (\<exists>rest. delivers (rx (sk_conn d)) (reply name idx t @ rest))"

definition fits :: "(nat \<Rightarrow> bytes) \<Rightarrow> index \<Rightarrow> bytes \<Rightarrow> nat \<Rightarrow> bool" where
  "fits name idx t n \<longleftrightarrow> (\<forall>ps. idx t = Some ps \<longrightarrow> length (response_text name ps) < n)"

abbreviation request_hdr :: "nat \<Rightarrow> struct_Hdr" where
  "request_hdr n \<equiv> \<lparr>tot_len = htonl (of_nat (n + HDR_LEN)), msg_type = htonl (msg_code REQUEST)\<rparr>"

lemma take_cstring: "take (length (cstring m)) m = cstring m"
  by (simp add: cstring_def takeWhile_eq_take [symmetric])

lemma code_cases:
  "htonl (msg_code ERROR) \<noteq> htonl (msg_code RESPONSE)" "htonl (msg_code RESPONSE) \<noteq> htonl (msg_code ERROR)"
  by simp_all

lemma exchange1_ok:
  assumes a: "answered name idx (cstring word) d" and b: "HDR_LEN \<le> length buf" "length buf < 2 ^ 31"
    and f: "fits name idx (cstring word) (length buf)"
  shows "\<exists>buf' c'. exchange1 (Some (request_hdr (length (cstring word)))) word (length (cstring word)) buf (sk_conn d) =
      Some (buf', c', if idx (cstring word) = None then no_such_word else []) \<and> length buf' = length buf \<and>
    sent c' = sent (sk_conn d) @ wire_packet REQUEST (cstring word) \<and> closed c'"
proof -
  let ?t = "cstring word" and ?c = "sk_conn d"
  obtain rest where tx: "Write_error \<notin> set (tx ?c)" and rx: "delivers (rx ?c) (reply name idx ?t @ rest)"
    using a by (auto simp: answered_def)
  obtain es where s1: "send_hdr (Some (request_hdr (length ?t))) (tx ?c) (sent ?c) = Some (es, sent ?c @ hdr_bytes (request_hdr (length ?t)))"
      "Write_error \<notin> set es"
    using send_hdr_all [OF tx] by blast
  have "length ?t \<le> length word" by (simp add: cstring_def length_takeWhile_le)
  then obtain es1 where s2: "send_to_host word (length ?t) es (sent ?c @ hdr_bytes (request_hdr (length ?t))) =
      Some (int (length ?t), es1, sent ?c @ hdr_bytes (request_hdr (length ?t)) @ ?t)"
    using send_to_host_all [OF s1(2), of "length ?t" word "sent ?c @ hdr_bytes (request_hdr (length ?t))"] take_cstring [of word] by auto
  obtain buf' es' where r: "recv_response buf (rx ?c) = Some (buf', es', htonl (msg_code (if idx ?t = None then ERROR else RESPONSE)))"
      "length buf' = length buf"
    using recv_reply [OF rx b] f by (auto simp: fits_def)
  let ?c' = "?c\<lparr>rx := es', tx := es1, sent := sent ?c @ hdr_bytes (request_hdr (length ?t)) @ ?t, closed := True\<rparr>"
  have "exchange1 (Some (request_hdr (length ?t))) word (length ?t) buf ?c = Some (buf', ?c', if idx ?t = None then no_such_word else [])"
    unfolding exchange1_def s1(1) r(1) Option.bind.simps split s2 using code_cases by (simp del: htonl_inj msg_code.simps)
  then show ?thesis using r(2) by (auto simp: wire_packet_def)
qed

lemma request_loop1_ok:
  assumes "\<forall>d\<in>set ds. answered name idx (cstring word) d" and "HDR_LEN \<le> length buf" "length buf < 2 ^ 31"
    and "fits name idx (cstring word) (length buf)"
  shows "\<exists>buf' cs. request_loop1 (Some (request_hdr (length (cstring word)))) word (length (cstring word)) buf ds =
      Some (True, buf', cs, concat (replicate (length ds) (if idx (cstring word) = None then no_such_word else []))) \<and>
    list_all2 (\<lambda>d c. sent c = sent (sk_conn d) @ wire_packet REQUEST (cstring word) \<and> closed c) ds cs"
  using assms
proof (induction ds arbitrary: buf)
  case Nil
  then show ?case by simp
next
  case (Cons d ds)
  obtain buf1 c where e: "exchange1 (Some (request_hdr (length (cstring word)))) word (length (cstring word)) buf (sk_conn d) =
      Some (buf1, c, if idx (cstring word) = None then no_such_word else [])" "length buf1 = length buf"
      "sent c = sent (sk_conn d) @ wire_packet REQUEST (cstring word)" "closed c"
    using exchange1_ok [of name idx word d buf] Cons.prems by auto
  obtain buf2 cs where i: "request_loop1 (Some (request_hdr (length (cstring word)))) word (length (cstring word)) buf1 ds =
      Some (True, buf2, cs, concat (replicate (length ds) (if idx (cstring word) = None then no_such_word else [])))"
      "list_all2 (\<lambda>d c. sent c = sent (sk_conn d) @ wire_packet REQUEST (cstring word) \<and> closed c) ds cs"
    using Cons.IH [of buf1] Cons.prems e(2) by auto
  have "\<not> sk_fd d < 0" "\<not> sk_connect d < 0" using Cons.prems(1) by (auto simp: answered_def)
  then show ?case using e(1,3,4) i by (intro exI [of _ buf2] exI [of _ "c # cs"]) simp
qed

subsection \<open>The command line\<close>

definition cli_ok :: "cli \<Rightarrow> bool" where
  "cli_ok s \<longleftrightarrow> length (cmd_buf s) = 100 \<and> length (cbuf s) = BUFSIZE \<and> length (packet s) = MAX_SIZE + HDR_LEN \<and>
     take 4 (drop 4 (packet s)) = le_bytes (htonl (msg_code REQUEST))"

definition typed_word :: "bytes \<Rightarrow> bool" where
  "typed_word w \<longleftrightarrow> w \<noteq> [] \<and> (\<forall>c\<in>set w. \<not> isspace c) \<and> 0 \<notin> set w \<and> length w < 100"

definition command :: "bytes \<Rightarrow> bytes" where
  "command w = lit ''search '' @ w @ [10]"

lemma scan_word_run:
  assumes "\<forall>c\<in>set pre. isspace c" and "w \<noteq> []" and "\<forall>c\<in>set w. \<not> isspace c" and "isspace c"
  shows "scan_word (pre @ w @ c # rest) = (w, c # rest)"
proof -
  obtain x xs where w: "w = x # xs" using assms(2) by (cases w) auto
  have "dropWhile isspace (pre @ w @ c # rest) = w @ c # rest" using assms(1,3) w by simp
  moreover have "takeWhile (\<lambda>c. \<not> isspace c) (w @ c # rest) = w" "dropWhile (\<lambda>c. \<not> isspace c) (w @ c # rest) = c # rest"
    using assms(3,4) by (simp_all add: takeWhile_append2 dropWhile_append2)
  ultimately show ?thesis by (simp add: scan_word_def)
qed

lemma scan_two_command:
  assumes "\<forall>c\<in>set pre. isspace c" and w: "typed_word w" and len: "length cmd = 100" "length buf = BUFSIZE"
  shows "scan_two (pre @ command w @ rest) cmd buf =
    Some (10 # rest, lit ''search'' @ 0 # drop 7 cmd, w @ 0 # drop (Suc (length w)) buf)"
proof -
  have c: "pre @ command w @ rest = pre @ lit ''search'' @ 32 # w @ 10 # rest" by (simp add: command_def lit_def)
  have "\<forall>c\<in>set (lit ''search''). \<not> isspace c" by (simp add: lit_def isspace_def)
  then have "scan_word (pre @ command w @ rest) = (lit ''search'', 32 # w @ 10 # rest)"
    unfolding c using assms(1) by (intro scan_word_run) (simp_all add: lit_def isspace_def)
  moreover have "scan_word (32 # w @ 10 # rest) = (w, 10 # rest)"
    using scan_word_run [of "[32]" w 10 rest] w by (simp add: typed_word_def isspace_def)
  moreover have "length (lit ''search'') = 6" "lit ''search'' \<noteq> []" by (simp_all add: lit_def)
  ultimately show ?thesis
    using w len by (simp add: scan_two_def wr_block_def typed_word_def BUFSIZE_def)
qed

lemma fill_packet_ok:
  assumes "length pk = MAX_SIZE + HDR_LEN" and "take 4 (drop 4 pk) = le_bytes (htonl (msg_code REQUEST))" and "length w < 100"
  shows "\<exists>pk'. fill_packet pk (w @ r) (length w) = Some pk' \<and> length pk' = length pk \<and>
    take 4 (drop 4 pk') = le_bytes (htonl (msg_code REQUEST)) \<and> take (length w + HDR_LEN) pk' = wire_packet REQUEST w"
proof -
  let ?L = "le_bytes (htonl (of_nat (length w + HDR_LEN)))"
  have l4: "length ?L = 4" "length (le_bytes x) = 4" for x by (simp_all add: le_bytes_def)
  let ?pk1 = "?L @ drop 4 pk"
  have "drop 4 pk = take 4 (drop 4 pk) @ drop 8 pk" using append_take_drop_id [of 4 "drop 4 pk"] by simp
  then have p: "drop 4 pk = le_bytes (htonl (msg_code REQUEST)) @ drop 8 pk" using assms(2) by simp
  have pk1: "wr_block pk 0 ?L = Some ?pk1" using assms(1) l4 by (simp add: wr_block_def HDR_LEN_def)
  have "take HDR_LEN ?pk1 = hdr_bytes (request_hdr (length w))" unfolding p using l4 by (simp add: hdr_bytes_def HDR_LEN_def)
  moreover have "length ?pk1 = length pk" using assms(1) l4 by (simp add: HDR_LEN_def)
  ultimately have "fill_packet pk (w @ r) (length w) =
      Some (hdr_bytes (request_hdr (length w)) @ w @ drop (HDR_LEN + length w) ?pk1)"
    unfolding fill_packet_def pk1 using assms(1,3) by (simp add: wr_block_def MAX_SIZE_def)
  moreover have "take 4 (drop 4 (hdr_bytes (request_hdr (length w)) @ x)) = le_bytes (htonl (msg_code REQUEST))" for x
    using l4 by (simp add: hdr_bytes_def)
  moreover have "length (hdr_bytes (request_hdr (length w)) @ w @ drop (HDR_LEN + length w) ?pk1) = length pk"
    using \<open>length ?pk1 = length pk\<close> assms(1,3) by (simp add: MAX_SIZE_def del: length_append) simp
  moreover have "take (length w + HDR_LEN) (hdr_bytes (request_hdr (length w)) @ w @ x) = wire_packet REQUEST w" for x
    by (simp add: wire_packet_def)
  ultimately show ?thesis by blast
qed

lemma decimal_no_nul: "0 \<notin> set (decimal n)"
proof (induction n rule: decimal.induct)
  case (1 n)
  have digit: "of_nat (48 + k) \<noteq> (0 :: 8 word)" if "k < 10" for k
    using that by (auto simp: word_of_nat_eq_0_iff simp del: of_nat_add dest: dvd_imp_le)
  show ?case using 1 digit [of n] digit [of "n mod 10"] by (subst decimal.simps) (simp del: of_nat_add)
qed

lemma response_text_no_nul: "\<forall>d. 0 \<notin> set (name d) \<Longrightarrow> 0 \<notin> set (response_text name ps)"
  by (auto simp: response_text_def posting_text_def entry_text_def decimal_no_nul lit_def)

definition shown :: "(nat \<Rightarrow> bytes) \<Rightarrow> index \<Rightarrow> bytes \<Rightarrow> bytes" where
  "shown name idx t = (case idx t of None \<Rightarrow> no_such_word | Some ps \<Rightarrow> response_text name ps)"

text \<open>What a reply leaves in the buffer of the client: its text, or nothing.\<close>

definition left_over :: "(nat \<Rightarrow> bytes) \<Rightarrow> index \<Rightarrow> bytes \<Rightarrow> bytes" where
  "left_over name idx t = (case idx t of None \<Rightarrow> [] | Some ps \<Rightarrow> response_text name ps)"

lemma exchange2_ok:
  assumes a: "answered name idx t d" and b: "length buf = BUFSIZE" and f: "fits name idx t BUFSIZE" and n: "\<forall>d. 0 \<notin> set (name d)"
    and pk: "take k pk = wire_packet REQUEST t" "k \<le> length pk"
  shows "\<exists>buf' c'. exchange2 pk k buf (sk_conn d) = Some (buf', c', shown name idx t) \<and> length buf' = BUFSIZE \<and>
    terminated buf' \<and> cstring buf' = left_over name idx t \<and>
    sent c' = sent (sk_conn d) @ wire_packet REQUEST t \<and> closed c'"
proof -
  let ?c = "sk_conn d"
  obtain rest where tx: "Write_error \<notin> set (tx ?c)" and rx: "delivers (rx ?c) (reply name idx t @ rest)"
    using a by (auto simp: answered_def)
  obtain es where s: "send_to_host pk k (tx ?c) (sent ?c) = Some (int k, es, sent ?c @ wire_packet REQUEST t)"
    using send_to_host_all [OF tx pk(2), of "sent ?c"] pk(1) by auto
  obtain buf' es' r where r: "recv_response buf (rx ?c) = Some (buf', es', htonl (msg_code (if idx t = None then ERROR else RESPONSE)))"
      "length buf' = length buf" "buf' = left_over name idx t @ 0 # r"
    using recv_reply [OF rx, of buf] f b unfolding left_over_def by (auto simp: fits_def BUFSIZE_def HDR_LEN_def)
  have "0 \<notin> set (left_over name idx t)" using response_text_no_nul [OF n] by (simp add: left_over_def split: option.split)
  then have cs: "terminated buf'" "cstring buf' = left_over name idx t" unfolding r(3) by simp_all
  have "(if htonl (msg_code (if idx t = None then ERROR else RESPONSE)) = htonl (msg_code RESPONSE)
      then (if terminated buf' then Some (cstring buf') else None) else Some no_such_word) = Some (shown name idx t)"
  proof (cases "idx t")
    case None
    then show ?thesis using code_cases by (simp add: shown_def del: htonl_inj msg_code.simps)
  next
    case (Some ps)
    then show ?thesis using cs by (simp add: shown_def left_over_def)
  qed
  then have "exchange2 pk k buf ?c = Some (buf', ?c\<lparr>rx := es', tx := es, sent := sent ?c @ wire_packet REQUEST t, closed := True\<rparr>,
      shown name idx t)"
    unfolding exchange2_def s r(1) Option.bind.simps split by (simp del: htonl_inj msg_code.simps)
  then show ?thesis using r(2) b cs by auto
qed

text \<open>
  A round that makes a request: \<open>search\<close> is in the command buffer, and the other buffer holds \<open>w\<close>, whether it has just been typed or
  is what an earlier reply left there.
\<close>

definition cli_search :: "cli \<Rightarrow> bool" where
  "cli_search s \<longleftrightarrow> terminated (cmd_buf s) \<and> cstring (cmd_buf s) = lit ''search'' \<and> terminated (cbuf s)"

lemma cli_round_search:
  assumes s: "cli_ok s" and sc: "scan_two (inp s) (cmd_buf s) (cbuf s) = Some (inp1, cmd1, w @ r)"
    and cmd: "terminated cmd1" "cstring cmd1 = lit ''search''" "length cmd1 = 100"
    and w: "StrGetLength (Some (w @ r)) MAX_SIZE = Some (length w)" "length w < 100" "length (w @ r) = BUFSIZE"
    and a: "answered name idx w (dials (made s))" and f: "fits name idx w BUFSIZE" and n: "\<forall>d. 0 \<notin> set (name d)"
  shows "\<exists>s' c'. cli_round dials s = Some (Inl s') \<and> cli_ok s' \<and> inp s' = inp1 \<and> made s' = Suc (made s) \<and>
    printed s' = printed s @ prompt @ shown name idx w \<and> finished s' = finished s @ [c'] \<and>
    sent c' = sent (sk_conn (dials (made s))) @ wire_packet REQUEST w \<and> closed c' \<and>
    cli_search s' \<and> cstring (cbuf s') = left_over name idx w"
proof -
  let ?buf = "w @ r"
  note gl = w(1)
  have "0 \<notin> set (lit ''search'')" "length (lit ''search'') = 6" by (simp_all add: lit_def)
  then have cmp: "StrCompare (Some cmd1) (Some (lit ''search'' @ [0])) MAX_SIZE = Some 0"
    using StrCompare_zero_iff [of cmd1 "lit ''search'' @ [0]" MAX_SIZE] cmd(1,2) by (auto simp: MAX_SIZE_def)
  obtain pk where pk: "fill_packet (packet s) ?buf (length w) = Some pk" "length pk = length (packet s)"
      "take 4 (drop 4 pk) = le_bytes (htonl (msg_code REQUEST))" "take (length w + HDR_LEN) pk = wire_packet REQUEST w"
    using fill_packet_ok [of "packet s" w] s w(2) by (auto simp: cli_ok_def)
  have "length w + HDR_LEN \<le> length pk" using s pk(2) w(2) by (simp add: cli_ok_def MAX_SIZE_def)
  then obtain buf' c' where e: "exchange2 pk (length w + HDR_LEN) ?buf (sk_conn (dials (made s))) = Some (buf', c', shown name idx w)"
      "length buf' = BUFSIZE" "terminated buf'" "cstring buf' = left_over name idx w"
      "sent c' = sent (sk_conn (dials (made s))) @ wire_packet REQUEST w" "closed c'"
    using exchange2_ok [OF a w(3) f n pk(4)] by blast
  have ok: "\<not> sk_fd (dials (made s)) < 0" "\<not> sk_connect (dials (made s)) < 0" using a by (simp_all add: answered_def)
  let ?s' = "s\<lparr>inp := inp1, cmd_buf := cmd1, cbuf := buf', packet := pk, made := made s + 1, finished := finished s @ [c'],
    printed := printed s @ prompt @ shown name idx w\<rparr>"
  have "cli_round dials s = Some (Inl ?s')"
    unfolding cli_round_def sc Option.bind.simps split Let_def cmp gl pk(1) using ok e(1) by simp
  moreover have "cli_ok ?s'" using s e(2) pk(2,3) cmd(3) by (simp add: cli_ok_def)
  moreover have "cli_search ?s'" using cmd(1,2) e(3) by (simp add: cli_search_def)
  ultimately show ?thesis using e(4-6) by (intro exI [of _ ?s'] exI [of _ c']) simp
qed

text \<open>One command, answered by a server whose index is \<open>idx\<close>.\<close>

lemma cli_round_command:
  assumes s: "cli_ok s" "inp s = pre @ command w @ rem" "\<forall>c\<in>set pre. isspace c" and w: "typed_word w"
    and a: "answered name idx w (dials (made s))" and f: "fits name idx w BUFSIZE" and n: "\<forall>d. 0 \<notin> set (name d)"
  shows "\<exists>s' c'. cli_round dials s = Some (Inl s') \<and> cli_ok s' \<and> inp s' = 10 # rem \<and> made s' = Suc (made s) \<and>
    printed s' = printed s @ prompt @ shown name idx w \<and> finished s' = finished s @ [c'] \<and>
    sent c' = sent (sk_conn (dials (made s))) @ wire_packet REQUEST w \<and> closed c' \<and>
    cli_search s' \<and> cstring (cbuf s') = left_over name idx w"
proof -
  have len: "length (cmd_buf s) = 100" "length (cbuf s) = BUFSIZE" using s(1) by (simp_all add: cli_ok_def)
  have w': "0 \<notin> set w" "length w < 100" using w by (simp_all add: typed_word_def)
  have sc: "scan_two (inp s) (cmd_buf s) (cbuf s) =
      Some (10 # rem, lit ''search'' @ 0 # drop 7 (cmd_buf s), w @ 0 # drop (Suc (length w)) (cbuf s))"
    using scan_two_command [OF s(3) w len] s(2) by simp
  have "0 \<notin> set (lit ''search'')" "length (lit ''search'') = 6" by (simp_all add: lit_def)
  then have "terminated (lit ''search'' @ 0 # drop 7 (cmd_buf s))" "cstring (lit ''search'' @ 0 # drop 7 (cmd_buf s)) = lit ''search''"
      "length (lit ''search'' @ 0 # drop 7 (cmd_buf s)) = 100"
    using len(1) by simp_all
  moreover have "length (w @ 0 # drop (Suc (length w)) (cbuf s)) = BUFSIZE" using len(2) w'(2) by (simp add: BUFSIZE_def)
  moreover have "StrGetLength (Some (w @ 0 # drop (Suc (length w)) (cbuf s))) MAX_SIZE = Some (length w)"
    using w' by (simp add: StrGetLength_cstring MAX_SIZE_def)
  ultimately show ?thesis using cli_round_search [where idx = idx and name = name and dials = dials, OF s(1) sc] w'(2) a f n by blast
qed

text \<open>The state after a number of rounds.\<close>

fun cli_rounds :: "nat \<Rightarrow> (nat \<Rightarrow> dial) \<Rightarrow> cli \<Rightarrow> (cli + cli) option" where
  "cli_rounds 0 dials s = Some (Inl s)"
| "cli_rounds (Suc n) dials s =
     (case cli_round dials s of Some (Inl s') \<Rightarrow> cli_rounds n dials s' | r \<Rightarrow> r)"

lemma cli_rounds_commands:
  assumes "cli_ok s" and "inp s = pre @ concat (map command ws)" and "\<forall>c\<in>set pre. isspace c"
    and "\<forall>w\<in>set ws. typed_word w \<and> fits name idx w BUFSIZE" and "\<forall>d. 0 \<notin> set (name d)"
    and "\<forall>i<length ws. answered name idx (ws ! i) (dials (made s + i))"
  shows "\<exists>s'. cli_rounds (length ws) dials s = Some (Inl s') \<and> cli_ok s' \<and> (\<forall>c\<in>set (inp s'). isspace c) \<and>
    printed s' = printed s @ concat (map (\<lambda>w. prompt @ shown name idx w) ws) \<and> made s' = made s + length ws \<and>
    (\<exists>cs. finished s' = finished s @ cs \<and> length cs = length ws \<and> (\<forall>i<length ws. closed (cs ! i) \<and>
      sent (cs ! i) = sent (sk_conn (dials (made s + i))) @ wire_packet REQUEST (ws ! i)))"
  using assms
proof (induction ws arbitrary: s pre)
  case Nil
  then show ?case by simp
next
  case (Cons w ws)
  have "inp s = pre @ command w @ concat (map command ws)" using Cons.prems(2) by simp
  moreover have "typed_word w" "fits name idx w BUFSIZE" "answered name idx w (dials (made s))" using Cons.prems(4,6) by auto
  ultimately obtain s1 c1 where r: "cli_round dials s = Some (Inl s1)" "cli_ok s1" "inp s1 = 10 # concat (map command ws)"
      "made s1 = Suc (made s)" "printed s1 = printed s @ prompt @ shown name idx w" "finished s1 = finished s @ [c1]"
      "sent c1 = sent (sk_conn (dials (made s))) @ wire_packet REQUEST w" "closed c1"
    using cli_round_command [OF Cons.prems(1) _ Cons.prems(3)] Cons.prems(5) by blast
  have i0: "\<forall>i<length ws. answered name idx (ws ! i) (dials (made s1 + i))" "inp s1 = [10] @ concat (map command ws)"
      "\<forall>c\<in>set [10]. isspace c"
    using Cons.prems(6) r(3,4) by (auto simp: isspace_def)
  obtain s' cs where i: "cli_rounds (length ws) dials s1 = Some (Inl s')" "cli_ok s'" "\<forall>c\<in>set (inp s'). isspace c"
      "printed s' = printed s1 @ concat (map (\<lambda>w. prompt @ shown name idx w) ws)" "made s' = made s1 + length ws"
      "finished s' = finished s1 @ cs" "length cs = length ws"
      "\<forall>i<length ws. closed (cs ! i) \<and> sent (cs ! i) = sent (sk_conn (dials (made s1 + i))) @ wire_packet REQUEST (ws ! i)"
  proof -
    have "\<forall>w\<in>set ws. typed_word w \<and> fits name idx w BUFSIZE" using Cons.prems(4) by simp
    from Cons.IH [OF r(2) i0(2,3) this Cons.prems(5) i0(1)] show thesis by (elim exE conjE, intro that)
  qed
  have "closed ((c1 # cs) ! j) \<and> sent ((c1 # cs) ! j) = sent (sk_conn (dials (made s + j))) @ wire_packet REQUEST ((w # ws) ! j)"
    if "j < length (w # ws)" for j
    using that i(8) r(4,7,8) by (cases j) auto
  moreover have "finished s' = finished s @ c1 # cs" "length (c1 # cs) = length (w # ws)" using i(6,7) r(6) by simp_all
  moreover have "printed s' = printed s @ concat (map (\<lambda>w. prompt @ shown name idx w) (w # ws))" using i(4) r(5) by simp
  moreover have "cli_rounds (length (w # ws)) dials s = Some (Inl s')" "made s' = made s + length (w # ws)"
    using i(1,5) r(1,4) by simp_all
  ultimately show ?case using i(2,3) by blast
qed

lemma new_packet_ok: "\<exists>pk. new_packet A = Some pk \<and> cli_ok (cli_start input pk)"
proof -
  let ?old = "map (junk A) [0..<MAX_SIZE + HDR_LEN]" and ?b = "le_bytes (htonl (msg_code REQUEST))"
  have "length ?b = 4" by (simp add: le_bytes_def)
  then have "new_packet A = Some (take 4 ?old @ ?b @ drop 8 ?old)" by (simp add: new_packet_def wr_block_def MAX_SIZE_def HDR_LEN_def)
  moreover have "cli_ok (cli_start input (take 4 ?old @ ?b @ drop 8 ?old))"
    using \<open>length ?b = 4\<close> by (simp add: cli_ok_def cli_start_def MAX_SIZE_def HDR_LEN_def BUFSIZE_def)
  ultimately show ?thesis by blast
qed

subsection \<open>When the command line ends\<close>

lemma cli_round_returns:
  assumes "cli_round dials s = Some (Inr s')"
  shows "made s' = Suc (made s) \<and> (sk_fd (dials (made s)) < 0 \<or> sk_connect (dials (made s)) < 0)"
  using assms unfolding cli_round_def Let_def by (auto split: Option.bind_splits if_splits)

lemma cli_loop_returns:
  assumes "cli_loop dials s = Some s'"
  shows "\<exists>i. made s' = Suc i \<and> (sk_fd (dials i) < 0 \<or> sk_connect (dials i) < 0)"
proof (rule cli_loop.raw_induct [where P = "\<lambda>dials s s'. \<exists>i. made s' = Suc i \<and> (sk_fd (dials i) < 0 \<or> sk_connect (dials i) < 0)", OF _ assms])
  fix loop dials s s'
  assume IH: "\<And>dials s s'. loop dials s = Some s' \<Longrightarrow> \<exists>i. made s' = Suc i \<and> (sk_fd (dials i) < 0 \<or> sk_connect (dials i) < 0)"
    and e: "(case cli_round dials s of None \<Rightarrow> None | Some (Inl t) \<Rightarrow> loop dials t | Some (Inr t) \<Rightarrow> Some t) = Some s'"
  show "\<exists>i. made s' = Suc i \<and> (sk_fd (dials i) < 0 \<or> sk_connect (dials i) < 0)"
    using e IH [of dials] cli_round_returns [of dials s] by (auto split: option.splits sum.splits)
qed

text \<open>No more input, and the last command was not a search.\<close>

definition cli_idle :: "cli \<Rightarrow> bool" where
  "cli_idle s \<longleftrightarrow> (\<forall>c\<in>set (inp s). isspace c) \<and> terminated (cmd_buf s) \<and> length (cstring (cmd_buf s)) < 100 \<and>
     cstring (cmd_buf s) \<noteq> lit ''search''"

lemma cli_round_idle:
  assumes "cli_idle s"
  shows "cli_round dials s = Some (Inl (s\<lparr>inp := [], printed := printed s @ prompt\<rparr>))"
proof -
  have "scan_word (inp s) = ([], [])"
    using assms by (simp add: scan_word_def cli_idle_def dropWhile_eq_Nil_conv [THEN iffD2] Let_def)
  then have sc: "scan_two (inp s) (cmd_buf s) (cbuf s) = Some ([], cmd_buf s, cbuf s)" by (simp add: scan_two_def)
  have "0 \<notin> set (lit ''search'')" by (simp add: lit_def)
  then obtain r where "StrCompare (Some (cmd_buf s)) (Some (lit ''search'' @ [0])) MAX_SIZE = Some r" "r \<noteq> 0"
    using StrCompare_zero_iff [of "cmd_buf s" "lit ''search'' @ [0]" MAX_SIZE] assms by (auto simp: cli_idle_def MAX_SIZE_def)
  then show ?thesis unfolding cli_round_def sc Option.bind.simps split Let_def by simp
qed

lemma cli_idle_step: "cli_idle s \<Longrightarrow> cli_idle (s\<lparr>inp := [], printed := p\<rparr>)"
  by (simp add: cli_idle_def)

lemma cli_rounds_idle:
  "cli_idle s \<Longrightarrow> \<exists>s'. cli_rounds n dials s = Some (Inl s') \<and> made s' = made s \<and> printed s' = printed s @ concat (replicate n prompt)"
proof (induction n arbitrary: s)
  case 0
  then show ?case by simp
next
  case (Suc n)
  show ?case using Suc.IH [OF cli_idle_step [OF Suc.prems, of "printed s @ prompt"]] cli_round_idle [OF Suc.prems, of dials] by auto
qed

lemma cli_loop_idle:
  assumes "cli_loop dials s = Some s'"
  shows "\<not> cli_idle s"
proof (rule cli_loop.raw_induct [where P = "\<lambda>dials s s'. \<not> cli_idle s", OF _ assms])
  fix loop dials s s'
  assume IH: "\<And>dials s s'. loop dials s = Some s' \<Longrightarrow> \<not> cli_idle s"
    and e: "(case cli_round dials s of None \<Rightarrow> None | Some (Inl t) \<Rightarrow> loop dials t | Some (Inr t) \<Rightarrow> Some t) = Some s'"
  show "\<not> cli_idle s"
  proof
    assume i: "cli_idle s"
    then show False using e IH cli_round_idle [OF i, of dials] cli_idle_step [OF i, of "printed s @ prompt"] by simp
  qed
qed

subsection \<open>The end of the input after a search\<close>

text \<open>
  At the end of its input \<open>scanf\<close> stores nothing, and its result is not tested: \<open>search\<close> is still in the command buffer, and what the last reply
  left in the other buffer is taken for the next word. \<open>StrGetLength\<close> gives 0 for a text of \<open>MAX_SIZE\<close> bytes or more.
\<close>

fun stale_word :: "(nat \<Rightarrow> bytes) \<Rightarrow> index \<Rightarrow> bytes \<Rightarrow> nat \<Rightarrow> bytes" where
  "stale_word name idx w 0 = w"
| "stale_word name idx w (Suc i) =
     (let t = left_over name idx (stale_word name idx w i) in if length t < MAX_SIZE then t else [])"

lemma stale_word_Suc: "stale_word name idx (stale_word name idx w 1) i = stale_word name idx w (Suc i)"
  by (induction i) simp_all

text \<open>The variables before such a round: \<open>t\<close> is what the buffer holds.\<close>

lemma cli_round_stale:
  assumes s: "cli_ok s" "cli_search s" "\<forall>c\<in>set (inp s). isspace c" "cstring (cbuf s) = t"
    and w: "w = (if length t < MAX_SIZE then t else [])" and n: "\<forall>d. 0 \<notin> set (name d)"
    and a: "answered name idx w (dials (made s))" and f: "fits name idx w BUFSIZE"
  shows "\<exists>s' c'. cli_round dials s = Some (Inl s') \<and> cli_ok s' \<and> cli_search s' \<and> inp s' = [] \<and> cstring (cbuf s') = left_over name idx w \<and>
    made s' = Suc (made s) \<and> printed s' = printed s @ prompt @ shown name idx w \<and> finished s' = finished s @ [c'] \<and>
    sent c' = sent (sk_conn (dials (made s))) @ wire_packet REQUEST w \<and> closed c'"
proof -
  have "scan_word (inp s) = ([], [])"
    using s(3) by (simp add: scan_word_def dropWhile_eq_Nil_conv [THEN iffD2] Let_def)
  then have sc: "scan_two (inp s) (cmd_buf s) (cbuf s) = Some ([], cmd_buf s, cbuf s)" by (simp add: scan_two_def)
  have cmd: "terminated (cmd_buf s)" "cstring (cmd_buf s) = lit ''search''" "length (cmd_buf s) = 100" "terminated (cbuf s)"
    using s(1,2) by (simp_all add: cli_search_def cli_ok_def)
  have len: "StrGetLength (Some (cbuf s)) MAX_SIZE = Some (length w)" "length w < 100"
    using s(4) w cmd(4) by (simp_all add: StrGetLength_cstring MAX_SIZE_def)
  have "take (length w) (cbuf s) = w" using w s(4) take_cstring [of "cbuf s"] by simp
  then have buf: "cbuf s = w @ drop (length w) (cbuf s)" using append_take_drop_id [of "length w" "cbuf s"] by simp
  then have sc': "scan_two (inp s) (cmd_buf s) (cbuf s) = Some ([], cmd_buf s, w @ drop (length w) (cbuf s))" using sc by simp
  have "StrGetLength (Some (w @ drop (length w) (cbuf s))) MAX_SIZE = Some (length w)" using len(1) buf by simp
  moreover have "length (w @ drop (length w) (cbuf s)) = BUFSIZE" using s(1) buf by (simp add: cli_ok_def)
  ultimately show ?thesis
    using cli_round_search [where idx = idx and name = name and dials = dials, OF s(1) sc' cmd(1-3)] len(2) a f n by blast
qed

lemma cli_rounds_stale:
  assumes "cli_ok s" "cli_search s" "\<forall>c\<in>set (inp s). isspace c" "cstring (cbuf s) = left_over name idx w"
    and n: "\<forall>d. 0 \<notin> set (name d)"
    and "\<forall>i<n. answered name idx (stale_word name idx w (Suc i)) (dials (made s + i)) \<and> fits name idx (stale_word name idx w (Suc i)) BUFSIZE"
  shows "\<exists>s' cs. cli_rounds n dials s = Some (Inl s') \<and> finished s' = finished s @ cs \<and> length cs = n \<and>
    printed s' = printed s @ concat (map (\<lambda>i. prompt @ shown name idx (stale_word name idx w (Suc i))) [0..<n]) \<and>
    (\<forall>i<n. closed (cs ! i) \<and> sent (cs ! i) = sent (sk_conn (dials (made s + i))) @ wire_packet REQUEST (stale_word name idx w (Suc i)))"
  using assms
proof (induction n arbitrary: s w)
  case 0
  then show ?case by simp
next
  case (Suc n)
  let ?v = "stale_word name idx w 1"
  have v: "?v = (if length (left_over name idx w) < MAX_SIZE then left_over name idx w else [])" by (simp add: Let_def)
  have a: "answered name idx ?v (dials (made s))" "fits name idx ?v BUFSIZE" using Suc.prems(6) by auto
  obtain s1 c1 where r: "cli_round dials s = Some (Inl s1)" "cli_ok s1" "cli_search s1" "inp s1 = []"
      "cstring (cbuf s1) = left_over name idx ?v" "made s1 = Suc (made s)" "printed s1 = printed s @ prompt @ shown name idx ?v"
      "finished s1 = finished s @ [c1]" "sent c1 = sent (sk_conn (dials (made s))) @ wire_packet REQUEST ?v" "closed c1"
    using cli_round_stale [where idx = idx and name = name and dials = dials, OF Suc.prems(1-4) v] n a by blast
  have sw: "stale_word name idx ?v i = stale_word name idx w (Suc i)" for i by (rule stale_word_Suc)
  have "\<forall>c\<in>set (inp s1). isspace c" using r(4) by simp
  moreover have "\<forall>i<n. answered name idx (stale_word name idx ?v (Suc i)) (dials (made s1 + i)) \<and>
      fits name idx (stale_word name idx ?v (Suc i)) BUFSIZE"
    unfolding sw r(6) using Suc.prems(6) by auto
  ultimately obtain s' cs where i: "cli_rounds n dials s1 = Some (Inl s')" "finished s' = finished s1 @ cs" "length cs = n"
      "printed s' = printed s1 @ concat (map (\<lambda>i. prompt @ shown name idx (stale_word name idx w (Suc (Suc i)))) [0..<n])"
      "\<forall>i<n. closed (cs ! i) \<and> sent (cs ! i) = sent (sk_conn (dials (made s1 + i))) @ wire_packet REQUEST (stale_word name idx w (Suc (Suc i)))"
    using Suc.IH [OF r(2,3) _ r(5) n] unfolding sw by blast
  have "closed ((c1 # cs) ! j) \<and> sent ((c1 # cs) ! j) = sent (sk_conn (dials (made s + j))) @ wire_packet REQUEST (stale_word name idx w (Suc j))"
    if "j < Suc n" for j
    using that i(5) r(6,9,10) by (cases j) auto
  moreover have "[0..<Suc n] = 0 # map Suc [0..<n]" by (simp add: map_Suc_upt upt_conv_Cons del: upt_Suc)
  then have "printed s' = printed s @ concat (map (\<lambda>i. prompt @ shown name idx (stale_word name idx w (Suc i))) [0..<Suc n])"
    using i(4) r(7) by (simp add: comp_def del: stale_word.simps upt_Suc)
  ultimately show ?case using i(1-3) r(1,8) by (intro exI [of _ s'] exI [of _ "c1 # cs"]) simp
qed


subsection \<open>Properties\<close>

text \<open>C15. \<open>client1\<close> asks as often as it is told: with a word of less than 100 bytes and a server whose answers fit its buffer of
  \<open>BUFSIZE + 1\<close> bytes, the thread sends exactly one request packet for the word on every connection, closes each, reports
  a word the server does not know once for every request, and frees its header.\<close>

theorem client1_requests:
  assumes A: "alloc_ok A" and w: "terminated word" "length (cstring word) < 100"
    and d: "\<forall>i<nat n. answered name idx (cstring word) (dials i)"
    and f: "fits name idx (cstring word) (BUFSIZE + 1)"
  shows "\<exists>cs h'. request_server1 A h True word n dials =
      Some (Returned (True, cs, concat (replicate (nat n) (if idx (cstring word) = None then no_such_word else [])), h')) \<and>
    length cs = nat n \<and>
    (\<forall>i<nat n. sent (cs ! i) = sent (sk_conn (dials i)) @ wire_packet REQUEST (cstring word) \<and> closed (cs ! i))"
proof -
  let ?ds = "map dials [0..<nat n]" and ?buf = "replicate (BUFSIZE + 1) (0 :: byte)"
  obtain buf' cs where r: "request_loop1 (Some (request_hdr (length (cstring word)))) word (length (cstring word)) ?buf ?ds =
      Some (True, buf', cs, concat (replicate (nat n) (if idx (cstring word) = None then no_such_word else [])))"
      "list_all2 (\<lambda>d c. sent c = sent (sk_conn d) @ wire_packet REQUEST (cstring word) \<and> closed c) ?ds cs"
    using request_loop1_ok [of ?ds name idx word ?buf] d f by (auto simp: BUFSIZE_def HDR_LEN_def)
  have "length cs = nat n" using list_all2_lengthD [OF r(2)] by simp
  moreover have "sent (cs ! i) = sent (sk_conn (dials i)) @ wire_packet REQUEST (cstring word) \<and> closed (cs ! i)" if "i < nat n" for i
    using list_all2_nthD [OF r(2), of i] that by simp
  moreover have "request_server1 A h True word n dials =
      Some (Returned (True, cs, concat (replicate (nat n) (if idx (cstring word) = None then no_such_word else [])), h\<lparr>calls := calls h + 1\<rparr>))"
    using w r(1) by (simp add: request_server1_def StrGetLength_cstring create_pckt_ok [OF A] del: replicate_Suc)
  ultimately show ?thesis by blast
qed

text \<open>C14. \<open>client2\<close>, a session: for every line \<open>search w\<close> of its input, with a server that knows the index \<open>idx\<close> and answers that fit
  the buffer, it sends one request packet for \<open>w\<close> on a connection of its own, closes it, and prints a prompt and then the lines of the
  index for \<open>w\<close>, or the message that there is no such word; in the order of the input.\<close>

theorem cli_session:
  assumes "\<forall>w\<in>set ws. typed_word w \<and> fits name idx w BUFSIZE" and "\<forall>d. 0 \<notin> set (name d)"
    and "\<forall>i<length ws. answered name idx (ws ! i) (dials i)"
  shows "\<exists>pk s'. new_packet A = Some pk \<and>
    cli_rounds (length ws) dials (cli_start (concat (map command ws)) pk) = Some (Inl s') \<and>
    printed s' = lit ''*** Starting CLI:'' @ [10] @ concat (map (\<lambda>w. prompt @ shown name idx w) ws) \<and>
    length (finished s') = length ws \<and>
    (\<forall>i<length ws. sent (finished s' ! i) = sent (sk_conn (dials i)) @ wire_packet REQUEST (ws ! i) \<and> closed (finished s' ! i))"
proof -
  let ?s = "\<lambda>pk. cli_start (concat (map command ws)) pk"
  obtain pk where pk: "new_packet A = Some pk" "cli_ok (?s pk)" using new_packet_ok by blast
  have i: "inp (?s pk) = [] @ concat (map command ws)" "\<forall>c\<in>set []. isspace c" "\<forall>i<length ws. answered name idx (ws ! i) (dials (made (?s pk) + i))"
    using assms(3) by (simp_all add: cli_start_def)
  obtain s' where "cli_rounds (length ws) dials (?s pk) = Some (Inl s')"
      "printed s' = printed (?s pk) @ concat (map (\<lambda>w. prompt @ shown name idx w) ws)"
      "\<exists>cs. finished s' = finished (?s pk) @ cs \<and> length cs = length ws \<and> (\<forall>i<length ws. closed (cs ! i) \<and>
        sent (cs ! i) = sent (sk_conn (dials (made (?s pk) + i))) @ wire_packet REQUEST (ws ! i))"
    using cli_rounds_commands [OF pk(2) i(1,2) assms(1,2) i(3)] by blast
  then show ?thesis using pk(1) by (auto simp: cli_start_def)
qed

text \<open>C28. The buffers of the clients and the answers of the server: \<open>thread_job\<close> sends up to \<open>DYN_SIZE\<close> bytes of text, and \<open>BUFSIZE\<close> is the same
  number; \<open>client1\<close> takes a text of that length, \<open>client2\<close>, whose buffer is one byte shorter, stores the terminator past its end.
  Longer answers overrun both.\<close>

theorem client_buffers:
  assumes "answered name idx (cstring word) d" and ps: "idx (cstring word) = Some ps" and small: "length (response_text name ps) < 2 ^ 31"
    and b: "length buf1 = BUFSIZE + 1" "length buf2 = BUFSIZE"
    and pk: "take k pk = wire_packet REQUEST (cstring word)" "k \<le> length pk" and n: "\<forall>d. 0 \<notin> set (name d)"
  shows "(exchange1 (Some (request_hdr (length (cstring word)))) word (length (cstring word)) buf1 (sk_conn d) \<noteq> None \<longleftrightarrow>
      length (response_text name ps) \<le> DYN_SIZE) \<and>
    (exchange2 pk k buf2 (sk_conn d) \<noteq> None \<longleftrightarrow> length (response_text name ps) < DYN_SIZE)"
proof -
  let ?w = "response_text name ps"
  have D: "DYN_SIZE = BUFSIZE" "HDR_LEN \<le> length buf1" "HDR_LEN \<le> length buf2" "length buf1 < 2 ^ 31"
    using b by (simp_all add: DYN_SIZE_def BUFSIZE_def HDR_LEN_def)
  obtain rest where rx: "delivers (rx (sk_conn d)) (wire_packet RESPONSE ?w @ rest)"
    using assms(1) ps by (auto simp: answered_def reply_def)
  have no: "recv_response buf (rx (sk_conn d)) = None" if "HDR_LEN \<le> length buf" "length buf \<le> length ?w" for buf
    using recv_response_overflows [OF rx that small] .
  have "exchange1 (Some (request_hdr (length (cstring word)))) word (length (cstring word)) buf1 (sk_conn d) = None"
    if "BUFSIZE < length ?w"
    using no [OF D(2)] that b(1) unfolding exchange1_def by (simp add: bind_eq_None_conv split_beta del: One_nat_def)
  moreover have "exchange1 (Some (request_hdr (length (cstring word)))) word (length (cstring word)) buf1 (sk_conn d) \<noteq> None"
    if "length ?w \<le> BUFSIZE"
    using exchange1_ok [OF assms(1) D(2,4)] that ps b(1) by (auto simp: fits_def)
  moreover have "exchange2 pk k buf2 (sk_conn d) = None" if "BUFSIZE \<le> length ?w"
    using no [OF D(3)] that b(2) unfolding exchange2_def by (simp add: bind_eq_None_conv split_beta)
  moreover have "exchange2 pk k buf2 (sk_conn d) \<noteq> None" if "length ?w < BUFSIZE"
    using exchange2_ok [OF assms(1) b(2) _ n pk] that ps by (auto simp: fits_def)
  ultimately show ?thesis unfolding D(1) by (metis not_le)
qed

text \<open>C27. \<open>client2\<close> ends its thread only in a round in which \<open>socket\<close> or \<open>connect\<close> failed, whatever is typed. In particular
  there is no way to leave the command line: on an input that holds no command, only white space or nothing, it prints prompts without end
  and never makes a connection.\<close>

theorem client2_never_ends:
  assumes "\<forall>c\<in>set input. isspace c"
  shows "(\<forall>inp s. request_server2 A h True inp dials = Some (Some s) \<longrightarrow>
      (\<exists>i. made s = Suc i \<and> (sk_fd (dials i) < 0 \<or> sk_connect (dials i) < 0))) \<and>
    request_server2 A h True input dials = None \<and>
    (\<forall>n. \<exists>pk s'. new_packet A = Some pk \<and> cli_rounds n dials (cli_start input pk) = Some (Inl s') \<and> made s' = 0 \<and>
      printed s' = lit ''*** Starting CLI:'' @ [10] @ concat (replicate n prompt))"
proof -
  obtain pk where pk: "new_packet A = Some pk" using new_packet_ok by blast
  have "cstring (replicate 100 0) = []" "terminated (replicate 100 0)" by (simp_all add: cstring_def terminated_def)
  then have idle: "cli_idle (cli_start input pk)" using assms by (simp add: cli_idle_def cli_start_def lit_def)
  have "cli_loop dials (cli_start input pk) = None" using cli_loop_idle idle by (metis not_None_eq)
  then have "request_server2 A h True input dials = None" using pk by (simp add: request_server2_def)
  moreover have "\<exists>i. made s = Suc i \<and> (sk_fd (dials i) < 0 \<or> sk_connect (dials i) < 0)"
    if "request_server2 A h True inp dials = Some (Some s)" for inp s
    using that cli_loop_returns by (auto simp: request_server2_def pk bind_eq_Some_conv split: if_splits)
  moreover have "\<exists>pk s'. new_packet A = Some pk \<and> cli_rounds n dials (cli_start input pk) = Some (Inl s') \<and> made s' = 0 \<and>
      printed s' = lit ''*** Starting CLI:'' @ [10] @ concat (replicate n prompt)" for n
    using cli_rounds_idle [OF idle, of n dials] pk by (auto simp: cli_start_def)
  ultimately show ?thesis by blast
qed

theorem client2_never_ends_witness:
  "request_server2 sample_alloc sample_chain True [10] (\<lambda>_. undefined) = None"
  using client2_never_ends [of "[10]" sample_alloc sample_chain "\<lambda>_. undefined"] by (simp add: isspace_def)

text \<open>C31. \<open>client2\<close> at the end of its input after a search. Against a server that answers, it does not stop when \<open>search w\<close> was the last line: in every
  further round it opens a connection and sends a request, without end. The word it asks for is then the text that the reply before has
  left in the buffer, or the empty word if that is \<open>MAX_SIZE\<close> bytes or longer, or after an error reply; and it prints each answer.\<close>

theorem client2_repeats_requests:
  assumes w: "typed_word w" and n: "\<forall>d. 0 \<notin> set (name d)"
    and a: "\<forall>i. answered name idx (stale_word name idx w i) (dials i)" and f: "\<forall>i. fits name idx (stale_word name idx w i) BUFSIZE"
  shows "request_server2 A h True (command w) dials = None \<and>
    (\<exists>pk. new_packet A = Some pk \<and> (\<forall>n. \<exists>s'. cli_rounds (Suc n) dials (cli_start (command w) pk) = Some (Inl s') \<and>
      length (finished s') = Suc n \<and>
      (\<forall>i\<le>n. sent (finished s' ! i) = sent (sk_conn (dials i)) @ wire_packet REQUEST (stale_word name idx w i) \<and> closed (finished s' ! i)) \<and>
      printed s' = lit ''*** Starting CLI:'' @ [10] @
        concat (map (\<lambda>i. prompt @ shown name idx (stale_word name idx w i)) [0..<Suc n])))"
proof (intro conjI)
  have "\<not> sk_fd (dials i) < 0" "\<not> sk_connect (dials i) < 0" for i
    using spec [OF a, of i] by (simp_all add: answered_def)
  then have "cli_loop dials (cli_start (command w) pk) = None" for pk using cli_loop_returns by (metis not_None_eq)
  then show "request_server2 A h True (command w) dials = None" by (simp add: request_server2_def bind_eq_None_conv)
next
  obtain pk where pk: "new_packet A = Some pk" "cli_ok (cli_start (command w) pk)" using new_packet_ok by blast
  let ?s = "cli_start (command w) pk"
  have st: "made ?s = 0" "finished ?s = []" "printed ?s = lit ''*** Starting CLI:'' @ [10]" "inp ?s = [] @ command w @ []"
    by (simp_all add: cli_start_def)
  have a0: "answered name idx w (dials (made ?s))" "fits name idx w BUFSIZE" "\<forall>c\<in>set []. isspace c"
    using spec [OF a, of 0] spec [OF f, of 0] st(1) by simp_all
  obtain s1 c1 where r: "cli_round dials ?s = Some (Inl s1)" "cli_ok s1" "inp s1 = [10]" "made s1 = 1"
      "printed s1 = printed ?s @ prompt @ shown name idx w" "finished s1 = [c1]"
      "sent c1 = sent (sk_conn (dials 0)) @ wire_packet REQUEST w" "closed c1" "cli_search s1" "cstring (cbuf s1) = left_over name idx w"
    using cli_round_command [where idx = idx and name = name and dials = dials, OF pk(2) st(4) a0(3) w] a0(1,2) n st(1,2) by auto
  have "\<forall>c\<in>set (inp s1). isspace c" using r(3) by (simp add: isspace_def)
  note more = cli_rounds_stale [OF r(2,9) this r(10) n, of _ dials, unfolded r(4)]
  have "\<exists>s'. cli_rounds (Suc k) dials ?s = Some (Inl s') \<and> length (finished s') = Suc k \<and>
      (\<forall>i\<le>k. sent (finished s' ! i) = sent (sk_conn (dials i)) @ wire_packet REQUEST (stale_word name idx w i) \<and> closed (finished s' ! i)) \<and>
      printed s' = lit ''*** Starting CLI:'' @ [10] @ concat (map (\<lambda>i. prompt @ shown name idx (stale_word name idx w i)) [0..<Suc k])" for k
  proof -
    have "\<forall>i<k. answered name idx (stale_word name idx w (Suc i)) (dials (1 + i)) \<and> fits name idx (stale_word name idx w (Suc i)) BUFSIZE"
      using a f by (simp del: stale_word.simps)
    from more [OF this] obtain s' cs where m: "cli_rounds k dials s1 = Some (Inl s')" "finished s' = finished s1 @ cs" "length cs = k"
        "printed s' = printed s1 @ concat (map (\<lambda>i. prompt @ shown name idx (stale_word name idx w (Suc i))) [0..<k])"
        "\<forall>i<k. closed (cs ! i) \<and> sent (cs ! i) = sent (sk_conn (dials (1 + i))) @ wire_packet REQUEST (stale_word name idx w (Suc i))"
      by (elim exE conjE) (rule that)
    have "sent ((c1 # cs) ! i) = sent (sk_conn (dials i)) @ wire_packet REQUEST (stale_word name idx w i) \<and> closed ((c1 # cs) ! i)"
      if "i \<le> k" for i
      using that m(5) r(7,8) by (cases i) (auto simp del: stale_word.simps(2))
    moreover have "[0..<Suc k] = 0 # map Suc [0..<k]" by (simp add: map_Suc_upt upt_conv_Cons del: upt_Suc)
    then have "printed s' = lit ''*** Starting CLI:'' @ [10] @ concat (map (\<lambda>i. prompt @ shown name idx (stale_word name idx w i)) [0..<Suc k])"
      using m(4) r(5) st(3) by (simp add: comp_def del: stale_word.simps(2) upt_Suc)
    moreover have "cli_rounds (Suc k) dials ?s = Some (Inl s')" "finished s' = c1 # cs" using r(1,6) m(1,2) by simp_all
    ultimately show ?thesis using m(3) by (intro exI [of _ s']) simp
  qed
  then show "\<exists>pk. new_packet A = Some pk \<and> (\<forall>n. \<exists>s'. cli_rounds (Suc n) dials (cli_start (command w) pk) = Some (Inl s') \<and>
      length (finished s') = Suc n \<and>
      (\<forall>i\<le>n. sent (finished s' ! i) = sent (sk_conn (dials i)) @ wire_packet REQUEST (stale_word name idx w i) \<and> closed (finished s' ! i)) \<and>
      printed s' = lit ''*** Starting CLI:'' @ [10] @
        concat (map (\<lambda>i. prompt @ shown name idx (stale_word name idx w i)) [0..<Suc n]))"
    using pk(1) by blast
qed


lemma wire_packet_nonempty: "wire_packet t s \<noteq> []"
  using length_hdr_bytes by (auto simp: wire_packet_def HDR_LEN_def dest: arg_cong [where f = length])

definition sample_dial :: "bytes \<Rightarrow> dial" where
  "sample_dial s = \<lparr>sk_fd = 3, sk_connect = 0, sk_conn = \<lparr>rx = [Data s], tx = [Accept 3], sent = [], closed = False\<rparr>\<rparr>"

lemma sample_answered: "answered name idx t (sample_dial (reply name idx t))"
proof -
  have "reply name idx t \<noteq> []" using wire_packet_nonempty by (simp add: reply_def split: option.split)
  then show ?thesis unfolding answered_def sample_dial_def by (intro conjI exI [of _ "[]"]) (simp_all add: delivers_def)
qed

lemma sample_fits: "fits (\<lambda>_. [97]) one_word_index [100] n" if "50 < n"
  using that by (simp add: fits_def one_word_index_def one_word_text lit_def)

theorem client1_requests_witness:
  "\<exists>cs h'. request_server1 sample_alloc sample_chain True [100, 0] 2 (\<lambda>_. sample_dial (reply (\<lambda>_. [97]) one_word_index [100])) =
    Some (Returned (True, cs, [], h')) \<and> length cs = 2 \<and> sent (cs ! 1) = wire_packet REQUEST [100]"
proof -
  have "cstring [100, 0] = [100]" "terminated [100, 0]" by (simp_all add: cstring_def terminated_def)
  then show ?thesis
    using client1_requests [of sample_alloc "[100, 0]" 2 "\<lambda>_. [97]" one_word_index "\<lambda>_. sample_dial (reply (\<lambda>_. [97]) one_word_index [100])" sample_chain]
      sample_alloc_ok sample_answered [of "\<lambda>_. [97]" one_word_index "[100]"] sample_fits [of "BUFSIZE + 1"]
    by (auto simp: BUFSIZE_def sample_dial_def one_word_index_def numeral_2_eq_2)
qed

lemma sample_word: "typed_word [100]" "typed_word [101]"
  by (simp_all add: typed_word_def isspace_def)

theorem cli_session_witness:
  "\<exists>pk s'. new_packet sample_alloc = Some pk \<and>
    cli_rounds 2 (\<lambda>i. sample_dial (reply (\<lambda>_. [97]) one_word_index ([[100], [101]] ! i)))
      (cli_start (lit ''search d'' @ [10] @ lit ''search e'' @ [10]) pk) = Some (Inl s') \<and>
    printed s' = lit ''*** Starting CLI:'' @ [10] @ prompt @ lit ''a: line #5'' @ [10] @ lit ''a: line #12'' @ [10] @
      prompt @ no_such_word"
proof -
  have i: "concat (map command [[100], [101]]) = lit ''search d'' @ [10] @ lit ''search e'' @ [10]" by (simp add: command_def lit_def)
  have f: "fits (\<lambda>_. [97]) one_word_index [101] BUFSIZE" by (simp add: fits_def one_word_index_def)
  have sh: "shown (\<lambda>_. [97]) one_word_index [100] = lit ''a: line #5'' @ [10] @ lit ''a: line #12'' @ [10]"
      "shown (\<lambda>_. [97]) one_word_index [101] = no_such_word"
    by (simp_all add: shown_def one_word_index_def one_word_text)
  let ?ws = "[[100], [101]] :: bytes list" and ?dials = "\<lambda>i. sample_dial (reply (\<lambda>_. [97]) one_word_index ([[100], [101]] ! i))"
  have "\<forall>w\<in>set ?ws. typed_word w \<and> fits (\<lambda>_. [97]) one_word_index w BUFSIZE"
    using sample_word sample_fits [of BUFSIZE] f by (simp add: BUFSIZE_def)
  moreover have "\<forall>d. 0 \<notin> set ((\<lambda>_. [97 :: byte]) d)" by simp
  moreover have "\<forall>i<length ?ws. answered (\<lambda>_. [97]) one_word_index (?ws ! i) (?dials i)" using sample_answered by blast
  ultimately obtain pk s' where r: "new_packet sample_alloc = Some pk"
      "cli_rounds (length ?ws) ?dials (cli_start (concat (map command ?ws)) pk) = Some (Inl s')"
      "printed s' = lit ''*** Starting CLI:'' @ [10] @ concat (map (\<lambda>w. prompt @ shown (\<lambda>_. [97]) one_word_index w) ?ws)"
    using cli_session [of ?ws "\<lambda>_. [97]" one_word_index ?dials sample_alloc] by blast
  moreover have n: "length ?ws = 2" by simp
  ultimately show ?thesis unfolding n i by (intro exI [of _ pk] exI [of _ s']) (simp add: sh)
qed

theorem client_buffers_witness:
  "exchange2 (wire_packet REQUEST [100]) 9 (replicate BUFSIZE 0) (sk_conn (sample_dial (reply (\<lambda>_. [97]) one_word_index [100]))) \<noteq> None"
proof -
  have "cstring [100, 0] = [100]" "length (wire_packet REQUEST [100]) = 9" by (simp_all add: cstring_def wire_packet_def HDR_LEN_def)
  then show ?thesis
    using client_buffers [of "\<lambda>_. [97]" one_word_index "[100, 0]" "sample_dial (reply (\<lambda>_. [97]) one_word_index [100])" "[(0, [5, 12])]"
        "replicate (BUFSIZE + 1) 0" "replicate BUFSIZE 0" 9 "wire_packet REQUEST [100]"] sample_answered
    by (simp add: one_word_index_def one_word_text lit_def DYN_SIZE_def)
qed


text \<open>The server of the example knows the word \<open>d\<close> only.\<close>

theorem client2_repeats_requests_witness:
  "\<exists>pk s'. new_packet sample_alloc = Some pk \<and>
    cli_rounds 3 (\<lambda>i. sample_dial (reply (\<lambda>_. [97]) one_word_index (stale_word (\<lambda>_. [97]) one_word_index [100] i)))
      (cli_start (lit ''search d'' @ [10]) pk) = Some (Inl s') \<and> length (finished s') = 3 \<and>
    sent (finished s' ! 1) = wire_packet REQUEST (lit ''a: line #5'' @ [10] @ lit ''a: line #12'' @ [10]) \<and>
    sent (finished s' ! 2) = wire_packet REQUEST []"
proof -
  let ?n = "\<lambda>_. [97 :: byte]" and ?txt = "lit ''a: line #5'' @ [10] @ lit ''a: line #12'' @ [10]"
  let ?w = "stale_word ?n one_word_index [100]"
  let ?dials = "\<lambda>i. sample_dial (reply ?n one_word_index (?w i))"
  have left: "left_over ?n one_word_index [100] = ?txt" by (simp add: left_over_def one_word_index_def one_word_text)
  have l: "length ?txt < MAX_SIZE" by (simp add: lit_def MAX_SIZE_def)
  have s1: "?w 1 = ?txt" using left l by (simp add: Let_def)
  have "one_word_index ?txt = None" by (simp add: one_word_index_def lit_def)
  then have s2: "?w (Suc 1) = []" using s1 by (simp add: left_over_def Let_def)
  have c: "command [100] = lit ''search d'' @ [10]" by (simp add: command_def lit_def)
  have "fits ?n one_word_index (?w i) BUFSIZE" for i
    by (auto simp: fits_def one_word_index_def one_word_text lit_def BUFSIZE_def split: if_splits)
  then have f: "\<forall>i. fits ?n one_word_index (?w i) BUFSIZE" by blast
  have n: "\<forall>d. 0 \<notin> set (?n d)" by simp
  have a: "\<forall>i. answered ?n one_word_index (?w i) (?dials i)" using sample_answered by blast
  obtain pk where pk: "new_packet sample_alloc = Some pk" "\<forall>n. \<exists>s'. cli_rounds (Suc n) ?dials (cli_start (command [100]) pk) = Some (Inl s') \<and>
      length (finished s') = Suc n \<and>
      (\<forall>i\<le>n. sent (finished s' ! i) = sent (sk_conn (?dials i)) @ wire_packet REQUEST (?w i) \<and> closed (finished s' ! i)) \<and>
      printed s' = lit ''*** Starting CLI:'' @ [10] @ concat (map (\<lambda>i. prompt @ shown ?n one_word_index (?w i)) [0..<Suc n])"
    using client2_repeats_requests [OF sample_word(1) n a f, of sample_alloc sample_chain] by (elim conjE exE) (rule that)
  obtain s' where r: "cli_rounds (Suc 2) ?dials (cli_start (command [100]) pk) = Some (Inl s')" "length (finished s') = Suc 2"
      "\<forall>i\<le>2. sent (finished s' ! i) = sent (sk_conn (?dials i)) @ wire_packet REQUEST (?w i) \<and> closed (finished s' ! i)"
    using spec [OF pk(2), of 2] by (elim conjE exE) (rule that)
  have "sent (sk_conn (?dials i)) = []" for i by (simp add: sample_dial_def)
  then have "sent (finished s' ! 1) = wire_packet REQUEST (?w 1)" "sent (finished s' ! 2) = wire_packet REQUEST (?w (Suc 1))"
    using spec [OF r(3), of 1] spec [OF r(3), of 2] by (simp_all del: stale_word.simps add: numeral_2_eq_2)
  moreover have "Suc 2 = (3 :: nat)" by simp
  ultimately show ?thesis using pk(1) r(1,2) unfolding c s1 s2 by (intro exI [of _ pk] exI [of _ s'] conjI) (simp_all only:)
qed

end
