(* ===== verification/Size_Class.thy ===== *)
theory Size_Class
  imports C_Prelude
begin

section \<open>Size classes of the allocator (tc_malloc.h)\<close>

text \<open>
  The allocator of the server serves a small request from one of 159 classes of objects of
  equal size. \<open>get_index\<close> maps a size to its class, \<open>index_to_size\<close> a class to the size of its objects.
  The lemmas show that the class of a size is the smallest that is large enough, that the
  two functions are inverse to each other on the classes, how much a class wastes, and what happens
  for the size 0, for which the code computes with wrapped values.
\<close>

subsection \<open>Constants\<close>

definition CLASSES :: nat where "CLASSES = 159"
definition THRESHALLOC :: nat where "THRESHALLOC = 32 * 1024"

text \<open>A \<open>size_t\<close> stored in an \<open>int\<close>, and an \<open>int\<close> used as a \<open>size_t\<close>.\<close>

definition to_int :: "nat \<Rightarrow> int" where
  "to_int n = sint (of_nat n :: 32 word)"

definition int_to_size :: "int \<Rightarrow> nat" where
  "int_to_size i = nat (i mod 2 ^ 64)"

lemma to_int_small: "n < 2 ^ 31 \<Longrightarrow> to_int n = int n"
  by (simp add: to_int_def signed_of_nat signed_take_bit_int_eq_self)

lemma int_to_size_small: "0 \<le> i \<Longrightarrow> i < 2 ^ 64 \<Longrightarrow> int_to_size i = nat i"
  by (simp add: int_to_size_def)

subsection \<open>The two functions\<close>

text \<open>The local \<open>class\<close> is an \<open>int\<close>; the indices the program passes are far from its limits.\<close>

definition index_to_size :: "int \<Rightarrow> int" where
  "index_to_size index =
     (let class = index + 1
      in if index \<le> 7 then class * 8
         else if index \<le> 38 then (class - 8) * 64 + 64
         else if index \<le> 158 then (class - 39) * 256 + 2048
         else class)"

text \<open>The differences and quotients are those of \<open>size_t\<close>; the result is converted to \<open>int\<close>.\<close>

definition get_index :: "nat \<Rightarrow> int" where
  "get_index sz =
     (if sz \<le> 64 then to_int (size_sub sz 1 div 8)
      else if sz \<le> 2048 then to_int (size_sub sz 65 div 64 + 8)
      else if sz \<le> 32 * 1024 then to_int (size_sub sz 2049 div 256 + 8 + 31)
      else -1)"

subsection \<open>The classes in closed form\<close>

text \<open>The same two functions on natural numbers, for the sizes and classes that are in use.\<close>

definition class_of :: "nat \<Rightarrow> nat" where
  "class_of s = (if s \<le> 64 then (s - 1) div 8
     else if s \<le> 2048 then (s - 65) div 64 + 8 else (s - 2049) div 256 + 39)"

definition class_size :: "nat \<Rightarrow> nat" where
  "class_size k = (if k \<le> 7 then 8 * (k + 1)
     else if k \<le> 38 then 64 * (k - 7) + 64 else 256 * (k - 38) + 2048)"

lemma get_index_class_of:
  assumes "0 < s" and "s \<le> THRESHALLOC"
  shows "get_index s = int (class_of s)"
  using assms by (simp add: get_index_def class_of_def THRESHALLOC_def size_sub_le to_int_small)

lemma index_to_size_class_size:
  assumes "k < CLASSES"
  shows "index_to_size (int k) = int (class_size k)"
  using assms by (auto simp: index_to_size_def class_size_def CLASSES_def Let_def)

lemma class_size_bounds: "k < CLASSES \<Longrightarrow> 8 \<le> class_size k \<and> class_size k \<le> THRESHALLOC"
  by (auto simp: class_size_def CLASSES_def THRESHALLOC_def)

lemma class_size_mono: "j < k \<Longrightarrow> class_size j < class_size k"
  by (auto simp: class_size_def)

lemma class_size_dvd: "8 dvd class_size k"
  by (auto simp: class_size_def)

lemma index_to_size_nat:
  "k < CLASSES \<Longrightarrow> int_to_size (index_to_size (int k)) = class_size k"
  using class_size_bounds [of k]
  by (simp add: index_to_size_class_size int_to_size_small THRESHALLOC_def)

lemma div_bounds: "0 < d \<Longrightarrow> d * (n div d) \<le> n \<and> n < d * (n div d) + (d :: nat)"
  by (metis dividend_less_div_times add.commute mult.commute div_times_less_eq_dividend)

lemma class_of_fits:
  assumes "0 < s" and "s \<le> THRESHALLOC"
  shows "class_of s < CLASSES \<and> s \<le> class_size (class_of s) \<and>
    class_size (class_of s) < s + (if s \<le> 64 then 8 else if s \<le> 2048 then 64 else 256)"
proof -
  consider "s \<le> 64" | "64 < s" "s \<le> 2048" | "2048 < s" by linarith
  then show ?thesis
  proof cases
    case 1
    obtain q where q: "(s - 1) div 8 = q" "8 * q \<le> s - 1" "s - 1 < 8 * q + 8"
      using div_bounds [of 8 "s - 1"] by auto
    then have "class_of s = q" "q \<le> 7" using 1 by (simp_all add: class_of_def)
    moreover have "s \<le> 8 * q + 8" "8 * q < s" using q(2,3) assms(1) by linarith+
    ultimately show ?thesis using 1 by (simp add: class_size_def CLASSES_def)
  next
    case 2
    obtain q where q: "(s - 65) div 64 = q" "64 * q \<le> s - 65" "s - 65 < 64 * q + 64"
      using div_bounds [of 64 "s - 65"] by auto
    then have "class_of s = q + 8" "q \<le> 30" using 2 by (simp_all add: class_of_def)
    moreover have "s \<le> 64 * q + 128" "64 * q + 64 < s" using q(2,3) 2 by linarith+
    ultimately show ?thesis using 2 by (simp add: class_size_def CLASSES_def)
  next
    case 3
    obtain q where q: "(s - 2049) div 256 = q" "256 * q \<le> s - 2049" "s - 2049 < 256 * q + 256"
      using div_bounds [of 256 "s - 2049"] by auto
    then have "class_of s = q + 39" "q < 120" using 3 assms(2) by (simp_all add: class_of_def THRESHALLOC_def)
    moreover have "s \<le> 256 * q + 2304" "256 * q + 2048 < s" using q(2,3) 3 by linarith+
    ultimately show ?thesis using 3 by (simp add: class_size_def CLASSES_def)
  qed
qed

lemma smaller_class_too_small:
  assumes "0 < s" and "s \<le> THRESHALLOC" and "j < class_of s"
  shows "class_size j < s"
proof -
  have "class_size j \<le> class_size (class_of s - 1)"
    using assms(3) class_size_mono [of j "class_of s - 1"]
    by (cases "j = class_of s - 1") (auto intro: less_imp_le)
  also have "class_size (class_of s - 1) < s"
  proof -
    consider "s \<le> 64" | "64 < s" "s \<le> 2048" | "2048 < s" by linarith
    then show ?thesis
    proof cases
      case 1
      obtain q where q: "(s - 1) div 8 = q" "8 * q \<le> s - 1" "s - 1 < 8 * q + 8"
        using div_bounds [of 8 "s - 1"] by auto
      then have "class_of s = q" "q \<le> 7" "8 * q < s" using 1 assms(1) by (simp_all add: class_of_def)
      then show ?thesis using assms(3) by (cases q) (simp_all add: class_size_def)
    next
      case 2
      obtain q where q: "(s - 65) div 64 = q" "64 * q \<le> s - 65" "s - 65 < 64 * q + 64"
        using div_bounds [of 64 "s - 65"] by auto
      have "class_of s = q + 8" using 2 q(1) by (simp add: class_of_def)
      moreover have "q \<le> 30" "64 * q + 64 < s" using 2 q(2,3) by linarith+
      ultimately show ?thesis using 2 by (cases q) (simp_all add: class_size_def)
    next
      case 3
      obtain q where q: "(s - 2049) div 256 = q" "256 * q \<le> s - 2049" "s - 2049 < 256 * q + 256"
        using div_bounds [of 256 "s - 2049"] by auto
      have "class_of s = q + 39" using 3 q(1) by (simp add: class_of_def)
      moreover have "256 * q + 2048 < s" using 3 q(2,3) by linarith
      ultimately show ?thesis using 3 by (cases q) (simp_all add: class_size_def)
    qed
  qed
  finally show ?thesis .
qed

lemma class_of_class_size:
  assumes "k < CLASSES"
  shows "class_of (class_size k) = k"
proof -
  have "(8 * (k + 1) - 1) div 8 = k" by simp
  moreover have "7 < k \<Longrightarrow> (64 * (k - 7) + 64 - 65) div 64 = k - 8" by (simp add: algebra_simps)
  moreover have "38 < k \<Longrightarrow> (256 * (k - 38) + 2048 - 2049) div 256 = k - 39" by (simp add: algebra_simps)
  ultimately show ?thesis using assms by (auto simp: class_of_def class_size_def CLASSES_def)
qed

subsection \<open>Properties\<close>

text \<open>C24. The class of a size is the best fit: it is one of the 159 classes, its objects are large enough, and those of
  every smaller class are too small; the waste is less than the alignment of the class.\<close>

theorem size_class_best_fit:
  assumes "0 < s" and "s \<le> THRESHALLOC"
  shows "\<exists>k<CLASSES. get_index s = int k \<and> int s \<le> index_to_size (int k) \<and>
    (\<forall>j<k. index_to_size (int j) < int s) \<and>
    index_to_size (int k) < int s + (if s \<le> 64 then 8 else if s \<le> 2048 then 64 else 256)"
proof (intro exI conjI)
  let ?k = "class_of s"
  note fit = class_of_fits [OF assms]
  show "?k < CLASSES" using fit by simp
  show "get_index s = int ?k" using assms by (rule get_index_class_of)
  show "int s \<le> index_to_size (int ?k)"
    "index_to_size (int ?k) < int s + (if s \<le> 64 then 8 else if s \<le> 2048 then 64 else 256)"
    using fit by (simp_all add: index_to_size_class_size split: if_splits)
  show "\<forall>j<?k. index_to_size (int j) < int s"
    using smaller_class_too_small [OF assms] fit by (simp add: index_to_size_class_size)
qed

theorem size_class_best_fit_witness:
  "get_index 100 = 8 \<and> index_to_size 8 = 128 \<and>
    (\<exists>k<CLASSES. get_index 100 = int k \<and> int 100 \<le> index_to_size (int k) \<and>
      (\<forall>j<k. index_to_size (int j) < int 100) \<and>
      index_to_size (int k) < int 100 + (if (100::nat) \<le> 64 then 8 else if (100::nat) \<le> 2048 then 64 else 256))"
  using size_class_best_fit [of 100]
  by (simp add: THRESHALLOC_def get_index_class_of class_of_def index_to_size_def)

text \<open>\<open>get_index\<close> inverts \<open>index_to_size\<close> on every class. The size 0, which \<open>tc_malloc\<close> accepts, has
  the class -1, an index before the start of the lists.\<close>

theorem size_class_roundtrip:
  assumes "k < CLASSES"
  shows "get_index (int_to_size (index_to_size (int k))) = int k \<and> get_index 0 = -1"
proof -
  have "get_index (class_size k) = int k"
    using class_size_bounds [OF assms] class_of_class_size [OF assms] by (subst get_index_class_of) auto
  moreover have "get_index 0 = -1" by (simp add: get_index_def size_sub_def to_int_def)
  ultimately show ?thesis using assms by (simp add: index_to_size_nat)
qed

theorem size_class_roundtrip_witness: "get_index (int_to_size (index_to_size (int 41))) = int 41 \<and> get_index 0 = -1"
  by (rule size_class_roundtrip) (simp add: CLASSES_def)

end
