(* ===== verification/Span_Lists.thy ===== *)
theory Span_Lists
  imports Size_Class
begin

section \<open>Memory of the allocator and its span lists (tc_malloc.h)\<close>

text \<open>
  The state of the allocator: the global tables, the span structs, the free lists that run
  through the free objects, the program break, and one cache per thread. Then the circular doubly
  linked lists of spans with their operations. A list is described by the set of its spans:
  on that set the two link fields are inverse permutations (\<open>ring_ok\<close>). The lemmas
  show what pushing and removing do to such a set.
\<close>

subsection \<open>Constants\<close>

definition SHIFTAMT :: nat where "SHIFTAMT = 12"
definition PAGEHEAPSIZE :: nat where "PAGEHEAPSIZE = 256"
definition PAGEMAPSIZE :: nat where "PAGEMAPSIZE = 2 ^ 23"
definition SYSFETCHSIZE :: nat where "SYSFETCHSIZE = 2 ^ 28"
definition BATCH :: nat where "BATCH = 128"
definition SPANPOOLSIZE :: nat where "SPANPOOLSIZE = 1440"
definition MAXFETCHSIZE :: nat where "MAXFETCHSIZE = 32"

definition pages_to_bytes :: "nat \<Rightarrow> nat" where "pages_to_bytes npage = npage * 2 ^ SHIFTAMT"
definition bytes_to_pages :: "nat \<Rightarrow> nat" where "bytes_to_pages nbytes = nbytes div 2 ^ SHIFTAMT"

text \<open>The size of \<open>struct Span\<close> on the target: eight-byte pointers, the enum padded to eight bytes.\<close>

definition SPAN_BYTES :: nat where "SPAN_BYTES = 64"

lemma page_bytes [simp]: "pages_to_bytes n = n * 4096" "bytes_to_pages b = b div 4096"
  by (simp_all add: pages_to_bytes_def bytes_to_pages_def SHIFTAMT_def)

definition u32 :: "nat \<Rightarrow> nat" where "u32 n = n mod 2 ^ 32"

lemma u32_small [simp]: "n < 2 ^ 32 \<Longrightarrow> u32 n = n"
  by (simp add: u32_def)

subsection \<open>State\<close>

datatype spanLocation = pageheap | isolated | central_list | central_idle

record struct_Span =
  sp_prev :: addr
  sp_next :: addr
  sp_objs :: addr
  sp_obj_len :: nat
  sp_loc :: spanLocation
  sp_start :: addr
  sp_objs_size :: nat
  sp_refcount :: nat
  sp_pageSize :: nat
  sp_pageId :: nat

definition zero_span :: struct_Span where
  "zero_span = \<lparr>sp_prev = 0, sp_next = 0, sp_objs = 0, sp_obj_len = 0, sp_loc = pageheap, sp_start = 0,
     sp_objs_size = 0, sp_refcount = 0, sp_pageSize = 0, sp_pageId = 0\<rparr>"

record threadlist =
  tl_objs :: addr
  tl_objlen :: nat
  tl_max_length :: nat

text \<open>
  \<open>link\<close> is the \<open>next\<close> field that a free object holds in its first eight bytes. The
  program break lies at \<open>brk\<close>; the system moves it no further than \<open>brk_max\<close>. Nothing
  else in the process is taken to move it.
\<close>

record tcmem =
  spans :: "addr \<Rightarrow> struct_Span option"
  pg_list :: "addr list"
  ini_brk_addr :: addr
  page_mapping :: "nat \<Rightarrow> addr"
  curr_index :: nat
  chunk :: addr
  rem_bytes :: nat
  curr_ind :: nat
  central :: "addr list"
  idle :: "addr list"
  link :: "addr \<Rightarrow> addr"
  caches :: "nat \<Rightarrow> threadlist list"
  brk :: addr
  brk_max :: addr

definition upd_span :: "tcmem \<Rightarrow> addr \<Rightarrow> (struct_Span \<Rightarrow> struct_Span) \<Rightarrow> tcmem option" where
  "upd_span m a f = map_option (\<lambda>s. m\<lparr>spans := (spans m)(a \<mapsto> f s)\<rparr>) (spans m a)"

text \<open>What a \<open>span_t *\<close> argument points to: the head of a list, or the \<open>prev\<close> field of a span.\<close>

datatype head_ref = PageList nat | CentralList nat | IdleList nat | PrevField addr

fun read_head :: "tcmem \<Rightarrow> head_ref \<Rightarrow> addr option" where
  "read_head m (PageList i) = rd (pg_list m) i"
| "read_head m (CentralList i) = rd (central m) i"
| "read_head m (IdleList i) = rd (idle m) i"
| "read_head m (PrevField a) = map_option sp_prev (spans m a)"

fun write_head :: "tcmem \<Rightarrow> head_ref \<Rightarrow> addr \<Rightarrow> tcmem option" where
  "write_head m (PageList i) v = map_option (\<lambda>l. m\<lparr>pg_list := l\<rparr>) (wr (pg_list m) i v)"
| "write_head m (CentralList i) v = map_option (\<lambda>l. m\<lparr>central := l\<rparr>) (wr (central m) i v)"
| "write_head m (IdleList i) v = map_option (\<lambda>l. m\<lparr>idle := l\<rparr>) (wr (idle m) i v)"
| "write_head m (PrevField a) v = upd_span m a (\<lambda>s. s\<lparr>sp_prev := v\<rparr>)"

subsection \<open>Operations\<close>

text \<open>A head without a \<open>prev\<close> is first made a list of its own.\<close>

definition spanlist_push :: "tcmem \<Rightarrow> head_ref \<Rightarrow> addr \<Rightarrow> tcmem option" where
  "spanlist_push m head span = do {
     ptr \<leftarrow> (if span = 0 then None else read_head m head);
     if ptr = 0 then do {
       m1 \<leftarrow> write_head m head span;
       upd_span m1 span (\<lambda>s. s\<lparr>sp_next := span, sp_prev := span\<rparr>)
     }
     else do {
       p \<leftarrow> spans m ptr;
       (m1, prev) \<leftarrow>
         (if sp_prev p = 0
          then map_option (\<lambda>m'. (m', ptr)) (upd_span m ptr (\<lambda>s. s\<lparr>sp_prev := ptr, sp_next := ptr\<rparr>))
          else Some (m, sp_prev p));
       m2 \<leftarrow> upd_span m1 span (\<lambda>s. s\<lparr>sp_next := ptr, sp_prev := prev\<rparr>);
       m3 \<leftarrow> upd_span m2 ptr (\<lambda>s. s\<lparr>sp_prev := span\<rparr>);
       m4 \<leftarrow> upd_span m3 prev (\<lambda>s. s\<lparr>sp_next := span\<rparr>);
       write_head m4 head span
     }
   }"

definition spanlist_pop :: "tcmem \<Rightarrow> head_ref \<Rightarrow> addr \<Rightarrow> tcmem option" where
  "spanlist_pop m head span = do {
     s \<leftarrow> spans m span;
     if span = sp_next s then write_head m head 0
     else do {
       let p = (if sp_prev s = 0 then span else sp_prev s);
       let n = (if sp_next s = 0 then span else sp_next s);
       m1 \<leftarrow> upd_span m p (\<lambda>s. s\<lparr>sp_next := n\<rparr>);
       m2 \<leftarrow> upd_span m1 n (\<lambda>s. s\<lparr>sp_prev := p\<rparr>);
       h \<leftarrow> read_head m2 head;
       m3 \<leftarrow>
         (if h = span
          then do {
            s2 \<leftarrow> spans m2 span;
            write_head m2 head (if sp_next s2 = span \<and> sp_prev s2 = span then 0 else n)
          }
          else upd_span m2 h (\<lambda>s. s\<lparr>sp_next := n\<rparr>));
       upd_span m3 span (\<lambda>s. s\<lparr>sp_next := span, sp_prev := span\<rparr>)
     }
   }"

definition remove_span :: "tcmem \<Rightarrow> head_ref \<Rightarrow> addr \<Rightarrow> tcmem option" where
  "remove_span m head span = do {
     h \<leftarrow> read_head m head;
     if h = span then spanlist_pop m head h else spanlist_pop m (PrevField span) span
   }"

text \<open>The free list of a span, and of a thread.\<close>

definition freelist_push :: "tcmem \<Rightarrow> addr \<Rightarrow> addr \<Rightarrow> tcmem option" where
  "freelist_push m span ptr =
     (if ptr = 0 then None
      else do {
        s \<leftarrow> spans m span;
        upd_span (m\<lparr>link := (link m)(ptr := sp_objs s)\<rparr>) span
          (\<lambda>s. s\<lparr>sp_objs := ptr, sp_obj_len := sp_obj_len s + 1\<rparr>)
      })"

text \<open>\<open>len\<close> and \<open>head\<close> point to the fields of a thread's list; the count is a \<open>size_t\<close>.\<close>

definition freelist_pop :: "(addr \<Rightarrow> addr) \<Rightarrow> threadlist \<Rightarrow> (addr \<times> threadlist) option" where
  "freelist_pop nx l =
     (if tl_objs l = 0 then None
      else Some (tl_objs l, l\<lparr>tl_objs := nx (tl_objs l), tl_objlen := size_sub (tl_objlen l) 1\<rparr>))"

subsection \<open>Span maps\<close>

definition upd :: "(addr \<Rightarrow> struct_Span option) \<Rightarrow> addr \<Rightarrow> (struct_Span \<Rightarrow> struct_Span) \<Rightarrow> (addr \<Rightarrow> struct_Span option)" where
  "upd sp a f = sp(a := map_option f (sp a))"

definition nxt :: "(addr \<Rightarrow> struct_Span option) \<Rightarrow> addr \<Rightarrow> addr" where "nxt sp a = sp_next (the (sp a))"
definition prv :: "(addr \<Rightarrow> struct_Span option) \<Rightarrow> addr \<Rightarrow> addr" where "prv sp a = sp_prev (the (sp a))"

text \<open>A span without its links.\<close>

definition unlinked :: "struct_Span \<Rightarrow> struct_Span" where
  "unlinked s = s\<lparr>sp_prev := 0, sp_next := 0\<rparr>"

definition same_data :: "(addr \<Rightarrow> struct_Span option) \<Rightarrow> (addr \<Rightarrow> struct_Span option) \<Rightarrow> bool" where
  "same_data sp sp' \<longleftrightarrow> (\<forall>a. map_option unlinked (sp' a) = map_option unlinked (sp a))"

lemma upd_span_eq [c_step]: "spans m a \<noteq> None \<Longrightarrow> upd_span m a f = Some (m\<lparr>spans := upd (spans m) a f\<rparr>)"
  by (auto simp: upd_span_def upd_def)

lemma upd_None_iff [simp]: "upd sp a f b = None \<longleftrightarrow> sp b = None"
  by (auto simp: upd_def)

lemma upd_apply: "upd sp a f b = (if b = a then map_option f (sp a) else sp b)"
  by (simp add: upd_def)

lemma dom_upd [simp]: "dom (upd sp a f) = dom sp"
  by (auto simp: dom_def)

lemma nxt_upd: "sp a \<noteq> None \<Longrightarrow> nxt (upd sp a f) = (nxt sp)(a := sp_next (f (the (sp a))))"
  by (auto simp: nxt_def upd_def)

lemma prv_upd: "sp a \<noteq> None \<Longrightarrow> prv (upd sp a f) = (prv sp)(a := sp_prev (f (the (sp a))))"
  by (auto simp: prv_def upd_def)

lemma link_updates:
  "sp a \<noteq> None \<Longrightarrow> nxt (upd sp a (\<lambda>s. s\<lparr>sp_next := v\<rparr>)) = (nxt sp)(a := v)"
  "nxt (upd sp a (\<lambda>s. s\<lparr>sp_prev := v\<rparr>)) = nxt sp"
  "sp a \<noteq> None \<Longrightarrow> nxt (upd sp a (\<lambda>s. s\<lparr>sp_next := v, sp_prev := w\<rparr>)) = (nxt sp)(a := v)"
  "prv (upd sp a (\<lambda>s. s\<lparr>sp_next := v\<rparr>)) = prv sp"
  "sp a \<noteq> None \<Longrightarrow> prv (upd sp a (\<lambda>s. s\<lparr>sp_prev := v\<rparr>)) = (prv sp)(a := v)"
  "sp a \<noteq> None \<Longrightarrow> prv (upd sp a (\<lambda>s. s\<lparr>sp_next := v, sp_prev := w\<rparr>)) = (prv sp)(a := w)"
  by (cases "sp a"; simp add: nxt_def prv_def upd_def fun_eq_iff)+

lemma same_data_refl [simp]: "same_data sp sp"
  by (simp add: same_data_def)

lemma same_data_trans: "same_data sp sp' \<Longrightarrow> same_data sp' sp'' \<Longrightarrow> same_data sp sp''"
  by (simp add: same_data_def)

lemma same_data_upd: "(\<And>s. unlinked (f s) = unlinked s) \<Longrightarrow> same_data sp (upd sp a f)"
  by (auto simp: same_data_def upd_def option.map_comp comp_def)

lemma same_data_None: "same_data sp sp' \<Longrightarrow> sp' a = None \<longleftrightarrow> sp a = None"
  unfolding same_data_def by (metis option.map_disc_iff)

lemma same_data_Some:
  assumes "same_data sp sp'" and "sp a = Some s"
  shows "\<exists>s'. sp' a = Some s' \<and> unlinked s' = unlinked s"
  using assms unfolding same_data_def by (metis map_option_eq_Some option.simps(9))

lemma unlinked_eqD:
  assumes "unlinked s' = unlinked s"
  shows "sp_objs s' = sp_objs s" "sp_obj_len s' = sp_obj_len s" "sp_loc s' = sp_loc s" "sp_start s' = sp_start s"
    "sp_objs_size s' = sp_objs_size s" "sp_refcount s' = sp_refcount s" "sp_pageSize s' = sp_pageSize s"
    "sp_pageId s' = sp_pageId s"
  using assms unfolding unlinked_def by (metis struct_Span.select_convs struct_Span.update_convs struct_Span.surjective)+

subsection \<open>Rings\<close>

text \<open>
  A set of spans made of closed lists: following \<open>next\<close> and \<open>prev\<close> stays inside and the two are inverse to each other.
\<close>

definition ring :: "(addr \<Rightarrow> addr) \<Rightarrow> (addr \<Rightarrow> addr) \<Rightarrow> addr set \<Rightarrow> bool" where
  "ring N P D \<longleftrightarrow> (\<forall>a\<in>D. N a \<in> D \<and> P a \<in> D \<and> P (N a) = a \<and> N (P a) = a)"

definition ring_ok :: "(addr \<Rightarrow> struct_Span option) \<Rightarrow> addr set \<Rightarrow> bool" where
  "ring_ok sp D \<longleftrightarrow> D \<subseteq> dom sp \<and> 0 \<notin> D \<and> finite D \<and> ring (nxt sp) (prv sp) D"

lemma ringD:
  assumes "ring N P D" and "a \<in> D"
  shows "N a \<in> D" "P a \<in> D" "P (N a) = a" "N (P a) = a"
  using assms by (simp_all add: ring_def)

lemma ring_insert:
  assumes D: "ring N P D" and h: "h \<in> D" and x: "x \<notin> D"
  shows "ring (N(x := h, P h := x)) (P(x := P h, h := x)) (insert x D)"
  unfolding ring_def
proof (intro ballI)
  fix a assume a: "a \<in> insert x D"
  note hD = ringD [OF D h]
  show "(N(x := h, P h := x)) a \<in> insert x D \<and> (P(x := P h, h := x)) a \<in> insert x D \<and>
      (P(x := P h, h := x)) ((N(x := h, P h := x)) a) = a \<and> (N(x := h, P h := x)) ((P(x := P h, h := x)) a) = a"
  proof (cases "a = x")
    case True
    then show ?thesis using hD h x by auto
  next
    case False
    with a have "a \<in> D" by simp
    note aD = ringD [OF D this]
    have "a \<noteq> P h \<Longrightarrow> N a \<noteq> h" "a \<noteq> h \<Longrightarrow> P a \<noteq> P h" using aD hD by metis+
    moreover have "N a \<noteq> x" "P a \<noteq> x" "P h \<noteq> x" "h \<noteq> x" using aD hD h x by metis+
    ultimately show ?thesis using aD hD h False by auto
  qed
qed

lemma ring_single: "ring N P D \<Longrightarrow> x \<notin> D \<Longrightarrow> ring (N(x := x)) (P(x := x)) (insert x D)"
  by (auto simp: ring_def)

lemma ring_remove:
  assumes "ring N P D" and "x \<in> D"
  shows "ring (N(P x := N x)) (P(N x := P x)) (D - {x})"
  unfolding ring_def
proof (intro ballI)
  fix a assume "a \<in> D - {x}"
  then have a: "a \<in> D" "a \<noteq> x" by simp_all
  note inv = ringD [OF assms(1)]
  have N: "a = P x \<Longrightarrow> N x \<noteq> x" "a \<noteq> P x \<Longrightarrow> N a \<noteq> x" "N a \<noteq> N x"
    using inv [OF assms(2)] inv [OF a(1)] a(2) by metis+
  have P: "a = N x \<Longrightarrow> P x \<noteq> x" "a \<noteq> N x \<Longrightarrow> P a \<noteq> x" "P a \<noteq> P x"
    using inv [OF assms(2)] inv [OF a(1)] a(2) by metis+
  note xa = inv [OF assms(2)] inv [OF a(1)]
  have "(N(P x := N x)) a \<in> D - {x} \<and> (P(N x := P x)) ((N(P x := N x)) a) = a"
    using N xa by (cases "a = P x") simp_all
  moreover have "(P(N x := P x)) a \<in> D - {x} \<and> (N(P x := N x)) ((P(N x := P x)) a) = a"
    using P xa by (cases "a = N x") simp_all
  ultimately show "(N(P x := N x)) a \<in> D - {x} \<and> (P(N x := P x)) a \<in> D - {x} \<and>
      (P(N x := P x)) ((N(P x := N x)) a) = a \<and> (N(P x := N x)) ((P(N x := P x)) a) = a"
    by blast
qed

lemma ring_remove_single: "ring N P D \<Longrightarrow> x \<in> D \<Longrightarrow> N x = x \<Longrightarrow> ring N P (D - {x})"
  unfolding ring_def
proof (intro ballI)
  fix a assume D: "\<forall>a\<in>D. N a \<in> D \<and> P a \<in> D \<and> P (N a) = a \<and> N (P a) = a" and x: "x \<in> D" "N x = x"
    and a: "a \<in> D - {x}"
  then have "P x = x" by metis
  then have "N a \<noteq> x" "P a \<noteq> x" using D x a by (metis DiffE singletonI)+
  then show "N a \<in> D - {x} \<and> P a \<in> D - {x} \<and> P (N a) = a \<and> N (P a) = a" using D a by blast
qed

lemma ring_cong:
  assumes "\<And>a. a \<in> D \<Longrightarrow> N a = N' a \<and> P a = P' a"
  shows "ring N P D = ring N' P' D"
  using assms unfolding ring_def by (metis (full_types))

lemma ring_ok_cong:
  assumes "\<And>a. a \<in> D \<Longrightarrow> sp' a = sp a"
  shows "ring_ok sp' D = ring_ok sp D"
proof -
  have "ring (nxt sp') (prv sp') D = ring (nxt sp) (prv sp) D"
    using assms by (intro ring_cong) (simp add: nxt_def prv_def)
  moreover have "D \<subseteq> dom sp' \<longleftrightarrow> D \<subseteq> dom sp" using assms by (auto simp: dom_def)
  ultimately show ?thesis by (simp add: ring_ok_def)
qed

lemma ring_okD:
  assumes "ring_ok sp D" and "a \<in> D"
  shows "nxt sp a \<in> D" "prv sp a \<in> D" "prv sp (nxt sp a) = a" "nxt sp (prv sp a) = a" "sp a \<noteq> None" "a \<noteq> 0"
proof -
  have "ring (nxt sp) (prv sp) D" using assms(1) by (simp add: ring_ok_def)
  then show "nxt sp a \<in> D" "prv sp a \<in> D" "prv sp (nxt sp a) = a" "nxt sp (prv sp a) = a"
    using assms(2) by (rule ringD)+
  have "a \<in> dom sp" "0 \<notin> D" using assms by (auto simp: ring_ok_def)
  then show "sp a \<noteq> None" by blast
  show "a \<noteq> 0" using \<open>0 \<notin> D\<close> assms(2) by metis
qed

text \<open>The head of a list that lives in one of the three tables.\<close>

fun in_table :: "tcmem \<Rightarrow> head_ref \<Rightarrow> bool" where
  "in_table m (PageList i) \<longleftrightarrow> i < length (pg_list m)"
| "in_table m (CentralList i) \<longleftrightarrow> i < length (central m)"
| "in_table m (IdleList i) \<longleftrightarrow> i < length (idle m)"
| "in_table m (PrevField a) \<longleftrightarrow> False"

fun head_of :: "tcmem \<Rightarrow> head_ref \<Rightarrow> addr" where
  "head_of m (PageList i) = pg_list m ! i"
| "head_of m (CentralList i) = central m ! i"
| "head_of m (IdleList i) = idle m ! i"
| "head_of m (PrevField a) = prv (spans m) a"

fun set_head :: "tcmem \<Rightarrow> head_ref \<Rightarrow> addr \<Rightarrow> tcmem" where
  "set_head m (PageList i) v = m\<lparr>pg_list := (pg_list m)[i := v]\<rparr>"
| "set_head m (CentralList i) v = m\<lparr>central := (central m)[i := v]\<rparr>"
| "set_head m (IdleList i) v = m\<lparr>idle := (idle m)[i := v]\<rparr>"
| "set_head m (PrevField a) v = m\<lparr>spans := upd (spans m) a (\<lambda>s. s\<lparr>sp_prev := v\<rparr>)\<rparr>"

lemma read_head_table: "in_table m head \<Longrightarrow> read_head m head = Some (head_of m head)"
  by (cases head) (auto simp: rd_def)

lemma write_head_table: "in_table m head \<Longrightarrow> write_head m head v = Some (set_head m head v)"
  by (cases head) (auto simp: wr_def)

lemma in_table_spans [simp]: "in_table (m\<lparr>spans := sp\<rparr>) head = in_table m head"
  by (cases head) auto

lemma head_of_spans [simp]: "in_table m head \<Longrightarrow> head_of (m\<lparr>spans := sp\<rparr>) head = head_of m head"
  by (cases head) auto

lemma spans_set_head [simp]: "in_table m head \<Longrightarrow> spans (set_head m head v) = spans m"
  by (cases head) auto

lemma set_head_spans: "in_table m head \<Longrightarrow> set_head (m\<lparr>spans := sp\<rparr>) head v = (set_head m head v)\<lparr>spans := sp\<rparr>"
  by (cases head) auto

lemma spanlist_push_ring:
  assumes D: "ring_ok (spans m) D" and x: "x \<notin> D" "x \<noteq> 0" "spans m x \<noteq> None"
    and head: "in_table m head" "head_of m head = 0 \<or> head_of m head \<in> D"
  shows "\<exists>sp. spanlist_push m head x = Some ((set_head m head x)\<lparr>spans := sp\<rparr>) \<and>
    ring_ok sp (insert x D) \<and> same_data (spans m) sp \<and> (\<forall>a. a \<notin> insert x D \<longrightarrow> sp a = spans m a)"
proof (cases "head_of m head = 0")
  case True
  let ?sp = "upd (spans m) x (\<lambda>s. s\<lparr>sp_next := x, sp_prev := x\<rparr>)"
  have "spanlist_push m head x = Some ((set_head m head x)\<lparr>spans := ?sp\<rparr>)"
    using True x head by (simp add: spanlist_push_def read_head_table write_head_table upd_span_eq)
  moreover have "ring_ok ?sp (insert x D)"
    using D x by (auto simp: ring_ok_def nxt_upd prv_upd intro: ring_single)
  moreover have "same_data (spans m) ?sp" by (rule same_data_upd) (simp add: unlinked_def)
  ultimately show ?thesis by (auto simp: upd_apply)
next
  case False
  let ?h = "head_of m head" and ?S = "spans m"
  have h: "?h \<in> D" using False head(2) by simp
  note hD = ring_okD [OF D h]
  obtain rh where rh: "?S ?h = Some rh" using hD(5) by auto
  have p: "sp_prev rh = prv ?S ?h" by (simp add: prv_def rh)
  have pD: "prv ?S ?h \<in> D" "prv ?S ?h \<noteq> 0" "?S (prv ?S ?h) \<noteq> None"
    using hD(2) ring_okD [OF D] by blast+
  let ?sp = "upd (upd (upd ?S x (\<lambda>s. s\<lparr>sp_next := ?h, sp_prev := prv ?S ?h\<rparr>))
    ?h (\<lambda>s. s\<lparr>sp_prev := x\<rparr>)) (prv ?S ?h) (\<lambda>s. s\<lparr>sp_next := x\<rparr>)"
  have "spanlist_push m head x = Some ((set_head m head x)\<lparr>spans := ?sp\<rparr>)"
    using False x head(1) rh p pD
    by (simp add: spanlist_push_def read_head_table write_head_table upd_span_eq set_head_spans)
  moreover have "nxt ?sp = (nxt ?S)(x := ?h, prv ?S ?h := x)" "prv ?sp = (prv ?S)(x := prv ?S ?h, ?h := x)"
    using x hD(5) pD(3) by (simp_all add: link_updates)
  then have "ring_ok ?sp (insert x D)"
    using D x h ring_insert by (simp add: ring_ok_def) (metis (lifting) subset_iff domI domIff)
  moreover have "same_data ?S ?sp"
    by (intro same_data_trans [OF _ same_data_upd] same_data_upd) (simp_all add: unlinked_def)
  moreover have "\<forall>a. a \<notin> insert x D \<longrightarrow> ?sp a = ?S a" using h pD(1) by (auto simp: upd_apply)
  ultimately show ?thesis by blast
qed

lemma set_head_same: "in_table m head \<Longrightarrow> set_head m head (head_of m head) = m"
  by (cases head) auto

lemma remove_span_ring:
  assumes D: "ring_ok (spans m) D" and x: "x \<in> D"
    and head: "in_table m head"
  shows "\<exists>sp h. remove_span m head x = Some ((set_head m head h)\<lparr>spans := sp\<rparr>) \<and>
    (if head_of m head = x then h = 0 \<or> h \<in> D - {x} else h = head_of m head) \<and>
    ring_ok sp (D - {x}) \<and> same_data (spans m) sp \<and> (\<forall>a. a \<notin> D \<longrightarrow> sp a = spans m a) \<and>
    (prv sp x = 0 \<or> prv sp x = x)"
proof -
  let ?S = "spans m"
  let ?h = "head_of m head" and ?p = "prv ?S x" and ?n = "nxt ?S x"
  note xD = ringD [OF _ x, of "nxt ?S" "prv ?S"]
  note xR = ring_okD [OF D x]
  obtain s where s: "?S x = Some s" "sp_next s = ?n" "sp_prev s = ?p" using xR(5) by (auto simp: nxt_def prv_def)
  have np: "?n \<noteq> 0" "?p \<noteq> 0" "?S ?n \<noteq> None" "?S ?p \<noteq> None" using xR(1,2) ring_okD(5,6) [OF D] by blast+
  show ?thesis
  proof (cases "?n = x")
    case single: True
    have R: "ring_ok ?S (D - {x})" using D x single ring_remove_single by (auto simp: ring_ok_def)
    show ?thesis
    proof (cases "?h = x")
      case True
      then have "remove_span m head x = Some ((set_head m head 0)\<lparr>spans := ?S\<rparr>)"
        using head s single
        by (simp add: remove_span_def spanlist_pop_def read_head_table write_head_table flip: set_head_spans)
      moreover have "prv ?S x = x" using single xR by metis
      ultimately show ?thesis using R True by (intro exI [of _ ?S] exI [of _ 0]) simp
    next
      case False
      let ?sp = "upd ?S x (\<lambda>s. s\<lparr>sp_prev := 0\<rparr>)"
      have "remove_span m head x = Some ((set_head m head ?h)\<lparr>spans := ?sp\<rparr>)"
        using head s single False
        by (simp add: remove_span_def spanlist_pop_def read_head_table set_head_same upd_span_eq)
      moreover have "ring_ok ?sp (D - {x})"
        using R by (subst ring_ok_cong [of _ _ ?S]) (simp_all add: upd_apply)
      moreover have "same_data ?S ?sp" by (rule same_data_upd) (simp add: unlinked_def)
      moreover have "prv ?sp x = 0" using xR(5) by (simp add: prv_upd)
      moreover have "\<forall>a. a \<notin> D \<longrightarrow> ?sp a = ?S a" using x by (auto simp: upd_apply)
      ultimately show ?thesis using False by (intro exI [of _ ?sp] exI [of _ ?h]) simp
    qed
  next
    case several: False
    then have pn: "?p \<noteq> x" using xR by metis
    let ?sp = "upd (upd (upd ?S ?p (\<lambda>s. s\<lparr>sp_next := ?n\<rparr>)) ?n (\<lambda>s. s\<lparr>sp_prev := ?p\<rparr>))
      x (\<lambda>s. s\<lparr>sp_next := x, sp_prev := x\<rparr>)"
    have links: "nxt ?sp = (nxt ?S)(?p := ?n, x := x)" "prv ?sp = (prv ?S)(?n := ?p, x := x)"
      using xR(5) np by (simp_all add: link_updates)
    have "ring (nxt ?sp) (prv ?sp) (D - {x})"
    proof (subst ring_cong)
      show "ring ((nxt ?S)(?p := ?n)) ((prv ?S)(?n := ?p)) (D - {x})"
        using D x by (intro ring_remove) (simp_all add: ring_ok_def)
    qed (auto simp: links)
    then have R: "ring_ok ?sp (D - {x})" using D by (auto simp: ring_ok_def)
    have data: "same_data ?S ?sp"
      by (intro same_data_trans [OF _ same_data_upd] same_data_upd) (simp_all add: unlinked_def)
    have out: "\<forall>a. a \<notin> D \<longrightarrow> ?sp a = ?S a" using xR(1,2) x by (auto simp: upd_apply)
    have px: "prv ?sp x = x" using links by simp
    have noop: "upd (upd (upd (upd ?S ?p (\<lambda>s. s\<lparr>sp_next := ?n\<rparr>)) ?n (\<lambda>s. s\<lparr>sp_prev := ?p\<rparr>)) ?p (\<lambda>s. s\<lparr>sp_next := ?n\<rparr>))
        x (\<lambda>s. s\<lparr>sp_next := x, sp_prev := x\<rparr>) = ?sp"
      using np by (auto simp: upd_def fun_eq_iff)
    show ?thesis
    proof (cases "?h = x")
      case True
      then have "remove_span m head x = Some ((set_head m head ?n)\<lparr>spans := ?sp\<rparr>)"
        using head s several pn np
        by (simp add: remove_span_def spanlist_pop_def read_head_table write_head_table upd_span_eq upd_apply set_head_spans Let_def)
      then show ?thesis using R data out px True xR(1) several by (intro exI [of _ ?sp] exI [of _ ?n]) simp
    next
      case False
      then have "remove_span m head x = Some ((set_head m head ?h)\<lparr>spans := ?sp\<rparr>)"
        using head s several pn np noop
        by (simp add: remove_span_def spanlist_pop_def read_head_table set_head_same upd_span_eq upd_apply Let_def)
      then show ?thesis using R data out px False by (intro exI [of _ ?sp] exI [of _ ?h]) simp
    qed
  qed
qed

text \<open>Pushing a span onto the list whose head it already is: it becomes a list of its own.\<close>

lemma spanlist_push_self:
  assumes D: "ring_ok (spans m) D" and x: "x \<notin> D" "x \<noteq> 0" "spans m x \<noteq> None" "prv (spans m) x = 0 \<or> prv (spans m) x = x"
    and head: "in_table m head" "head_of m head = x"
  shows "\<exists>sp. spanlist_push m head x = Some ((set_head m head x)\<lparr>spans := sp\<rparr>) \<and>
    ring_ok sp (insert x D) \<and> same_data (spans m) sp \<and> (\<forall>a. a \<noteq> x \<longrightarrow> sp a = spans m a)"
proof -
  let ?S = "spans m" and ?sp = "upd (spans m) x (\<lambda>s. s\<lparr>sp_next := x, sp_prev := x\<rparr>)"
  obtain s where s: "?S x = Some s" "sp_prev s = 0 \<or> sp_prev s = x" using x(3,4) by (auto simp: prv_def)
  have "upd (upd (upd (upd ?S x (\<lambda>s. s\<lparr>sp_prev := x, sp_next := x\<rparr>)) x (\<lambda>s. s\<lparr>sp_next := x, sp_prev := x\<rparr>))
      x (\<lambda>s. s\<lparr>sp_prev := x\<rparr>)) x (\<lambda>s. s\<lparr>sp_next := x\<rparr>) = ?sp"
    "upd (upd (upd ?S x (\<lambda>s. s\<lparr>sp_next := x, sp_prev := x\<rparr>)) x (\<lambda>s. s\<lparr>sp_prev := x\<rparr>)) x (\<lambda>s. s\<lparr>sp_next := x\<rparr>) = ?sp"
    using s(1) by (auto simp: upd_def fun_eq_iff)
  then have "spanlist_push m head x = Some ((set_head m head x)\<lparr>spans := ?sp\<rparr>)"
    using s x(2) head
    by (auto simp: spanlist_push_def read_head_table write_head_table upd_span_eq upd_apply set_head_spans)
  moreover have "ring_ok ?sp (insert x D)"
    using D x by (auto simp: ring_ok_def nxt_upd prv_upd intro: ring_single)
  moreover have "same_data ?S ?sp" by (rule same_data_upd) (simp add: unlinked_def)
  ultimately show ?thesis by (auto simp: upd_apply)
qed

text \<open>Removing a span and pushing it again, whatever list it was in.\<close>

lemma in_table_set_head [simp]: "in_table (set_head m head v) head' = in_table m head'"
  by (cases head; cases head') auto

lemma head_of_set_head: "in_table m head \<Longrightarrow> in_table m head' \<Longrightarrow>
    head_of (set_head m head v) head' = (if head = head' then v else head_of m head')"
  by (cases head; cases head') auto

lemma move_span_ring:
  assumes D: "ring_ok (spans m) D" and x: "x \<in> D" and ne: "src \<noteq> dst"
    and src: "in_table m src"
    and dst: "in_table m dst" "head_of m dst = 0 \<or> head_of m dst \<in> D"
  shows "\<exists>m1 sp h. remove_span m src x = Some m1 \<and>
    spanlist_push m1 dst x = Some ((set_head (set_head m src h) dst x)\<lparr>spans := sp\<rparr>) \<and>
    (if head_of m src = x then h = 0 \<or> h \<in> D - {x} else h = head_of m src) \<and> ring_ok sp D \<and> same_data (spans m) sp \<and> (\<forall>a. a \<notin> D \<longrightarrow> sp a = spans m a)"
proof -
  obtain sp h where r: "remove_span m src x = Some ((set_head m src h)\<lparr>spans := sp\<rparr>)" "if head_of m src = x then h = 0 \<or> h \<in> D - {x} else h = head_of m src"
      "ring_ok sp (D - {x})" "same_data (spans m) sp" "\<forall>a. a \<notin> D \<longrightarrow> sp a = spans m a" "prv sp x = 0 \<or> prv sp x = x"
    using remove_span_ring [OF D x src] by blast
  let ?m = "(set_head m src h)\<lparr>spans := sp\<rparr>"
  have x0: "x \<noteq> 0" "sp x \<noteq> None"
    using ring_okD(5,6) [OF D x] same_data_None [OF r(4)] by auto
  have hd: "in_table ?m dst" "head_of ?m dst = head_of m dst" using dst(1) src ne by (simp_all add: head_of_set_head)
  have "\<exists>sp'. spanlist_push ?m dst x = Some ((set_head ?m dst x)\<lparr>spans := sp'\<rparr>) \<and> ring_ok sp' (insert x (D - {x})) \<and>
      same_data sp sp' \<and> (\<forall>a. a \<notin> D \<longrightarrow> sp' a = sp a)"
  proof (cases "head_of m dst = x")
    case True
    obtain sp' where "spanlist_push ?m dst x = Some ((set_head ?m dst x)\<lparr>spans := sp'\<rparr>)"
        "ring_ok sp' (insert x (D - {x}))" "same_data sp sp'" "\<forall>a. a \<noteq> x \<longrightarrow> sp' a = sp a"
      using spanlist_push_self [of ?m "D - {x}" x dst] r(3,6) x0 hd True by auto
    moreover have "\<forall>a. a \<notin> D \<longrightarrow> sp' a = sp a" using \<open>\<forall>a. a \<noteq> x \<longrightarrow> sp' a = sp a\<close> x by metis
    ultimately show ?thesis by blast
  next
    case False
    then have "head_of ?m dst = 0 \<or> head_of ?m dst \<in> D - {x}" using hd(2) dst(2) by simp
    then obtain sp' where "spanlist_push ?m dst x = Some ((set_head ?m dst x)\<lparr>spans := sp'\<rparr>)"
        "ring_ok sp' (insert x (D - {x}))" "same_data sp sp'" "\<forall>a. a \<notin> insert x (D - {x}) \<longrightarrow> sp' a = sp a"
      using spanlist_push_ring [of ?m "D - {x}" x dst] r(3) x0 hd(1) by auto
    moreover have "insert x (D - {x}) = D" using x by auto
    ultimately show ?thesis by auto
  qed
  then obtain sp' where p: "spanlist_push ?m dst x = Some ((set_head ?m dst x)\<lparr>spans := sp'\<rparr>)"
      "ring_ok sp' (insert x (D - {x}))" "same_data sp sp'" "\<forall>a. a \<notin> D \<longrightarrow> sp' a = sp a" by blast
  have "(set_head ?m dst x)\<lparr>spans := sp'\<rparr> = (set_head (set_head m src h) dst x)\<lparr>spans := sp'\<rparr>"
    using dst(1) by (simp add: set_head_spans)
  moreover have "insert x (D - {x}) = D" using x by auto
  moreover have "same_data (spans m) sp'" using r(4) p(3) by (rule same_data_trans)
  moreover have "\<forall>a. a \<notin> D \<longrightarrow> sp' a = spans m a" using r(5) p(4) by simp
  ultimately show ?thesis using r(1,2) p(1,2)
    by (intro exI [of _ ?m] exI [of _ sp'] exI [of _ h]) simp
qed

end
