(* ===== verification/Page_Heap.thy ===== *)
theory Page_Heap
  imports Span_Lists
begin

section \<open>The page heap of the allocator (tc_malloc.c)\<close>

text \<open>
  Runs of pages: the map from pages to spans, the pool the span structs are taken from, memory from the system,
  and the lists of free spans by size. The invariant \<open>pages_ok\<close> says which spans the pages
  belong to: by the page map no page belongs to two. The lemmas show that \<open>fetch_span\<close>
  hands out a run of exactly the pages asked for, which belongs to nothing else, and that it returns as long as
  the system has memory; and that \<open>return_span_to_pgcache\<close> takes a run back.
\<close>

subsection \<open>Operations\<close>

text \<open>The program break moves by \<open>n\<close> bytes, or the call fails with \<open>(void * )-1\<close>.\<close>

definition SBRK_FAILED :: addr where "SBRK_FAILED = 2 ^ 64 - 1"

definition sbrk :: "tcmem \<Rightarrow> nat \<Rightarrow> addr \<times> tcmem" where
  "sbrk m n = (if brk m + n \<le> brk_max m then (brk m, m\<lparr>brk := brk m + n\<rparr>) else (SBRK_FAILED, m))"

definition addr_to_index :: "addr \<Rightarrow> addr \<Rightarrow> nat" where
  "addr_to_index e s = size_sub (bytes_to_pages e) (bytes_to_pages s)"

text \<open>The loop of \<open>update_mapping\<close>; its index is an \<open>int\<close>, the page number wraps at 32 bits.\<close>

function map_loop :: "tcmem \<Rightarrow> addr \<Rightarrow> nat \<Rightarrow> nat \<Rightarrow> nat \<Rightarrow> tcmem option" where
  "map_loop m new_span pageId len i =
     (if i < len
      then if u32 (pageId + i) < PAGEMAPSIZE
        then map_loop (m\<lparr>page_mapping := (page_mapping m)(u32 (pageId + i) := new_span)\<rparr>) new_span pageId len (Suc i)
        else None
      else Some m)"
  by pat_completeness auto
termination
  by (relation "measure (\<lambda>(m, new_span, pageId, len, i). len - i)") auto

declare map_loop.simps [simp del]

definition update_mapping :: "tcmem \<Rightarrow> addr \<Rightarrow> tcmem option" where
  "update_mapping m new_span = do {
     s \<leftarrow> spans m new_span;
     m1 \<leftarrow> map_loop m new_span (sp_pageId s) (sp_pageSize s) 0;
     Some (m1\<lparr>curr_index := max (curr_index m1) (u32 (sp_pageId s + sp_pageSize s))\<rparr>)
   }"

text \<open>
  A new chunk of the pool is cleared: every slot of it holds a cleared span struct. Clearing the memory at the
  failure value of \<open>sbrk\<close> has no defined result.
\<close>

definition clear_chunk :: "tcmem \<Rightarrow> addr \<Rightarrow> nat \<Rightarrow> tcmem" where
  "clear_chunk m c n =
     m\<lparr>spans := (\<lambda>a. if c \<le> a \<and> a < c + n \<and> SPAN_BYTES dvd (a - c) then Some zero_span else spans m a)\<rparr>"

definition get_span :: "addr \<Rightarrow> nat \<Rightarrow> addr" where
  "get_span p index = p + index * SPAN_BYTES"

definition new_chunk :: "tcmem \<Rightarrow> tcmem option" where
  "new_chunk m =
     (let nbytes = pages_to_bytes SPANPOOLSIZE; (c, m1) = sbrk m nbytes
      in if c = SBRK_FAILED then None
         else do {
           let m2 = clear_chunk (m1\<lparr>curr_ind := 0, rem_bytes := nbytes, chunk := c\<rparr>) c nbytes;
           let meta_span = get_span c 0;
           m3 \<leftarrow> upd_span m2 meta_span
             (\<lambda>s. s\<lparr>sp_pageId := u32 (addr_to_index c (ini_brk_addr m)), sp_pageSize := SPANPOOLSIZE\<rparr>);
           update_mapping m3 meta_span
         })"

definition alloc_span :: "tcmem \<Rightarrow> nat \<Rightarrow> addr \<Rightarrow> (addr \<times> tcmem) option" where
  "alloc_span m npages ptr = do {
     (new_span, m2) \<leftarrow>
       (if rem_bytes m < SPAN_BYTES
        then do {
          m1 \<leftarrow> new_chunk m;
          Some (get_span (chunk m1) 1,
            m1\<lparr>rem_bytes := rem_bytes m1 - 2 * SPAN_BYTES, curr_ind := curr_ind m1 + 2\<rparr>)
        }
        else Some (get_span (chunk m) (curr_ind m),
          m\<lparr>rem_bytes := rem_bytes m - SPAN_BYTES, curr_ind := curr_ind m + 1\<rparr>));
     m3 \<leftarrow> upd_span m2 new_span
       (\<lambda>s. s\<lparr>sp_pageSize := u32 npages,
              sp_pageId := (if ptr \<noteq> 0 then u32 (addr_to_index ptr (ini_brk_addr m)) else sp_pageId s),
              sp_next := new_span, sp_prev := new_span\<rparr>);
     Some (new_span, m3)
   }"

definition map_addr_to_span :: "tcmem \<Rightarrow> addr \<Rightarrow> addr option" where
  "map_addr_to_span m ptr =
     (let pgid = addr_to_index ptr (ini_brk_addr m)
      in if pgid < PAGEMAPSIZE then Some (page_mapping m pgid) else None)"

text \<open>\<open>MIN(PAGEHEAPSIZE - 1, n - 1)\<close>, with the \<open>size_t\<close> wrap for 0.\<close>

definition bucket :: "nat \<Rightarrow> nat" where
  "bucket n = min (PAGEHEAPSIZE - 1) (size_sub n 1)"

text \<open>The result of \<open>sbrk\<close> is tested against NULL, and not against its failure value.\<close>

definition fetch_from_system :: "tcmem \<Rightarrow> tcmem option" where
  "fetch_from_system m = do {
     let (alloc_ptr, m1) = sbrk m SYSFETCHSIZE;
     (new_span, m2) \<leftarrow> alloc_span m1 (bytes_to_pages SYSFETCHSIZE) alloc_ptr;
     m3 \<leftarrow> upd_span m2 new_span (\<lambda>s. s\<lparr>sp_start := alloc_ptr\<rparr>);
     s \<leftarrow> spans m3 new_span;
     m4 \<leftarrow> spanlist_push m3 (PageList (bucket (sp_pageSize s))) new_span;
     update_mapping m4 new_span
   }"

definition split_spans :: "tcmem \<Rightarrow> addr \<Rightarrow> addr \<Rightarrow> nat \<Rightarrow> tcmem option" where
  "split_spans m tmp new_span npage = do {
     m1 \<leftarrow> upd_span m tmp (\<lambda>s. s\<lparr>sp_pageSize := u32 (size_sub (sp_pageSize s) npage)\<rparr>);
     t \<leftarrow> spans m1 tmp;
     m2 \<leftarrow> upd_span m1 new_span (\<lambda>s. s\<lparr>sp_start := sp_start t + u32 (pages_to_bytes (sp_pageSize t)),
            sp_next := new_span, sp_prev := new_span\<rparr>);
     m3 \<leftarrow> (if sp_pageSize t \<noteq> 0 then spanlist_push m2 (PageList (bucket (sp_pageSize t))) tmp else Some m2);
     t' \<leftarrow> spans m3 tmp;
     m4 \<leftarrow> upd_span m3 new_span (\<lambda>s. s\<lparr>sp_pageId := u32 (sp_pageId t' + sp_pageSize t')\<rparr>);
     update_mapping m4 new_span
   }"

text \<open>The two searches of \<open>fetch_span\<close>: the first non-empty list, and a large enough span of the last list.\<close>

function first_list :: "tcmem \<Rightarrow> int \<Rightarrow> nat option option" where
  "first_list m i =
     (if i < int PAGEHEAPSIZE
      then if i < 0 then None
        else case rd (pg_list m) (nat i) of
               None \<Rightarrow> None
             | Some p \<Rightarrow> if p \<noteq> 0 then Some (Some (nat i)) else first_list m (i + 1)
      else Some None)"
  by pat_completeness auto
termination
  by (relation "measure (\<lambda>(m, i). nat (int PAGEHEAPSIZE - i))") auto

declare first_list.simps [simp del]

partial_function (option) large_span :: "tcmem \<Rightarrow> nat \<Rightarrow> addr \<Rightarrow> addr \<Rightarrow> addr option" where
  "large_span m npage head tmp =
     (if tmp = 0 then Some 0
      else do {
        s \<leftarrow> spans m tmp;
        if npage \<le> sp_pageSize s then Some tmp
        else if sp_next s = 0 \<or> sp_next s = head then Some 0
        else large_span m npage head (sp_next s)
      })"

text \<open>
  \<open>fetch_span\<close> asks the system for more and starts again. A span struct that it took for
  the new span is not given back then.
\<close>

partial_function (option) fetch_span :: "tcmem \<Rightarrow> nat \<Rightarrow> (addr \<times> tcmem) option" where
  "fetch_span m npage = do {
     tmp \<leftarrow> rd (pg_list m) (bucket npage);
     if tmp \<noteq> 0
     then map_option (\<lambda>m'. (tmp, m')) (remove_span m (PageList (bucket npage)) tmp)
     else do {
       (new_span, m1) \<leftarrow> alloc_span m npage 0;
       m2 \<leftarrow> (if npage > 8 then upd_span m1 new_span (\<lambda>s. s\<lparr>sp_loc := isolated\<rparr>) else Some m1);
       found \<leftarrow> first_list m2 (to_int npage);
       (case found of
          Some i \<Rightarrow> do {
            tmp \<leftarrow> rd (pg_list m2) i;
            m3 \<leftarrow> remove_span m2 (PageList i) tmp;
            m4 \<leftarrow> split_spans m3 tmp new_span npage;
            Some (new_span, m4)
          }
        | None \<Rightarrow> do {
            head \<leftarrow> rd (pg_list m2) (PAGEHEAPSIZE - 1);
            tmp \<leftarrow> large_span m2 npage head head;
            if tmp \<noteq> 0 then do {
              m3 \<leftarrow> remove_span m2 (PageList (PAGEHEAPSIZE - 1)) tmp;
              m4 \<leftarrow> split_spans m3 tmp new_span npage;
              Some (new_span, m4)
            }
            else if npage > PAGEHEAPSIZE then do {
              let (alloc_ptr, m3) = sbrk m2 (pages_to_bytes npage);
              (new_span, m4) \<leftarrow> alloc_span m3 npage alloc_ptr;
              m5 \<leftarrow> upd_span m4 new_span (\<lambda>s. s\<lparr>sp_start := alloc_ptr\<rparr>);
              m6 \<leftarrow> update_mapping m5 new_span;
              Some (new_span, m6)
            }
            else do {
              m3 \<leftarrow> fetch_from_system m2;
              fetch_span m3 npage
            }
          })
     }
   }"

text \<open>
  The neighbours are looked up, but joining with them is commented out in the source. The lock is held from the
  first line to the last.
\<close>

definition return_span_to_pgcache :: "tcmem \<Rightarrow> addr \<Rightarrow> tcmem option" where
  "return_span_to_pgcache m span_ptr = do {
     s \<leftarrow> spans m span_ptr;
     let prevId = to_int (size_sub (sp_pageId s) 1);
     let nextId = u32 (sp_pageId s + sp_pageSize s);
     if (prevId \<noteq> -1 \<and> \<not> (0 \<le> prevId \<and> prevId < int PAGEMAPSIZE)) \<or> PAGEMAPSIZE \<le> nextId then None
     else do {
       m1 \<leftarrow> upd_span m span_ptr
         (\<lambda>s. s\<lparr>sp_objs_size := 0, sp_obj_len := 0, sp_objs := 0, sp_loc := pageheap\<rparr>);
       m2 \<leftarrow> spanlist_push m1 (PageList (bucket (sp_pageSize s))) span_ptr;
       update_mapping m2 span_ptr
     }
   }"

subsection \<open>Loops in closed form\<close>

lemma map_loop_closed:
  assumes "pageId + len \<le> PAGEMAPSIZE" and "i \<le> len"
  shows "map_loop m a pageId len i =
    Some (m\<lparr>page_mapping := (\<lambda>p. if pageId + i \<le> p \<and> p < pageId + len then a else page_mapping m p)\<rparr>)"
  using assms(2)
proof (induction "len - i" arbitrary: i m)
  case 0
  then have "(\<lambda>p. if pageId + i \<le> p \<and> p < pageId + len then a else page_mapping m p) = page_mapping m" by auto
  then show ?case using 0 by (subst map_loop.simps) simp
next
  case (Suc n)
  then have i: "i < len" by simp
  then have u: "u32 (pageId + i) = pageId + i" "pageId + i < PAGEMAPSIZE"
    using assms(1) by (simp_all add: PAGEMAPSIZE_def)
  let ?m = "m\<lparr>page_mapping := (page_mapping m)(pageId + i := a)\<rparr>"
  have "map_loop m a pageId len i = map_loop ?m a pageId len (Suc i)"
    using i u by (subst map_loop.simps) simp
  also have "\<dots> = Some (?m\<lparr>page_mapping := (\<lambda>p. if pageId + Suc i \<le> p \<and> p < pageId + len then a else page_mapping ?m p)\<rparr>)"
    using Suc.hyps(1) [of "Suc i" ?m] Suc.hyps(2) i by simp
  also have "(\<lambda>p. if pageId + Suc i \<le> p \<and> p < pageId + len then a else page_mapping ?m p) =
      (\<lambda>p. if pageId + i \<le> p \<and> p < pageId + len then a else page_mapping m p)"
    using i by (auto simp: fun_eq_iff)
  finally show ?case by simp
qed

lemma update_mapping_closed:
  assumes "spans m a = Some s" and "sp_pageId s + sp_pageSize s \<le> PAGEMAPSIZE"
  shows "\<exists>c. update_mapping m a = Some (m\<lparr>page_mapping :=
    (\<lambda>p. if sp_pageId s \<le> p \<and> p < sp_pageId s + sp_pageSize s then a else page_mapping m p), curr_index := c\<rparr>)"
  using assms map_loop_closed [of "sp_pageId s" "sp_pageSize s" 0 m a] by (simp add: update_mapping_def) blast

lemma first_list_cases:
  assumes "length (pg_list m) = PAGEHEAPSIZE"
  shows "(\<exists>i. first_list m (int k) = Some (Some i) \<and> k \<le> i \<and> i < PAGEHEAPSIZE \<and> pg_list m ! i \<noteq> 0) \<or>
    (first_list m (int k) = Some None \<and> (\<forall>i. k \<le> i \<and> i < PAGEHEAPSIZE \<longrightarrow> pg_list m ! i = 0))"
proof (induction "PAGEHEAPSIZE - k" arbitrary: k)
  case 0
  then have "first_list m (int k) = Some None" by (subst first_list.simps) simp
  then show ?case using 0 by auto
next
  case (Suc n)
  then have k: "k < PAGEHEAPSIZE" by simp
  have step: "first_list m (int k) = (if pg_list m ! k \<noteq> 0 then Some (Some k) else first_list m (int (Suc k)))"
    using k assms by (subst first_list.simps) (simp add: rd_Some add.commute)
  show ?case
  proof (cases "pg_list m ! k = 0")
    case True
    then have z: "\<forall>i. Suc k \<le> i \<and> i < PAGEHEAPSIZE \<longrightarrow> pg_list m ! i = 0 \<Longrightarrow>
        \<forall>i. k \<le> i \<and> i < PAGEHEAPSIZE \<longrightarrow> pg_list m ! i = 0"
      by (metis Suc_leI le_neq_implies_less)
    have n: "n = PAGEHEAPSIZE - Suc k" using Suc.hyps(2) by simp
    show ?thesis using Suc.hyps(1) [OF n] step True z Suc_leD by (auto simp del: of_nat_Suc)
  next
    case False
    then show ?thesis using step k by auto
  qed
qed

subsection \<open>Who owns which pages\<close>

text \<open>
  The role of a span struct: not in use, in a list of the page heap, the memory of the pool itself, handed out,
  or cut into objects of a size class; the flag says that it is parked in the list of spans without a free object.
\<close>

datatype role = Unused | Free | Meta | Held | Class nat bool

definition top_page :: "tcmem \<Rightarrow> nat" where
  "top_page m = (brk m - ini_brk_addr m) div 4096"

definition sys_ok :: "tcmem \<Rightarrow> bool" where
  "sys_ok m \<longleftrightarrow> 4096 dvd ini_brk_addr m \<and> 4096 dvd brk m \<and> 0 < ini_brk_addr m \<and> ini_brk_addr m \<le> brk m \<and>
     brk m < ini_brk_addr m + 2 ^ 35 \<and> brk m \<le> brk_max m \<and> brk_max m < 2 ^ 63 \<and>
     (\<forall>a. spans m a \<noteq> None \<longrightarrow> 0 < a \<and> a < brk m)"

definition pool_ok :: "(addr \<Rightarrow> role) \<Rightarrow> tcmem \<Rightarrow> bool" where
  "pool_ok R m \<longleftrightarrow> (\<exists>k. rem_bytes m = k * SPAN_BYTES \<and>
     (\<forall>i<k. spans m (get_span (chunk m) (curr_ind m + i)) = Some zero_span \<and>
        R (get_span (chunk m) (curr_ind m + i)) = Unused))"

definition span_ok :: "tcmem \<Rightarrow> addr \<Rightarrow> struct_Span \<Rightarrow> bool" where
  "span_ok m a s \<longleftrightarrow> 0 < sp_pageSize s \<and> sp_pageSize s \<le> 65536 \<and> sp_pageId s + sp_pageSize s \<le> top_page m \<and>
     (\<forall>p. sp_pageId s \<le> p \<and> p < sp_pageId s + sp_pageSize s \<longrightarrow> page_mapping m p = a)"

definition own_ok :: "(addr \<Rightarrow> role) \<Rightarrow> tcmem \<Rightarrow> bool" where
  "own_ok R m \<longleftrightarrow> (\<forall>a. R a \<noteq> Unused \<longrightarrow> (\<exists>s. spans m a = Some s \<and> span_ok m a s \<and>
     (R a \<noteq> Meta \<longrightarrow> sp_start s = ini_brk_addr m + sp_pageId s * 4096)))"

definition clean :: "struct_Span \<Rightarrow> bool" where
  "clean s \<longleftrightarrow> sp_objs s = 0 \<and> sp_obj_len s = 0 \<and> sp_objs_size s = 0 \<and> sp_refcount s = 0"

definition clean_ok :: "(addr \<Rightarrow> role) \<Rightarrow> tcmem \<Rightarrow> bool" where
  "clean_ok R m \<longleftrightarrow> (\<forall>a s. R a = Free \<or> R a = Held \<longrightarrow> spans m a = Some s \<longrightarrow> clean s)"

definition free_set :: "(addr \<Rightarrow> role) \<Rightarrow> (addr \<Rightarrow> struct_Span option) \<Rightarrow> nat \<Rightarrow> addr set" where
  "free_set R sp i = {a. R a = Free \<and> bucket (sp_pageSize (the (sp a))) = i}"

definition lists_ok :: "(addr \<Rightarrow> role) \<Rightarrow> tcmem \<Rightarrow> bool" where
  "lists_ok R m \<longleftrightarrow> length (pg_list m) = PAGEHEAPSIZE \<and>
     (\<forall>i<PAGEHEAPSIZE. (pg_list m ! i = 0 \<or> pg_list m ! i \<in> free_set R (spans m) i) \<and>
        ring_ok (spans m) (free_set R (spans m) i))"

definition pages_ok :: "(addr \<Rightarrow> role) \<Rightarrow> tcmem \<Rightarrow> bool" where
  "pages_ok R m \<longleftrightarrow> sys_ok m \<and> pool_ok R m \<and> own_ok R m \<and> clean_ok R m \<and> lists_ok R m"

text \<open>No page belongs to two spans.\<close>

lemma own_ok_disjoint:
  assumes "own_ok R m" and "R a \<noteq> Unused" and "R b \<noteq> Unused" and "spans m a = Some s" and "spans m b = Some t"
    and "sp_pageId s \<le> p" "p < sp_pageId s + sp_pageSize s" and "sp_pageId t \<le> p" "p < sp_pageId t + sp_pageSize t"
  shows "a = b"
  using assms unfolding own_ok_def span_ok_def by (metis option.inject)

subsection \<open>Pushing and removing keep the invariant of the lists\<close>

lemma bucket_less: "bucket n < PAGEHEAPSIZE"
  by (simp add: bucket_def PAGEHEAPSIZE_def)

lemma same_data_field:
  assumes "same_data sp sp'" and "sp a \<noteq> None"
  shows "unlinked (the (sp' a)) = unlinked (the (sp a))"
  using assms same_data_Some by fastforce

lemma free_set_same_data:
  assumes "same_data sp sp'" and "\<And>a. R a = Free \<Longrightarrow> sp a \<noteq> None"
  shows "free_set R sp' i = free_set R sp i"
proof -
  have "R a = Free \<Longrightarrow> sp_pageSize (the (sp' a)) = sp_pageSize (the (sp a))" for a
    using unlinked_eqD(7) [OF same_data_field [OF assms(1)]] assms(2) by blast
  then show ?thesis unfolding free_set_def by (intro Collect_cong) metis
qed

lemma lists_ok_dom:
  assumes "lists_ok R m" and "R a = Free"
  shows "spans m a \<noteq> None" "a \<noteq> 0"
proof -
  let ?i = "bucket (sp_pageSize (the (spans m a)))"
  have "a \<in> free_set R (spans m) ?i" using assms(2) by (simp add: free_set_def)
  moreover have "ring_ok (spans m) (free_set R (spans m) ?i)"
    using assms(1) bucket_less by (simp add: lists_ok_def)
  ultimately show "spans m a \<noteq> None" "a \<noteq> 0" using ring_okD(5,6) by blast+
qed

lemma lists_push:
  assumes L: "lists_ok R m" and x: "R x = Unused" "spans m x = Some s" "x \<noteq> 0"
  shows "\<exists>l sp. spanlist_push m (PageList (bucket (sp_pageSize s))) x = Some (m\<lparr>pg_list := l, spans := sp\<rparr>) \<and>
    lists_ok (R(x := Free)) (m\<lparr>pg_list := l, spans := sp\<rparr>) \<and> same_data (spans m) sp \<and>
    (\<forall>a. a \<noteq> x \<and> R a \<noteq> Free \<longrightarrow> sp a = spans m a) \<and> l = (pg_list m)[bucket (sp_pageSize s) := x]"
proof -
  let ?S = "spans m" and ?i = "bucket (sp_pageSize s)"
  let ?D = "free_set R ?S ?i"
  have i: "?i < PAGEHEAPSIZE" by (rule bucket_less)
  have len: "length (pg_list m) = PAGEHEAPSIZE" using L by (simp add: lists_ok_def)
  have D: "ring_ok ?S ?D" "pg_list m ! ?i = 0 \<or> pg_list m ! ?i \<in> ?D" using L i by (simp_all add: lists_ok_def)
  have "x \<notin> ?D" using x(1) by (simp add: free_set_def)
  then obtain sp where sp: "spanlist_push m (PageList ?i) x = Some ((set_head m (PageList ?i) x)\<lparr>spans := sp\<rparr>)"
      "ring_ok sp (insert x ?D)" "same_data ?S sp" "\<forall>a. a \<notin> insert x ?D \<longrightarrow> sp a = ?S a"
    using spanlist_push_ring [OF D(1), of x "PageList ?i"] x D(2) i len by auto
  let ?l = "(pg_list m)[?i := x]"
  have sx: "sp_pageSize (the (sp x)) = sp_pageSize s"
    using same_data_field [OF sp(3)] x(2) unlinked_eqD(7) by (metis option.sel option.distinct(1))
  have set: "free_set (R(x := Free)) sp j = (if j = ?i then insert x ?D else free_set R ?S j)" for j
  proof -
    have "free_set R sp j = free_set R ?S j"
      using sp(3) lists_ok_dom(1) [OF L] by (rule free_set_same_data)
    moreover have "free_set (R(x := Free)) sp j = (if j = ?i then insert x (free_set R sp j) else free_set R sp j)"
      using x(1) sx by (auto simp: free_set_def)
    ultimately show ?thesis by (cases "j = ?i") simp_all
  qed
  have "ring_ok sp (free_set R ?S j)" if j: "j < PAGEHEAPSIZE" "j \<noteq> ?i" for j
  proof -
    have "ring_ok ?S (free_set R ?S j)" using L j by (simp add: lists_ok_def)
    moreover have "a \<notin> insert x ?D" if "a \<in> free_set R ?S j" for a
      using that j(2) x(1) by (auto simp: free_set_def)
    then have "\<And>a. a \<in> free_set R ?S j \<Longrightarrow> sp a = ?S a" using sp(4) by blast
    ultimately show ?thesis by (subst ring_ok_cong [of _ _ ?S]) auto
  qed
  then have "lists_ok (R(x := Free)) (m\<lparr>pg_list := ?l, spans := sp\<rparr>)"
    using L sp(2) i len by (auto simp: lists_ok_def set nth_list_update)
  moreover have "\<forall>a. a \<noteq> x \<and> R a \<noteq> Free \<longrightarrow> sp a = ?S a" using sp(4) by (auto simp: free_set_def)
  ultimately show ?thesis using sp(1,3) by auto
qed

lemma lists_remove:
  assumes L: "lists_ok R m" and x: "R x = Free" "spans m x = Some s" "bucket (sp_pageSize s) = i"
  shows "\<exists>l sp. remove_span m (PageList i) x = Some (m\<lparr>pg_list := l, spans := sp\<rparr>) \<and>
    lists_ok (R(x := Unused)) (m\<lparr>pg_list := l, spans := sp\<rparr>) \<and> same_data (spans m) sp \<and>
    (\<forall>a. R a \<noteq> Free \<longrightarrow> sp a = spans m a) \<and> (\<exists>h. l = (pg_list m)[i := h])"
proof -
  let ?S = "spans m"
  let ?D = "free_set R ?S i"
  have i: "i < PAGEHEAPSIZE" using x(3) bucket_less by blast
  have len: "length (pg_list m) = PAGEHEAPSIZE" using L by (simp add: lists_ok_def)
  have D: "ring_ok ?S ?D" "pg_list m ! i = 0 \<or> pg_list m ! i \<in> ?D" using L i by (simp_all add: lists_ok_def)
  have xD: "x \<in> ?D" using x by (simp add: free_set_def)
  obtain sp h where sp: "remove_span m (PageList i) x = Some ((set_head m (PageList i) h)\<lparr>spans := sp\<rparr>)"
      "if head_of m (PageList i) = x then h = 0 \<or> h \<in> ?D - {x} else h = head_of m (PageList i)"
      "ring_ok sp (?D - {x})" "same_data ?S sp" "\<forall>a. a \<notin> ?D \<longrightarrow> sp a = ?S a"
    using remove_span_ring [OF D(1) xD, of "PageList i"] i len by force
  have h: "h = 0 \<or> h \<in> ?D - {x}" using sp(2) D(2) by (auto split: if_splits)
  let ?l = "(pg_list m)[i := h]"
  have set: "free_set (R(x := Unused)) sp j = (if j = i then ?D - {x} else free_set R ?S j)" for j
  proof -
    have "free_set R sp j = free_set R ?S j"
      using sp(4) lists_ok_dom(1) [OF L] by (rule free_set_same_data)
    moreover have "free_set (R(x := Unused)) sp j = free_set R sp j - {x}" by (auto simp: free_set_def)
    moreover have "j \<noteq> i \<Longrightarrow> x \<notin> free_set R ?S j" using x by (simp add: free_set_def)
    ultimately show ?thesis by auto
  qed
  have "ring_ok sp (free_set R ?S j)" if j: "j < PAGEHEAPSIZE" "j \<noteq> i" for j
  proof -
    have "ring_ok ?S (free_set R ?S j)" using L j by (simp add: lists_ok_def)
    moreover have "\<And>a. a \<in> free_set R ?S j \<Longrightarrow> sp a = ?S a"
      using sp(5) j(2) by (auto simp: free_set_def)
    ultimately show ?thesis by (subst ring_ok_cong [of _ _ ?S]) auto
  qed
  then have "lists_ok (R(x := Unused)) (m\<lparr>pg_list := ?l, spans := sp\<rparr>)"
    using L h sp(3) i len by (auto simp: lists_ok_def set nth_list_update)
  moreover have "\<forall>a. R a \<noteq> Free \<longrightarrow> sp a = ?S a" using sp(5) by (auto simp: free_set_def)
  ultimately show ?thesis using sp(1,4) by auto
qed

subsection \<open>Changing span structs and the page map\<close>

definition room :: "tcmem \<Rightarrow> nat \<Rightarrow> bool" where
  "room m n \<longleftrightarrow> brk m + n \<le> brk_max m \<and> brk m + n < ini_brk_addr m + 2 ^ 35"

text \<open>What the page heap leaves alone.\<close>

definition same_rest :: "tcmem \<Rightarrow> tcmem \<Rightarrow> bool" where
  "same_rest m m' \<longleftrightarrow> ini_brk_addr m' = ini_brk_addr m \<and> brk_max m' = brk_max m \<and> central m' = central m \<and>
     idle m' = idle m \<and> link m' = link m \<and> caches m' = caches m \<and> brk m \<le> brk m'"

lemma same_rest_refl [simp]: "same_rest m m"
  by (simp add: same_rest_def)

lemma same_rest_trans: "same_rest m m' \<Longrightarrow> same_rest m' m'' \<Longrightarrow> same_rest m m''"
  by (auto simp: same_rest_def)

definition off_pool :: "tcmem \<Rightarrow> addr \<Rightarrow> bool" where
  "off_pool m x \<longleftrightarrow> (\<forall>i. i * SPAN_BYTES < rem_bytes m \<longrightarrow> get_span (chunk m) (curr_ind m + i) \<noteq> x)"

lemma pages_okD:
  assumes "pages_ok R m"
  shows "sys_ok m" "pool_ok R m" "own_ok R m" "clean_ok R m" "lists_ok R m"
  using assms by (simp_all add: pages_ok_def)

lemma lists_ok_cong:
  assumes L: "lists_ok R m" and eq: "\<And>a. R a = Free \<Longrightarrow> sp a = spans m a"
  shows "lists_ok R (m\<lparr>spans := sp\<rparr>)"
proof -
  have set: "free_set R sp i = free_set R (spans m) i" for i using eq by (auto simp: free_set_def)
  have "ring_ok sp (free_set R (spans m) i) = ring_ok (spans m) (free_set R (spans m) i)" for i
    using eq by (intro ring_ok_cong) (simp add: free_set_def)
  then show ?thesis using L by (simp add: lists_ok_def set)
qed

lemma pages_ok_spans_cong:
  assumes P: "pages_ok R m" and eq: "\<And>a. R a \<noteq> Unused \<Longrightarrow> sp a = spans m a"
    and dom: "\<And>a. sp a = None \<longleftrightarrow> spans m a = None"
    and pool: "\<And>i. i * SPAN_BYTES < rem_bytes m \<Longrightarrow>
      sp (get_span (chunk m) (curr_ind m + i)) = spans m (get_span (chunk m) (curr_ind m + i))"
  shows "pages_ok R (m\<lparr>spans := sp\<rparr>)"
proof -
  note P' = pages_okD [OF P]
  have "sys_ok (m\<lparr>spans := sp\<rparr>)" using P'(1) dom by (simp add: sys_ok_def)
  moreover have "pool_ok R (m\<lparr>spans := sp\<rparr>)"
  proof -
    obtain k where "rem_bytes m = k * SPAN_BYTES"
        "\<forall>i<k. spans m (get_span (chunk m) (curr_ind m + i)) = Some zero_span \<and> R (get_span (chunk m) (curr_ind m + i)) = Unused"
      using P'(2) by (auto simp: pool_ok_def)
    then show ?thesis using pool unfolding pool_ok_def by (intro exI [of _ k]) (simp add: SPAN_BYTES_def)
  qed
  moreover have "own_ok R (m\<lparr>spans := sp\<rparr>)" using P'(3) eq by (simp add: own_ok_def span_ok_def top_page_def)
  moreover have "clean_ok R (m\<lparr>spans := sp\<rparr>)" using P'(4) eq by (simp add: clean_ok_def)
  moreover have "lists_ok R (m\<lparr>spans := sp\<rparr>)" using P'(5) eq by (intro lists_ok_cong) simp_all
  ultimately show ?thesis by (simp add: pages_ok_def)
qed

lemma pages_ok_upd_unused:
  assumes "pages_ok R m" and "R x = Unused" and "off_pool m x"
  shows "pages_ok R (m\<lparr>spans := upd (spans m) x f\<rparr>)"
  using assms by (intro pages_ok_spans_cong) (auto simp: upd_apply off_pool_def)

text \<open>The pages of one span are written into the page map.\<close>

lemma own_ok_claim:
  assumes own: "own_ok R m" and x: "spans m x = Some s" "0 < sp_pageSize s" "sp_pageSize s \<le> 65536"
      "sp_pageId s + sp_pageSize s \<le> top_page m" "r \<noteq> Meta \<longrightarrow> sp_start s = ini_brk_addr m + sp_pageId s * 4096"
    and disj: "\<And>b t. b \<noteq> x \<Longrightarrow> R b \<noteq> Unused \<Longrightarrow> spans m b = Some t \<Longrightarrow>
      sp_pageId t + sp_pageSize t \<le> sp_pageId s \<or> sp_pageId s + sp_pageSize s \<le> sp_pageId t"
  shows "own_ok (R(x := r)) (m\<lparr>page_mapping :=
    (\<lambda>p. if sp_pageId s \<le> p \<and> p < sp_pageId s + sp_pageSize s then x else page_mapping m p), curr_index := c\<rparr>)"
    (is "own_ok _ ?m")
  unfolding own_ok_def
proof (intro allI impI)
  fix b assume b: "(R(x := r)) b \<noteq> Unused"
  show "\<exists>t. spans ?m b = Some t \<and> span_ok ?m b t \<and>
      ((R(x := r)) b \<noteq> Meta \<longrightarrow> sp_start t = ini_brk_addr ?m + sp_pageId t * 4096)"
  proof (cases "b = x")
    case True
    then show ?thesis using x by (simp add: span_ok_def top_page_def)
  next
    case False
    then have Rb: "R b \<noteq> Unused" using b by simp
    then obtain t where t: "spans m b = Some t" "span_ok m b t" "R b \<noteq> Meta \<longrightarrow> sp_start t = ini_brk_addr m + sp_pageId t * 4096"
      using own by (auto simp: own_ok_def)
    have "\<not> (sp_pageId s \<le> p \<and> p < sp_pageId s + sp_pageSize s)"
      if "sp_pageId t \<le> p" "p < sp_pageId t + sp_pageSize t" for p
      using disj [OF False Rb t(1)] that by linarith
    then have "span_ok ?m b t" using t(2) by (auto simp: span_ok_def top_page_def)
    then show ?thesis using t False by simp
  qed
qed

lemma own_ok_mono:
  assumes own: "own_ok R m" and data: "same_data (spans m) (spans m')" and "page_mapping m' = page_mapping m"
    and "ini_brk_addr m' = ini_brk_addr m" and "brk m \<le> brk m'"
    and R: "\<And>a. R' a \<noteq> Unused \<Longrightarrow> R a \<noteq> Unused \<and> (R a = Meta \<longrightarrow> R' a = Meta)"
  shows "own_ok R' m'"
  unfolding own_ok_def
proof (intro allI impI)
  fix a assume a: "R' a \<noteq> Unused"
  then obtain s where s: "spans m a = Some s" "span_ok m a s" "R a \<noteq> Meta \<longrightarrow> sp_start s = ini_brk_addr m + sp_pageId s * 4096"
    using own R unfolding own_ok_def by blast
  obtain s' where s': "spans m' a = Some s'" "unlinked s' = unlinked s" using same_data_Some [OF data s(1)] by blast
  have "top_page m \<le> top_page m'" using assms(4,5) by (simp add: top_page_def div_le_mono)
  then have "span_ok m' a s'" using s(2) unlinked_eqD [OF s'(2)] assms(3) by (simp add: span_ok_def)
  then show "\<exists>s. spans m' a = Some s \<and> span_ok m' a s \<and> (R' a \<noteq> Meta \<longrightarrow> sp_start s = ini_brk_addr m' + sp_pageId s * 4096)"
    using s'(1) s(3) unlinked_eqD [OF s'(2)] assms(4) R [OF a] by auto
qed

lemma clean_ok_mono:
  assumes "clean_ok R m" and "same_data (spans m) (spans m')"
    and "\<And>a. R' a = Free \<or> R' a = Held \<Longrightarrow> R a = Free \<or> R a = Held"
  shows "clean_ok R' m'"
  unfolding clean_ok_def
proof (intro allI impI)
  fix a s' assume a: "R' a = Free \<or> R' a = Held" "spans m' a = Some s'"
  then obtain s where s: "spans m a = Some s" using same_data_None [OF assms(2), of a] by auto
  then have "unlinked s' = unlinked s" using same_data_Some [OF assms(2)] a(2) by fastforce
  then show "clean s'" using assms(1,3) a(1) s unlinked_eqD unfolding clean_ok_def clean_def by metis
qed

subsection \<open>Span structs from the pool\<close>

definition POOL_BYTES :: nat where "POOL_BYTES = SPANPOOLSIZE * 4096"

lemma pool_numbers: "POOL_BYTES = 5898240" "SPANPOOLSIZE = 1440" "SPAN_BYTES = 64" "POOL_BYTES = 92160 * SPAN_BYTES"
  by (simp_all add: POOL_BYTES_def SPANPOOLSIZE_def SPAN_BYTES_def)

lemma addr_to_index_page:
  assumes "sys_ok m" and "ini_brk_addr m \<le> a" and "a \<le> brk m"
  shows "addr_to_index a (ini_brk_addr m) = (a - ini_brk_addr m) div 4096"
proof -
  obtain k where k: "ini_brk_addr m = 4096 * k" using assms(1) by (auto simp: sys_ok_def elim: dvdE)
  then obtain d where d: "a = 4096 * k + d" using assms(2) le_Suc_ex by metis
  have "a < 2 ^ 63" using assms by (simp add: sys_ok_def)
  then show ?thesis by (simp add: addr_to_index_def k d size_sub_le)
qed

lemma top_page:
  assumes "sys_ok m"
  shows "brk m = ini_brk_addr m + top_page m * 4096" "addr_to_index (brk m) (ini_brk_addr m) = top_page m" "top_page m < PAGEMAPSIZE"
proof -
  have "4096 dvd brk m - ini_brk_addr m" using assms by (auto simp: sys_ok_def intro: dvd_diff_nat)
  then show "brk m = ini_brk_addr m + top_page m * 4096" using assms by (simp add: top_page_def sys_ok_def)
  then show "top_page m < PAGEMAPSIZE" using assms by (simp add: sys_ok_def PAGEMAPSIZE_def)
  show "addr_to_index (brk m) (ini_brk_addr m) = top_page m"
    using assms by (simp add: addr_to_index_page sys_ok_def top_page_def)
qed

definition meta_of :: "tcmem \<Rightarrow> struct_Span" where
  "meta_of m = zero_span\<lparr>sp_pageId := top_page m, sp_pageSize := SPANPOOLSIZE\<rparr>"

lemma new_chunk_ok:
  assumes sys: "sys_ok m" and room: "room m POOL_BYTES"
  shows "\<exists>c. new_chunk m = Some (m\<lparr>brk := brk m + POOL_BYTES, curr_ind := 0, rem_bytes := POOL_BYTES, chunk := brk m,
    spans := (spans (clear_chunk m (brk m) POOL_BYTES))(brk m \<mapsto> meta_of m),
    page_mapping := (\<lambda>p. if top_page m \<le> p \<and> p < top_page m + SPANPOOLSIZE then brk m else page_mapping m p), curr_index := c\<rparr>)"
proof -
  have fail: "brk m \<noteq> SBRK_FAILED" using sys by (simp add: sys_ok_def SBRK_FAILED_def)
  have bytes: "SPANPOOLSIZE * 4096 = POOL_BYTES" by (simp add: POOL_BYTES_def)
  have s: "sbrk m POOL_BYTES = (brk m, m\<lparr>brk := brk m + POOL_BYTES\<rparr>)" using room by (simp add: sbrk_def room_def)
  have b: "brk m + POOL_BYTES < ini_brk_addr m + 4096 * PAGEMAPSIZE" using room by (simp add: room_def PAGEMAPSIZE_def)
  have t: "top_page m + SPANPOOLSIZE \<le> PAGEMAPSIZE"
    using b top_page(1) [OF sys] by (simp add: pool_numbers)
  then have u: "u32 (top_page m) = top_page m" by (simp add: PAGEMAPSIZE_def)
  let ?m2 = "clear_chunk (m\<lparr>brk := brk m + POOL_BYTES, curr_ind := 0, rem_bytes := POOL_BYTES, chunk := brk m\<rparr>) (brk m) POOL_BYTES"
  have z: "spans ?m2 (brk m) = Some zero_span" by (simp add: clear_chunk_def pool_numbers)
  let ?m3 = "?m2\<lparr>spans := (spans ?m2)(brk m \<mapsto> meta_of m)\<rparr>"
  have up: "upd_span ?m2 (brk m) (\<lambda>s. s\<lparr>sp_pageId := u32 (top_page m), sp_pageSize := SPANPOOLSIZE\<rparr>) = Some ?m3"
    using z u by (simp add: upd_span_def meta_of_def)
  obtain c where c: "update_mapping ?m3 (brk m) = Some (?m3\<lparr>page_mapping :=
      (\<lambda>p. if top_page m \<le> p \<and> p < top_page m + SPANPOOLSIZE then brk m else page_mapping ?m3 p), curr_index := c\<rparr>)"
    using update_mapping_closed [of ?m3 "brk m" "meta_of m"] t by (auto simp: meta_of_def)
  have "new_chunk m = update_mapping ?m3 (brk m)"
    using fail s up top_page(2) [OF sys] by (simp add: new_chunk_def Let_def bytes get_span_def)
  then show ?thesis using c by (simp add: clear_chunk_def cong: if_cong) blast
qed

lemma own_ok_new_pages:
  assumes P: "pages_ok R m" and b: "R b \<noteq> Unused" "spans m b = Some t"
  shows "sp_pageId t + sp_pageSize t \<le> top_page m"
  using assms by (auto simp: pages_ok_def own_ok_def span_ok_def)

lemma role_dom:
  assumes "pages_ok R m" and "R a \<noteq> Unused"
  shows "spans m a \<noteq> None" "0 < a" "a < brk m"
proof -
  show "spans m a \<noteq> None" using assms by (auto simp: pages_ok_def own_ok_def)
  then show "0 < a" "a < brk m" using assms(1) by (auto simp: pages_ok_def sys_ok_def)
qed

lemma new_chunk_pages:
  assumes P: "pages_ok R m" and room: "room m POOL_BYTES"
  shows "\<exists>m1. new_chunk m = Some m1 \<and> rem_bytes m1 = POOL_BYTES \<and> curr_ind m1 = 0 \<and>
    pages_ok (R(brk m := Meta)) (m1\<lparr>rem_bytes := POOL_BYTES - SPAN_BYTES, curr_ind := 1\<rparr>) \<and>
    R (brk m) = Unused \<and> same_rest m m1 \<and> pg_list m1 = pg_list m \<and> brk m1 = brk m + POOL_BYTES \<and>
    (\<forall>a. R a \<noteq> Unused \<longrightarrow> spans m1 a = spans m a) \<and>
    sp_pageId (the (spans m1 (brk m))) = top_page m"
proof -
  note P' = pages_okD [OF P]
  let ?b = "brk m" and ?R = "R(brk m := Meta)"
  obtain c where c: "new_chunk m = Some (m\<lparr>brk := ?b + POOL_BYTES, curr_ind := 0, rem_bytes := POOL_BYTES, chunk := ?b,
    spans := (spans (clear_chunk m ?b POOL_BYTES))(?b \<mapsto> meta_of m),
    page_mapping := (\<lambda>p. if top_page m \<le> p \<and> p < top_page m + SPANPOOLSIZE then ?b else page_mapping m p), curr_index := c\<rparr>)"
    (is "_ = Some ?m1") using new_chunk_ok [OF P'(1) room] by blast
  let ?m2 = "?m1\<lparr>rem_bytes := POOL_BYTES - SPAN_BYTES, curr_ind := 1\<rparr>"
  have unused: "R a = Unused" if "?b \<le> a" for a using role_dom(3) [OF P, of a] that by (metis not_le)
  have old: "spans ?m1 a = spans m a" if "R a \<noteq> Unused" for a
    using unused [of a] that by (auto simp: clear_chunk_def)
  have b0: "0 < ?b" "4096 dvd ?b" using P'(1) by (auto simp: sys_ok_def)
  have sys: "sys_ok ?m2"
    using P'(1) room b0 by (auto simp: sys_ok_def room_def clear_chunk_def pool_numbers)
  have slot: "get_span ?b (Suc i) \<noteq> ?b" "?b \<le> get_span ?b (Suc i)"
    "i < 92159 \<Longrightarrow> get_span ?b (Suc i) < ?b + POOL_BYTES" "SPAN_BYTES dvd get_span ?b (Suc i) - ?b" for i
    by (simp_all add: get_span_def pool_numbers)
  have "spans ?m2 (get_span (chunk ?m2) (curr_ind ?m2 + i)) = Some zero_span \<and> ?R (get_span (chunk ?m2) (curr_ind ?m2 + i)) = Unused"
    if "i < 92159" for i
    using slot(1,2,4) slot(3) [OF that] unused by (simp add: clear_chunk_def)
  then have pool: "pool_ok ?R ?m2" unfolding pool_ok_def by (intro exI [of _ 92159]) (simp add: pool_numbers)
  let ?m0 = "?m1\<lparr>page_mapping := page_mapping m, curr_index := curr_index m\<rparr>"
  have tp: "top_page ?m0 = top_page m + SPANPOOLSIZE"
    using top_page(1) [OF P'(1)] by (simp add: top_page_def pool_numbers)
  have own0: "own_ok R ?m0"
    unfolding own_ok_def
  proof (intro allI impI)
    fix a assume a: "R a \<noteq> Unused"
    then obtain s where s: "spans m a = Some s" "span_ok m a s" "R a \<noteq> Meta \<longrightarrow> sp_start s = ini_brk_addr m + sp_pageId s * 4096"
      using P'(3) by (auto simp: own_ok_def)
    then have "span_ok ?m0 a s" using tp by (simp add: span_ok_def)
    then show "\<exists>s. spans ?m0 a = Some s \<and> span_ok ?m0 a s \<and> (R a \<noteq> Meta \<longrightarrow> sp_start s = ini_brk_addr ?m0 + sp_pageId s * 4096)"
      using s old [OF a] by simp
  qed
  have "own_ok ?R (?m0\<lparr>page_mapping := (\<lambda>p. if sp_pageId (meta_of m) \<le> p \<and> p < sp_pageId (meta_of m) + sp_pageSize (meta_of m)
      then ?b else page_mapping ?m0 p), curr_index := c\<rparr>)"
  proof (rule own_ok_claim [OF own0])
    fix b t assume b: "b \<noteq> ?b" "R b \<noteq> Unused" "spans ?m0 b = Some t"
    then have "spans m b = Some t" using old [of b] by simp
    then show "sp_pageId t + sp_pageSize t \<le> sp_pageId (meta_of m) \<or> sp_pageId (meta_of m) + sp_pageSize (meta_of m) \<le> sp_pageId t"
      using own_ok_new_pages [OF P b(2)] by (simp add: meta_of_def)
  qed (use tp in \<open>simp_all add: meta_of_def pool_numbers\<close>)
  then have own: "own_ok ?R ?m2"
    by (simp add: own_ok_def span_ok_def top_page_def meta_of_def cong: if_cong)
  have clean: "clean_ok ?R ?m2"
    unfolding clean_ok_def
  proof (intro allI impI)
    fix a s assume a: "?R a = Free \<or> ?R a = Held" "spans ?m2 a = Some s"
    then have "R a = Free \<or> R a = Held" by (auto split: if_splits)
    then show "clean s" using P'(4) old [of a] a(2) by (auto simp: clean_ok_def)
  qed
  have "lists_ok R (m\<lparr>spans := spans ?m1\<rparr>)" using P'(5) old by (intro lists_ok_cong) simp_all
  moreover have "free_set ?R sp i = free_set R sp i" for sp i using unused [of ?b] by (auto simp: free_set_def)
  ultimately have lists: "lists_ok ?R ?m2" by (simp add: lists_ok_def)
  have rest: "same_rest m ?m1" "pg_list ?m1 = pg_list m" "brk ?m1 = ?b + POOL_BYTES" "rem_bytes ?m1 = POOL_BYTES" "curr_ind ?m1 = 0"
    "sp_pageId (the (spans ?m1 ?b)) = top_page m"
    by (simp_all add: same_rest_def meta_of_def)
  have ok: "pages_ok ?R ?m2" unfolding pages_ok_def using sys pool own clean lists by blast
  have "\<forall>a. R a \<noteq> Unused \<longrightarrow> spans ?m1 a = spans m a" using old by blast
  with c rest ok unused [OF order_refl] show ?thesis by blast
qed

lemma take_slot:
  assumes P: "pages_ok R m" and r: "SPAN_BYTES \<le> rem_bytes m"
  shows "pages_ok R (m\<lparr>rem_bytes := rem_bytes m - SPAN_BYTES, curr_ind := curr_ind m + 1\<rparr>)" (is "pages_ok R ?m")
    and "R (get_span (chunk m) (curr_ind m)) = Unused" "spans m (get_span (chunk m) (curr_ind m)) = Some zero_span"
    and "off_pool (m\<lparr>rem_bytes := rem_bytes m - SPAN_BYTES, curr_ind := curr_ind m + 1\<rparr>) (get_span (chunk m) (curr_ind m))"
proof -
  note P' = pages_okD [OF P]
  obtain k where k: "rem_bytes m = k * SPAN_BYTES"
      "\<forall>i<k. spans m (get_span (chunk m) (curr_ind m + i)) = Some zero_span \<and> R (get_span (chunk m) (curr_ind m + i)) = Unused"
    using P'(2) by (auto simp: pool_ok_def)
  have k0: "0 < k" using r k(1) by (cases k) (simp_all add: pool_numbers)
  then show "R (get_span (chunk m) (curr_ind m)) = Unused" "spans m (get_span (chunk m) (curr_ind m)) = Some zero_span"
    using k(2) [THEN spec, of 0] by simp_all
  show "off_pool ?m (get_span (chunk m) (curr_ind m))"
    by (simp add: off_pool_def get_span_def pool_numbers)
  have "rem_bytes ?m = (k - 1) * SPAN_BYTES" using k(1) k0 by (simp add: diff_mult_distrib)
  moreover have "spans m (get_span (chunk m) (curr_ind m + Suc i)) = Some zero_span \<and>
      R (get_span (chunk m) (curr_ind m + Suc i)) = Unused" if "i < k - 1" for i
    using k(2) [THEN spec, of "Suc i"] that by simp
  ultimately have "pool_ok R ?m" unfolding pool_ok_def by (intro exI [of _ "k - 1"]) simp
  then show "pages_ok R ?m"
    using P' by (simp add: pages_ok_def sys_ok_def own_ok_def span_ok_def top_page_def clean_ok_def lists_ok_def)
qed

definition fresh_span :: "tcmem \<Rightarrow> nat \<Rightarrow> addr \<Rightarrow> addr \<Rightarrow> struct_Span" where
  "fresh_span m n ptr x = zero_span\<lparr>sp_pageSize := u32 n,
     sp_pageId := (if ptr \<noteq> 0 then u32 (addr_to_index ptr (ini_brk_addr m)) else 0), sp_next := x, sp_prev := x\<rparr>"

text \<open>
  A span struct from the pool: it was not in use, and the spans in use stay as they are. There may be one more of
  them, for the memory of a new chunk, which lies in pages that belonged to nobody.
\<close>

lemma alloc_span_ok:
  assumes P: "pages_ok R m" and room: "room m POOL_BYTES"
  shows "\<exists>x m' R'. alloc_span m n ptr = Some (x, m') \<and> pages_ok R' m' \<and> R' x = Unused \<and> R x = Unused \<and> x \<noteq> 0 \<and>
    spans m' x = Some (fresh_span m n ptr x) \<and> off_pool m' x \<and>
    (\<forall>a. R a \<noteq> Unused \<longrightarrow> R' a = R a \<and> spans m' a = spans m a) \<and>
    (\<forall>a. R a = Unused \<and> R' a \<noteq> Unused \<longrightarrow> R' a = Meta \<and> top_page m \<le> sp_pageId (the (spans m' a))) \<and>
    pg_list m' = pg_list m \<and> same_rest m m' \<and> brk m' \<le> brk m + POOL_BYTES"
proof -
  have "\<exists>x m2 R'. (if rem_bytes m < SPAN_BYTES
      then do { m1 \<leftarrow> new_chunk m; Some (get_span (chunk m1) 1, m1\<lparr>rem_bytes := rem_bytes m1 - 2 * SPAN_BYTES, curr_ind := curr_ind m1 + 2\<rparr>) }
      else Some (get_span (chunk m) (curr_ind m), m\<lparr>rem_bytes := rem_bytes m - SPAN_BYTES, curr_ind := curr_ind m + 1\<rparr>)) = Some (x, m2) \<and>
    pages_ok R' m2 \<and> R' x = Unused \<and> R x = Unused \<and> spans m2 x = Some zero_span \<and> off_pool m2 x \<and>
    (\<forall>a. R a \<noteq> Unused \<longrightarrow> R' a = R a \<and> spans m2 a = spans m a) \<and>
    (\<forall>a. R a = Unused \<and> R' a \<noteq> Unused \<longrightarrow> R' a = Meta \<and> top_page m \<le> sp_pageId (the (spans m2 a))) \<and>
    pg_list m2 = pg_list m \<and> same_rest m m2 \<and> brk m2 \<le> brk m + POOL_BYTES"
  proof (cases "rem_bytes m < SPAN_BYTES")
    case True
    obtain m1 where m1: "new_chunk m = Some m1" "rem_bytes m1 = POOL_BYTES" "curr_ind m1 = 0"
        "pages_ok (R(brk m := Meta)) (m1\<lparr>rem_bytes := POOL_BYTES - SPAN_BYTES, curr_ind := 1\<rparr>)"
        "R (brk m) = Unused" "same_rest m m1" "pg_list m1 = pg_list m" "brk m1 = brk m + POOL_BYTES"
        "\<forall>a. R a \<noteq> Unused \<longrightarrow> spans m1 a = spans m a" "sp_pageId (the (spans m1 (brk m))) = top_page m"
      using new_chunk_pages [OF P room] by blast
    let ?m1 = "m1\<lparr>rem_bytes := POOL_BYTES - SPAN_BYTES, curr_ind := 1\<rparr>"
    have b: "SPAN_BYTES \<le> rem_bytes ?m1" by (simp add: pool_numbers)
    have n: "POOL_BYTES - SPAN_BYTES - SPAN_BYTES = rem_bytes m1 - 2 * SPAN_BYTES" "Suc 1 = curr_ind m1 + 2"
      using m1(2,3) by (simp_all add: pool_numbers)
    have eq: "?m1\<lparr>rem_bytes := rem_bytes ?m1 - SPAN_BYTES, curr_ind := curr_ind ?m1 + 1\<rparr> =
        m1\<lparr>rem_bytes := rem_bytes m1 - 2 * SPAN_BYTES, curr_ind := curr_ind m1 + 2\<rparr>"
      using n by simp
    let ?x = "get_span (chunk m1) 1"
    note slot = take_slot [OF m1(4) b, unfolded eq, simplified]
    have "R ?x = Unused" using slot(2) m1(5) by (auto split: if_splits)
    moreover have "same_rest m (m1\<lparr>rem_bytes := rem_bytes m1 - 2 * SPAN_BYTES, curr_ind := curr_ind m1 + 2\<rparr>)"
      using m1(6) by (simp add: same_rest_def)
    ultimately show ?thesis
      using True m1 slot
      by (intro exI [of _ ?x] exI [of _ "m1\<lparr>rem_bytes := rem_bytes m1 - 2 * SPAN_BYTES, curr_ind := curr_ind m1 + 2\<rparr>"]
          exI [of _ "R(brk m := Meta)"]) simp
  next
    case False
    let ?m2 = "m\<lparr>rem_bytes := rem_bytes m - SPAN_BYTES, curr_ind := curr_ind m + 1\<rparr>"
    have "same_rest m ?m2" by (simp add: same_rest_def)
    then show ?thesis using False take_slot [OF P]
      by (intro exI [of _ "get_span (chunk m) (curr_ind m)"] exI [of _ ?m2] exI [of _ R]) simp
  qed
  then obtain x m2 R' where x: "(if rem_bytes m < SPAN_BYTES
      then do { m1 \<leftarrow> new_chunk m; Some (get_span (chunk m1) 1, m1\<lparr>rem_bytes := rem_bytes m1 - 2 * SPAN_BYTES, curr_ind := curr_ind m1 + 2\<rparr>) }
      else Some (get_span (chunk m) (curr_ind m), m\<lparr>rem_bytes := rem_bytes m - SPAN_BYTES, curr_ind := curr_ind m + 1\<rparr>)) = Some (x, m2)"
    and ok: "pages_ok R' m2" "R' x = Unused" "R x = Unused" "spans m2 x = Some zero_span" "off_pool m2 x"
      "\<forall>a. R a \<noteq> Unused \<longrightarrow> R' a = R a \<and> spans m2 a = spans m a"
      "\<forall>a. R a = Unused \<and> R' a \<noteq> Unused \<longrightarrow> R' a = Meta \<and> top_page m \<le> sp_pageId (the (spans m2 a))"
      "pg_list m2 = pg_list m" "same_rest m m2" "brk m2 \<le> brk m + POOL_BYTES" by blast
  let ?f = "\<lambda>s. s\<lparr>sp_pageSize := u32 n, sp_pageId := (if ptr \<noteq> 0 then u32 (addr_to_index ptr (ini_brk_addr m)) else sp_pageId s),
    sp_next := x, sp_prev := x\<rparr>"
  let ?m3 = "m2\<lparr>spans := upd (spans m2) x ?f\<rparr>"
  have "alloc_span m n ptr = Some (x, ?m3)" unfolding alloc_span_def x using ok(4) by (simp add: upd_span_eq)
  moreover have "pages_ok R' ?m3" using ok(1,2,5) by (rule pages_ok_upd_unused)
  moreover have "spans ?m3 x = Some (fresh_span m n ptr x)" using ok(4) by (simp add: upd_apply fresh_span_def zero_span_def)
  moreover have "x \<noteq> 0" using pages_okD(1) [OF ok(1)] ok(4) by (auto simp: sys_ok_def)
  moreover have "off_pool ?m3 x" using ok(5) by (simp add: off_pool_def)
  moreover have "\<forall>a. R a \<noteq> Unused \<longrightarrow> R' a = R a \<and> spans ?m3 a = spans m a" using ok(3,6) by (auto simp: upd_apply)
  moreover have "\<forall>a. R a = Unused \<and> R' a \<noteq> Unused \<longrightarrow> R' a = Meta \<and> top_page m \<le> sp_pageId (the (spans ?m3 a))"
    using ok(2,7) by (auto simp: upd_apply)
  moreover have "same_rest m ?m3" using ok(9) by (simp add: same_rest_def)
  ultimately show ?thesis using ok by (intro exI [of _ x] exI [of _ ?m3] exI [of _ R']) simp
qed

subsection \<open>A span enters a list, or is given its pages\<close>

lemma own_ok_extend:
  assumes "own_ok R m" and "spans m x = Some s" and "span_ok m x s"
    and "r \<noteq> Meta \<longrightarrow> sp_start s = ini_brk_addr m + sp_pageId s * 4096"
  shows "own_ok (R(x := r)) m"
  using assms by (auto simp: own_ok_def)

lemma clean_ok_extend: "clean_ok R m \<Longrightarrow> spans m x = Some s \<Longrightarrow> clean s \<Longrightarrow> clean_ok (R(x := r)) m"
  by (auto simp: clean_ok_def)

lemma pool_ok_extend:
  assumes "pool_ok R m" and "off_pool m x"
  shows "pool_ok (R(x := r)) m"
proof -
  obtain k where "rem_bytes m = k * SPAN_BYTES"
      "\<forall>i<k. spans m (get_span (chunk m) (curr_ind m + i)) = Some zero_span \<and> R (get_span (chunk m) (curr_ind m + i)) = Unused"
    using assms(1) by (auto simp: pool_ok_def)
  then show ?thesis using assms(2) unfolding pool_ok_def off_pool_def by (intro exI [of _ k]) (simp add: SPAN_BYTES_def)
qed

lemma used_off_pool:
  assumes "pages_ok R m" and "R x \<noteq> Unused"
  shows "off_pool m x"
  using assms by (auto simp: pages_ok_def pool_ok_def off_pool_def)

lemma lists_ok_extend: "lists_ok R m \<Longrightarrow> R x \<noteq> Free \<Longrightarrow> r \<noteq> Free \<Longrightarrow> lists_ok (R(x := r)) m"
proof -
  assume "lists_ok R m" "R x \<noteq> Free" "r \<noteq> Free"
  moreover from this have "free_set (R(x := r)) (spans m) i = free_set R (spans m) i" for i
    by (auto simp: free_set_def)
  ultimately show ?thesis by (simp add: lists_ok_def)
qed

lemma unlinked_clean: "unlinked s' = unlinked s \<Longrightarrow> clean s' = clean s"
  using unlinked_eqD [of s' s] by (simp add: clean_def)

lemma unlinked_span_ok: "unlinked s' = unlinked s \<Longrightarrow> span_ok m a s' = span_ok m a s"
  using unlinked_eqD [of s' s] by (simp add: span_ok_def)

lemma push_keeps:
  assumes P: "pages_ok R m" and x: "R x = Unused" "off_pool m x" "x \<noteq> 0" "spans m x = Some s"
  shows "\<exists>l sp s'. spanlist_push m (PageList (bucket (sp_pageSize s))) x = Some (m\<lparr>pg_list := l, spans := sp\<rparr>) \<and>
    sp x = Some s' \<and> unlinked s' = unlinked s \<and>
    sys_ok (m\<lparr>pg_list := l, spans := sp\<rparr>) \<and> pool_ok (R(x := Free)) (m\<lparr>pg_list := l, spans := sp\<rparr>) \<and>
    own_ok R (m\<lparr>pg_list := l, spans := sp\<rparr>) \<and> clean_ok R (m\<lparr>pg_list := l, spans := sp\<rparr>) \<and>
    lists_ok (R(x := Free)) (m\<lparr>pg_list := l, spans := sp\<rparr>) \<and>
    same_data (spans m) sp \<and> (\<forall>a. a \<noteq> x \<and> R a \<noteq> Free \<longrightarrow> sp a = spans m a) \<and> l = (pg_list m)[bucket (sp_pageSize s) := x]"
proof -
  note P' = pages_okD [OF P]
  obtain l sp where p: "spanlist_push m (PageList (bucket (sp_pageSize s))) x = Some (m\<lparr>pg_list := l, spans := sp\<rparr>)"
      "lists_ok (R(x := Free)) (m\<lparr>pg_list := l, spans := sp\<rparr>)" "same_data (spans m) sp"
      "\<forall>a. a \<noteq> x \<and> R a \<noteq> Free \<longrightarrow> sp a = spans m a" "l = (pg_list m)[bucket (sp_pageSize s) := x]"
    using lists_push [OF P'(5) x(1,4,3)] by blast
  let ?m = "m\<lparr>pg_list := l, spans := sp\<rparr>"
  obtain s' where s': "sp x = Some s'" "unlinked s' = unlinked s" using same_data_Some [OF p(3) x(4)] by blast
  have "sys_ok ?m" using P'(1) same_data_None [OF p(3)] by (simp add: sys_ok_def)
  moreover have "pool_ok R ?m"
  proof -
    obtain k where k: "rem_bytes m = k * SPAN_BYTES"
        "\<forall>i<k. spans m (get_span (chunk m) (curr_ind m + i)) = Some zero_span \<and> R (get_span (chunk m) (curr_ind m + i)) = Unused"
      using P'(2) by (auto simp: pool_ok_def)
    then show ?thesis unfolding pool_ok_def using p(4) x(2)
      by (intro exI [of _ k]) (simp add: off_pool_def SPAN_BYTES_def)
  qed
  then have "pool_ok (R(x := Free)) ?m" using x(2) by (intro pool_ok_extend) (simp_all add: off_pool_def)
  moreover have "own_ok R ?m" using P'(3) by (rule own_ok_mono) (simp_all add: p(3))
  moreover have "clean_ok R ?m" using P'(4) by (rule clean_ok_mono) (simp_all add: p(3))
  ultimately show ?thesis using p s' by blast
qed

lemma pages_ok_push:
  assumes P: "pages_ok R m" and x: "R x = Unused" "off_pool m x" "x \<noteq> 0" "spans m x = Some s"
    and s: "span_ok m x s" "sp_start s = ini_brk_addr m + sp_pageId s * 4096" "clean s"
  shows "\<exists>l sp. spanlist_push m (PageList (bucket (sp_pageSize s))) x = Some (m\<lparr>pg_list := l, spans := sp\<rparr>) \<and>
    pages_ok (R(x := Free)) (m\<lparr>pg_list := l, spans := sp\<rparr>) \<and>
    same_data (spans m) sp \<and> (\<forall>a. a \<noteq> x \<and> R a \<noteq> Free \<longrightarrow> sp a = spans m a) \<and> l = (pg_list m)[bucket (sp_pageSize s) := x]"
proof -
  obtain l sp s' where p: "spanlist_push m (PageList (bucket (sp_pageSize s))) x = Some (m\<lparr>pg_list := l, spans := sp\<rparr>)"
      "sp x = Some s'" "unlinked s' = unlinked s" and ok: "sys_ok (m\<lparr>pg_list := l, spans := sp\<rparr>)" "pool_ok (R(x := Free)) (m\<lparr>pg_list := l, spans := sp\<rparr>)"
      "own_ok R (m\<lparr>pg_list := l, spans := sp\<rparr>)" "clean_ok R (m\<lparr>pg_list := l, spans := sp\<rparr>)"
      "lists_ok (R(x := Free)) (m\<lparr>pg_list := l, spans := sp\<rparr>)" and
      fr: "same_data (spans m) sp" "\<forall>a. a \<noteq> x \<and> R a \<noteq> Free \<longrightarrow> sp a = spans m a" "l = (pg_list m)[bucket (sp_pageSize s) := x]"
    using push_keeps [OF P x] by blast
  let ?m = "m\<lparr>pg_list := l, spans := sp\<rparr>"
  have "span_ok ?m x s'" using s(1) unlinked_span_ok [OF p(3)] by (simp add: span_ok_def top_page_def)
  moreover have "sp_start s' = ini_brk_addr m + sp_pageId s' * 4096" using s(2) unlinked_eqD [OF p(3)] by simp
  ultimately have "own_ok (R(x := Free)) ?m" using own_ok_extend [OF ok(3), of x s'] p(2) by simp
  moreover have "clean_ok (R(x := Free)) ?m"
    using clean_ok_extend [OF ok(4), of x s'] p(2) s(3) unlinked_clean [OF p(3)] by simp
  ultimately have "pages_ok (R(x := Free)) ?m" using ok by (simp add: pages_ok_def)
  then show ?thesis using p(1) fr by blast
qed

definition apart :: "struct_Span \<Rightarrow> struct_Span \<Rightarrow> bool" where
  "apart s t \<longleftrightarrow> sp_pageId t + sp_pageSize t \<le> sp_pageId s \<or> sp_pageId s + sp_pageSize s \<le> sp_pageId t"

lemma pages_ok_claim:
  assumes P: "pages_ok R m" and x: "R x = Unused" "off_pool m x" "spans m x = Some s"
    and s: "0 < sp_pageSize s" "sp_pageSize s \<le> 65536" "sp_pageId s + sp_pageSize s \<le> top_page m"
      "sp_start s = ini_brk_addr m + sp_pageId s * 4096" "clean s"
    and disj: "\<And>b t. b \<noteq> x \<Longrightarrow> R b \<noteq> Unused \<Longrightarrow> spans m b = Some t \<Longrightarrow> apart s t"
  shows "\<exists>m'. update_mapping m x = Some m' \<and> pages_ok (R(x := Held)) m' \<and> spans m' = spans m \<and>
    pg_list m' = pg_list m \<and> same_rest m m' \<and> brk m' = brk m"
proof -
  note P' = pages_okD [OF P]
  obtain c where c: "update_mapping m x = Some (m\<lparr>page_mapping :=
    (\<lambda>p. if sp_pageId s \<le> p \<and> p < sp_pageId s + sp_pageSize s then x else page_mapping m p), curr_index := c\<rparr>)"
    (is "_ = Some ?m")
    using update_mapping_closed [OF x(3)] s(3) top_page(3) [OF P'(1)] by auto
  have "own_ok (R(x := Held)) ?m"
    using own_ok_claim [OF P'(3) x(3) s(1-3), of Held c] s(4) disj by (simp add: apart_def)
  moreover have "sys_ok ?m" using P'(1) by (simp add: sys_ok_def)
  moreover have "pool_ok (R(x := Held)) ?m" using pool_ok_extend [OF P'(2) x(2)] by (simp add: pool_ok_def)
  moreover have "clean_ok (R(x := Held)) ?m" using clean_ok_extend [OF P'(4) x(3) s(5)] by (simp add: clean_ok_def)
  moreover have "lists_ok (R(x := Held)) ?m" using lists_ok_extend [OF P'(5), of x Held] x(1) by (simp add: lists_ok_def)
  ultimately have "pages_ok (R(x := Held)) ?m" by (simp add: pages_ok_def)
  then show ?thesis using c by (simp add: same_rest_def)
qed

lemma pages_ok_push_claim:
  assumes P: "pages_ok R m" and x: "R x = Unused" "off_pool m x" "x \<noteq> 0" "spans m x = Some s"
    and s: "0 < sp_pageSize s" "sp_pageSize s \<le> 65536" "sp_pageId s + sp_pageSize s \<le> top_page m"
      "sp_start s = ini_brk_addr m + sp_pageId s * 4096" "clean s"
    and disj: "\<And>b t. b \<noteq> x \<Longrightarrow> R b \<noteq> Unused \<Longrightarrow> spans m b = Some t \<Longrightarrow> apart s t"
  shows "\<exists>m1 m'. spanlist_push m (PageList (bucket (sp_pageSize s))) x = Some m1 \<and> update_mapping m1 x = Some m' \<and>
    pages_ok (R(x := Free)) m' \<and> same_data (spans m) (spans m') \<and>
    (\<forall>a. a \<noteq> x \<and> R a \<noteq> Free \<longrightarrow> spans m' a = spans m a) \<and> same_rest m m' \<and> brk m' = brk m \<and>
    pg_list m' = (pg_list m)[bucket (sp_pageSize s) := x]"
proof -
  obtain l sp s' where p: "spanlist_push m (PageList (bucket (sp_pageSize s))) x = Some (m\<lparr>pg_list := l, spans := sp\<rparr>)"
      "sp x = Some s'" "unlinked s' = unlinked s" and ok: "sys_ok (m\<lparr>pg_list := l, spans := sp\<rparr>)" "pool_ok (R(x := Free)) (m\<lparr>pg_list := l, spans := sp\<rparr>)"
      "own_ok R (m\<lparr>pg_list := l, spans := sp\<rparr>)" "clean_ok R (m\<lparr>pg_list := l, spans := sp\<rparr>)"
      "lists_ok (R(x := Free)) (m\<lparr>pg_list := l, spans := sp\<rparr>)" and
      fr: "same_data (spans m) sp" "\<forall>a. a \<noteq> x \<and> R a \<noteq> Free \<longrightarrow> sp a = spans m a" "l = (pg_list m)[bucket (sp_pageSize s) := x]"
    using push_keeps [OF P x] by blast
  let ?m = "m\<lparr>pg_list := l, spans := sp\<rparr>"
  note s' = unlinked_eqD [OF p(3)]
  have tp: "top_page ?m = top_page m" by (simp add: top_page_def)
  obtain c where c: "update_mapping ?m x = Some (?m\<lparr>page_mapping :=
    (\<lambda>p. if sp_pageId s' \<le> p \<and> p < sp_pageId s' + sp_pageSize s' then x else page_mapping ?m p), curr_index := c\<rparr>)"
    (is "_ = Some ?m2")
    using update_mapping_closed [of ?m x s'] p(2) s(3) s' top_page(3) [OF pages_okD(1) [OF P]] by auto
  have "own_ok (R(x := Free)) ?m2"
  proof (rule own_ok_claim [OF ok(3)])
    fix b t assume b: "b \<noteq> x" "R b \<noteq> Unused" "spans ?m b = Some t"
    then obtain t0 where t0: "spans m b = Some t0" using same_data_None [OF fr(1), of b] by auto
    then have "unlinked t = unlinked t0" using same_data_Some [OF fr(1) t0] b(3) by auto
    then show "sp_pageId t + sp_pageSize t \<le> sp_pageId s' \<or> sp_pageId s' + sp_pageSize s' \<le> sp_pageId t"
      using disj [OF b(1,2) t0] s' unlinked_eqD [of t t0] by (simp add: apart_def)
  qed (use p(2) s s' tp in simp_all)
  moreover have "clean_ok (R(x := Free)) ?m2"
    using clean_ok_extend [OF ok(4), of x s'] p(2) s(5) unlinked_clean [OF p(3)] by (simp add: clean_ok_def)
  ultimately have "pages_ok (R(x := Free)) ?m2"
    using ok by (simp add: pages_ok_def sys_ok_def pool_ok_def lists_ok_def)
  then show ?thesis using p(1) c fr by (simp add: same_rest_def)
qed

subsection \<open>More memory from the system\<close>

text \<open>A list starts with a span of at least \<open>q\<close> pages.\<close>

definition avail :: "tcmem \<Rightarrow> nat \<Rightarrow> bool" where
  "avail m q \<longleftrightarrow> (\<exists>i<PAGEHEAPSIZE. pg_list m ! i \<noteq> 0 \<and> (\<exists>s. spans m (pg_list m ! i) = Some s \<and> q \<le> sp_pageSize s))"

lemma moved_break:
  assumes P: "pages_ok R m" and room: "room m n" "4096 dvd n"
  shows "sbrk m n = (brk m, m\<lparr>brk := brk m + n\<rparr>)" "pages_ok R (m\<lparr>brk := brk m + n\<rparr>)"
proof -
  note P' = pages_okD [OF P]
  show "sbrk m n = (brk m, m\<lparr>brk := brk m + n\<rparr>)" using room by (simp add: sbrk_def room_def)
  have "own_ok R (m\<lparr>brk := brk m + n\<rparr>)" using P'(3) by (rule own_ok_mono) simp_all
  moreover have "sys_ok (m\<lparr>brk := brk m + n\<rparr>)" using P'(1) room by (auto simp: sys_ok_def room_def intro: trans_less_add1)
  ultimately show "pages_ok R (m\<lparr>brk := brk m + n\<rparr>)"
    using P' by (simp add: pages_ok_def pool_ok_def clean_ok_def lists_ok_def)
qed

text \<open>What one of these operations does to the spans that are already in use.\<close>

definition only_frees :: "(addr \<Rightarrow> role) \<Rightarrow> tcmem \<Rightarrow> (addr \<Rightarrow> role) \<Rightarrow> tcmem \<Rightarrow> bool" where
  "only_frees R m R' m' \<longleftrightarrow> same_rest m m' \<and>
     (\<forall>a. R a \<noteq> Unused \<and> R a \<noteq> Free \<longrightarrow> R' a = R a \<and> spans m' a = spans m a) \<and>
     (\<forall>a. R a = Unused \<or> R a = Free \<longrightarrow> R' a = Unused \<or> R' a = Free \<or> R' a = Meta)"

lemma only_frees_trans:
  "only_frees R m R' m' \<Longrightarrow> only_frees R' m' R'' m'' \<Longrightarrow> only_frees R m R'' m''"
  unfolding only_frees_def by (metis same_rest_trans role.distinct(3,5,11,13))

lemma fetch_from_system_ok:
  assumes P: "pages_ok R m" and room: "room m (SYSFETCHSIZE + POOL_BYTES)"
  shows "\<exists>R' m'. fetch_from_system m = Some m' \<and> pages_ok R' m' \<and> only_frees R m R' m' \<and>
    pg_list m' ! (PAGEHEAPSIZE - 1) \<noteq> 0 \<and> brk m' \<le> brk m + SYSFETCHSIZE + POOL_BYTES \<and> avail m' 65536"
proof -
  let ?b = "brk m" and ?m1 = "m\<lparr>brk := brk m + SYSFETCHSIZE\<rparr>"
  note P' = pages_okD [OF P]
  have n: "4096 dvd SYSFETCHSIZE" "SYSFETCHSIZE div 4096 = 65536" "u32 65536 = 65536" "bucket 65536 = PAGEHEAPSIZE - 1"
    "SYSFETCHSIZE = 65536 * 4096"
    by (simp_all add: SYSFETCHSIZE_def u32_def bucket_def size_sub_def PAGEHEAPSIZE_def)
  have r1: "room m SYSFETCHSIZE" "room ?m1 POOL_BYTES" using room by (auto simp: room_def)
  have b: "sbrk m SYSFETCHSIZE = (?b, ?m1)" "pages_ok R ?m1" using moved_break [OF P r1(1) n(1)] by simp_all
  have tp: "top_page ?m1 = top_page m + 65536"
    using top_page(1) [OF P'(1)] by (simp add: top_page_def n(5))
  obtain x m2 R' where x: "alloc_span ?m1 65536 ?b = Some (x, m2)" "pages_ok R' m2" "R' x = Unused" "R x = Unused" "x \<noteq> 0"
      "spans m2 x = Some (fresh_span ?m1 65536 ?b x)" "off_pool m2 x"
      "\<forall>a. R a \<noteq> Unused \<longrightarrow> R' a = R a \<and> spans m2 a = spans ?m1 a"
      "\<forall>a. R a = Unused \<and> R' a \<noteq> Unused \<longrightarrow> R' a = Meta \<and> top_page ?m1 \<le> sp_pageId (the (spans m2 a))"
      "pg_list m2 = pg_list ?m1" "same_rest ?m1 m2" "brk m2 \<le> brk ?m1 + POOL_BYTES"
    using alloc_span_ok [OF b(2) r1(2), of 65536 ?b] by blast
  let ?f = "\<lambda>s. s\<lparr>sp_start := ?b\<rparr>"
  let ?m3 = "m2\<lparr>spans := upd (spans m2) x ?f\<rparr>"
  let ?s = "?f (fresh_span ?m1 65536 ?b x)"
  have ini: "ini_brk_addr m2 = ini_brk_addr m" "brk ?m1 \<le> brk m2" using x(11) by (simp_all add: same_rest_def)
  have "addr_to_index ?b (ini_brk_addr m) = top_page m" using top_page(2) [OF P'(1)] .
  moreover have "top_page m < 2 ^ 32" using top_page(3) [OF P'(1)] by (simp add: PAGEMAPSIZE_def)
  moreover have "?b \<noteq> 0" using P'(1) by (auto simp: sys_ok_def)
  ultimately have s: "sp_pageId ?s = top_page m" "sp_pageSize ?s = 65536" "sp_start ?s = ?b" "clean ?s"
    using n(3) by (simp_all add: fresh_span_def clean_def zero_span_def)
  have "pages_ok R' ?m3" using x(2,3,7) by (rule pages_ok_upd_unused)
  moreover have "spans ?m3 x = Some ?s" using x(6) by (simp add: upd_apply)
  moreover have "off_pool ?m3 x" using x(7) by (simp add: off_pool_def)
  moreover have "top_page ?m1 \<le> top_page ?m3" using ini by (simp add: top_page_def div_le_mono)
  moreover have "apart ?s t" if t: "c \<noteq> x" "R' c \<noteq> Unused" "spans ?m3 c = Some t" for c t
  proof -
    have c: "spans m2 c = Some t" using t by (simp add: upd_apply)
    show ?thesis
    proof (cases "R c = Unused")
      case True
      then have "top_page m + 65536 \<le> sp_pageId t" using x(9) t(2) c tp by auto
      then show ?thesis using s by (simp add: apart_def)
    next
      case False
      then have "sp_pageId t + sp_pageSize t \<le> top_page m" using own_ok_new_pages [OF P False] x(8) c by simp
      then show ?thesis using s by (simp add: apart_def)
    qed
  qed
  ultimately obtain m4 m' where m': "spanlist_push ?m3 (PageList (bucket (sp_pageSize ?s))) x = Some m4"
      "update_mapping m4 x = Some m'" "pages_ok (R'(x := Free)) m'" "same_data (spans ?m3) (spans m')"
      "\<forall>a. a \<noteq> x \<and> R' a \<noteq> Free \<longrightarrow> spans m' a = spans ?m3 a" "same_rest ?m3 m'" "brk m' = brk ?m3"
      "pg_list m' = (pg_list ?m3)[bucket (sp_pageSize ?s) := x]"
    using pages_ok_push_claim [of R' ?m3 x ?s] x(3,5) s tp ini top_page(1) [OF P'(1)] by auto
  have "fetch_from_system m = Some m'"
    using b(1) x(1,6) m'(1,2) s(2) n(2) by (simp add: fetch_from_system_def upd_span_eq upd_apply)
  moreover have "only_frees R m (R'(x := Free)) m'"
  proof -
    have "same_rest m m'" using x(11) m'(6) by (auto simp: same_rest_def)
    then show ?thesis using x(4,8,9) m'(5) unfolding only_frees_def by (auto simp: upd_apply)
  qed
  moreover have head: "pg_list m' ! (PAGEHEAPSIZE - 1) = x"
    using m'(8) s(2) n(4) x(10) P'(5) by (simp add: lists_ok_def PAGEHEAPSIZE_def)
  then have "pg_list m' ! (PAGEHEAPSIZE - 1) \<noteq> 0" using x(5) by simp
  moreover have "avail m' 65536"
  proof -
    obtain s' where s': "spans m' x = Some s'" "unlinked s' = unlinked ?s"
      using same_data_Some [OF m'(4), of x ?s] x(6) by (auto simp: upd_apply)
    then have "sp_pageSize s' = 65536" using unlinked_eqD(7) [OF s'(2)] s(2) by simp
    then show ?thesis using head x(5) s'(1) unfolding avail_def
      by (intro exI [of _ "PAGEHEAPSIZE - 1"]) (simp add: PAGEHEAPSIZE_def)
  qed
  moreover have "brk m' \<le> brk m + SYSFETCHSIZE + POOL_BYTES" using m'(7) x(12) by simp
  ultimately show ?thesis using m'(3) by blast
qed

subsection \<open>Taking and splitting a free span\<close>

lemma apart_of_own:
  assumes own: "own_ok R m" and ab: "a \<noteq> b" "R a \<noteq> Unused" "R b \<noteq> Unused" "spans m a = Some s" "spans m b = Some t"
  shows "apart s t"
proof (rule ccontr)
  assume n: "\<not> apart s t"
  have "0 < sp_pageSize s" "0 < sp_pageSize t" using own ab by (auto simp: own_ok_def span_ok_def)
  then have "a = b"
    using own_ok_disjoint [OF own ab(2-5), of "max (sp_pageId s) (sp_pageId t)"] n by (auto simp: apart_def)
  with ab(1) show False by simp
qed

lemma role_span:
  assumes P: "pages_ok R m" and a: "R a \<noteq> Unused" "spans m a = Some s"
  shows "span_ok m a s" "R a \<noteq> Meta \<Longrightarrow> sp_start s = ini_brk_addr m + sp_pageId s * 4096"
    "R a = Free \<or> R a = Held \<Longrightarrow> clean s"
proof -
  obtain s' where "spans m a = Some s'" "span_ok m a s'" "R a \<noteq> Meta \<longrightarrow> sp_start s' = ini_brk_addr m + sp_pageId s' * 4096"
    using pages_okD(3) [OF P] a(1) unfolding own_ok_def by blast
  then show "span_ok m a s" "R a \<noteq> Meta \<Longrightarrow> sp_start s = ini_brk_addr m + sp_pageId s * 4096" using a(2) by simp_all
  show "R a = Free \<or> R a = Held \<Longrightarrow> clean s" using pages_okD(4) [OF P] a(2) unfolding clean_ok_def by blast
qed

text \<open>A span that leaves its list, as handed out or for further use.\<close>

lemma take_free:
  assumes P: "pages_ok R m" and x: "R x = Free" "spans m x = Some s" "bucket (sp_pageSize s) = i" and r: "r = Held \<or> r = Unused"
  shows "\<exists>l sp. remove_span m (PageList i) x = Some (m\<lparr>pg_list := l, spans := sp\<rparr>) \<and>
    pages_ok (R(x := r)) (m\<lparr>pg_list := l, spans := sp\<rparr>) \<and> same_data (spans m) sp \<and>
    (\<forall>a. R a \<noteq> Free \<longrightarrow> sp a = spans m a) \<and> (\<exists>h. l = (pg_list m)[i := h])"
proof -
  note P' = pages_okD [OF P]
  obtain l sp where p: "remove_span m (PageList i) x = Some (m\<lparr>pg_list := l, spans := sp\<rparr>)"
      "lists_ok (R(x := Unused)) (m\<lparr>pg_list := l, spans := sp\<rparr>)" "same_data (spans m) sp"
      "\<forall>a. R a \<noteq> Free \<longrightarrow> sp a = spans m a" "\<exists>h. l = (pg_list m)[i := h]"
    using lists_remove [OF P'(5) x] by blast
  let ?m = "m\<lparr>pg_list := l, spans := sp\<rparr>" and ?R = "R(x := r)"
  have "sys_ok ?m" using P'(1) same_data_None [OF p(3)] by (simp add: sys_ok_def)
  moreover have "pool_ok R ?m"
  proof -
    obtain k where "rem_bytes m = k * SPAN_BYTES"
        "\<forall>i<k. spans m (get_span (chunk m) (curr_ind m + i)) = Some zero_span \<and> R (get_span (chunk m) (curr_ind m + i)) = Unused"
      using P'(2) by (auto simp: pool_ok_def)
    then show ?thesis using p(4) unfolding pool_ok_def by (intro exI [of _ k]) simp
  qed
  then have "pool_ok ?R ?m" using used_off_pool [OF P, of x] x(1) by (intro pool_ok_extend) (simp_all add: off_pool_def)
  moreover have "own_ok ?R ?m" using P'(3) by (rule own_ok_mono) (use p(3) x(1) r in auto)
  moreover have "clean_ok ?R ?m" using P'(4) by (rule clean_ok_mono) (use p(3) x(1) in \<open>auto split: if_splits\<close>)
  moreover have "lists_ok ((R(x := Unused))(x := r)) ?m" using p(2) by (rule lists_ok_extend) (use r in auto)
  ultimately show ?thesis using p by (auto simp: pages_ok_def)
qed

text \<open>The first half of \<open>split_spans\<close>: the pages that stay are put back into a list.\<close>

lemma split_push:
  assumes P: "pages_ok R m" and ne: "tmp \<noteq> x" and n: "0 < n" "n < sp_pageSize t"
    and t: "R tmp = Unused" "off_pool m tmp" "tmp \<noteq> 0" "spans m tmp = Some t" "span_ok m tmp t"
      "sp_start t = ini_brk_addr m + sp_pageId t * 4096" "clean t"
    and x: "R x = Unused" "off_pool m x" "spans m x = Some s"
  shows "\<exists>m3 t3. split_spans m tmp x n =
      do { m4 \<leftarrow> upd_span m3 x (\<lambda>s. s\<lparr>sp_pageId := sp_pageId t + (sp_pageSize t - n)\<rparr>); update_mapping m4 x } \<and>
    pages_ok (R(tmp := Free)) m3 \<and> spans m3 tmp = Some t3 \<and> unlinked t3 = unlinked (t\<lparr>sp_pageSize := sp_pageSize t - n\<rparr>) \<and>
    spans m3 x = Some (s\<lparr>sp_start := sp_start t + (sp_pageSize t - n) * 4096, sp_next := x, sp_prev := x\<rparr>) \<and>
    (\<forall>a. a \<noteq> x \<and> a \<noteq> tmp \<longrightarrow> map_option unlinked (spans m3 a) = map_option unlinked (spans m a)) \<and>
    (\<forall>a. a \<noteq> x \<and> a \<noteq> tmp \<and> R a \<noteq> Free \<longrightarrow> spans m3 a = spans m a) \<and>
    pg_list m3 = (pg_list m)[bucket (sp_pageSize t - n) := tmp] \<and> same_rest m m3 \<and> brk m3 = brk m \<and> off_pool m3 = off_pool m"
proof -
  let ?p = "sp_pageSize t - n"
  have "sp_pageSize t \<le> 65536" "sp_pageId t + sp_pageSize t \<le> top_page m" using t(5) by (simp_all add: span_ok_def)
  moreover have "top_page m < PAGEMAPSIZE" using top_page(3) pages_okD(1) [OF P] by blast
  ultimately have p: "0 < ?p" "u32 (size_sub (sp_pageSize t) n) = ?p" "u32 (pages_to_bytes ?p) = ?p * 4096"
      "u32 (sp_pageId t + ?p) = sp_pageId t + ?p"
    using n by (simp_all add: size_sub_le PAGEMAPSIZE_def)
  let ?t2 = "t\<lparr>sp_pageSize := ?p\<rparr>" and ?fx = "\<lambda>s. s\<lparr>sp_start := sp_start t + ?p * 4096, sp_next := x, sp_prev := x\<rparr>"
  let ?m1 = "m\<lparr>spans := upd (spans m) tmp (\<lambda>s. s\<lparr>sp_pageSize := ?p\<rparr>)\<rparr>"
  define m2 where "m2 = ?m1\<lparr>spans := upd (spans ?m1) x ?fx\<rparr>"
  have P1: "pages_ok R ?m1" using pages_ok_upd_unused [OF P t(1,2)] by simp
  have "off_pool ?m1 x" using x(2) by (simp add: off_pool_def)
  then have P2: "pages_ok R m2" using pages_ok_upd_unused [OF P1 x(1)] unfolding m2_def by simp
  have m2: "spans m2 tmp = Some ?t2" "spans m2 x = Some (?fx s)"
      "\<And>a. a \<noteq> x \<Longrightarrow> a \<noteq> tmp \<Longrightarrow> spans m2 a = spans m a" "pg_list m2 = pg_list m" "same_rest m m2" "brk m2 = brk m"
      "off_pool m2 = off_pool m" "top_page m2 = top_page m" "ini_brk_addr m2 = ini_brk_addr m"
      "page_mapping m2 = page_mapping m"
    using t(4) x(3) ne by (simp_all add: m2_def upd_apply same_rest_def off_pool_def fun_eq_iff top_page_def)
  have "span_ok m2 tmp ?t2" using t(5) p(1) m2(8,10) by (auto simp: span_ok_def)
  moreover have "off_pool m2 tmp" using t(2) m2(7) by simp
  moreover have "sp_start ?t2 = ini_brk_addr m2 + sp_pageId ?t2 * 4096" "clean ?t2" using t(6,7) m2(9) by (simp_all add: clean_def)
  ultimately obtain l sp where q: "spanlist_push m2 (PageList (bucket ?p)) tmp = Some (m2\<lparr>pg_list := l, spans := sp\<rparr>)"
      "pages_ok (R(tmp := Free)) (m2\<lparr>pg_list := l, spans := sp\<rparr>)" "same_data (spans m2) sp"
      "\<forall>a. a \<noteq> tmp \<and> R a \<noteq> Free \<longrightarrow> sp a = spans m2 a" "l = (pg_list m)[bucket ?p := tmp]"
    using pages_ok_push [OF P2 t(1) _ t(3) m2(1)] m2(4) by auto
  let ?m3 = "m2\<lparr>pg_list := l, spans := sp\<rparr>"
  obtain t3 where t3: "sp tmp = Some t3" "unlinked t3 = unlinked ?t2" using same_data_Some [OF q(3) m2(1)] by blast
  have sx: "sp x = Some (?fx s)" using q(4) ne x(1) m2(2) by auto
  have a: "upd_span m tmp (\<lambda>s. s\<lparr>sp_pageSize := u32 (size_sub (sp_pageSize s) n)\<rparr>) = Some ?m1" "spans ?m1 tmp = Some ?t2"
    using t(4) p(2) by (simp_all add: upd_span_def upd_def)
  have "upd_span ?m1 x (\<lambda>s. s\<lparr>sp_start := sp_start ?t2 + u32 (pages_to_bytes (sp_pageSize ?t2)), sp_next := x, sp_prev := x\<rparr>) = Some m2"
    unfolding m2_def using p(3) x(3) ne by (simp add: upd_span_def upd_apply) (auto simp: upd_def)
  then have "split_spans m tmp x n = do { m4 \<leftarrow> upd_span ?m3 x (\<lambda>s. s\<lparr>sp_pageId := sp_pageId t + ?p\<rparr>); update_mapping m4 x }"
    unfolding split_spans_def a Option.bind.simps using p(1,4) q(1) t3(1) unlinked_eqD [OF t3(2)] by simp
  moreover have "\<forall>a. a \<noteq> x \<and> a \<noteq> tmp \<longrightarrow> map_option unlinked (sp a) = map_option unlinked (spans m a)"
    using q(3) m2(3) by (simp add: same_data_def)
  moreover have "\<forall>a. a \<noteq> x \<and> a \<noteq> tmp \<and> R a \<noteq> Free \<longrightarrow> sp a = spans m a" using q(4) m2(3) by simp
  moreover have "same_rest m ?m3" "off_pool ?m3 = off_pool m"
    using m2(5,7) by (simp_all add: same_rest_def off_pool_def fun_eq_iff)
  ultimately show ?thesis using q(2,5) t3 sx m2(6) by (intro exI [of _ ?m3] exI [of _ t3]) simp
qed

text \<open>Together: a free span is taken from its list and split.\<close>

lemma split_ok:
  assumes P: "pages_ok R m" and t: "R tmp = Free" "spans m tmp = Some t" "n < sp_pageSize t" "0 < n"
    and x: "R x = Unused" "off_pool m x" "x \<noteq> 0" "spans m x = Some s" "sp_pageSize s = n" "clean s"
  shows "\<exists>m3 m' s'. remove_span m (PageList (bucket (sp_pageSize t))) tmp = Some m3 \<and> split_spans m3 tmp x n = Some m' \<and>
    pages_ok (R(x := Held)) m' \<and> spans m' x = Some s' \<and> sp_pageSize s' = n \<and>
    (\<forall>a. a \<noteq> x \<and> R a \<noteq> Free \<longrightarrow> spans m' a = spans m a) \<and> same_rest m m' \<and> brk m' = brk m \<and>
    (\<exists>h. pg_list m' = (pg_list m)[bucket (sp_pageSize t) := h, bucket (sp_pageSize t - n) := tmp]) \<and>
    (\<exists>t'. spans m' tmp = Some t' \<and> sp_pageSize t' = sp_pageSize t - n) \<and>
    (\<forall>a. a \<noteq> x \<and> a \<noteq> tmp \<longrightarrow> map_option unlinked (spans m' a) = map_option unlinked (spans m a))"
proof -
  have ne: "tmp \<noteq> x" "tmp \<noteq> 0" using t(1) x(1) role_dom(2) [OF P] by auto
  have tow: "span_ok m tmp t" "sp_start t = ini_brk_addr m + sp_pageId t * 4096" "clean t"
    using role_span [OF P _ t(2)] t(1) by simp_all
  obtain l sp where r: "remove_span m (PageList (bucket (sp_pageSize t))) tmp = Some (m\<lparr>pg_list := l, spans := sp\<rparr>)"
      "pages_ok (R(tmp := Unused)) (m\<lparr>pg_list := l, spans := sp\<rparr>)" "same_data (spans m) sp" "\<forall>a. R a \<noteq> Free \<longrightarrow> sp a = spans m a"
      "\<exists>h. l = (pg_list m)[bucket (sp_pageSize t) := h]"
    using take_free [OF P t(1,2) refl, of Unused] by blast
  let ?m = "m\<lparr>pg_list := l, spans := sp\<rparr>" and ?p = "sp_pageSize t - n"
  obtain t1 where t1: "sp tmp = Some t1" "unlinked t1 = unlinked t" using same_data_Some [OF r(3) t(2)] by blast
  note f1 = unlinked_eqD [OF t1(2)]
  have off: "off_pool ?m tmp" "off_pool ?m x" using used_off_pool [OF P, of tmp] t(1) x(2) by (simp_all add: off_pool_def)
  have t1': "span_ok ?m tmp t1" "sp_start t1 = ini_brk_addr ?m + sp_pageId t1 * 4096" "clean t1" "spans ?m tmp = Some t1"
      "n < sp_pageSize t1" "spans ?m x = Some s" "(R(tmp := Unused)) x = Unused"
    using tow f1 t1(1) t(3) r(4) x(1,4) by (auto simp: span_ok_def top_page_def clean_def)
  have R: "(R(tmp := Unused))(tmp := Free) = R" "\<And>a. (R(tmp := Unused)) a \<noteq> Free \<longleftrightarrow> a = tmp \<or> R a \<noteq> Free" using t(1) by auto
  obtain m3 t3 where q: "split_spans ?m tmp x n = do { m4 \<leftarrow> upd_span m3 x (\<lambda>s. s\<lparr>sp_pageId := sp_pageId t + ?p\<rparr>); update_mapping m4 x }"
      "pages_ok R m3" "spans m3 tmp = Some t3" "unlinked t3 = unlinked (t1\<lparr>sp_pageSize := ?p\<rparr>)"
      "spans m3 x = Some (s\<lparr>sp_start := sp_start t + ?p * 4096, sp_next := x, sp_prev := x\<rparr>)"
      "\<forall>a. a \<noteq> x \<and> a \<noteq> tmp \<longrightarrow> map_option unlinked (spans m3 a) = map_option unlinked (sp a)"
      "\<forall>a. a \<noteq> x \<and> a \<noteq> tmp \<and> (a = tmp \<or> R a \<noteq> Free) \<longrightarrow> spans m3 a = sp a"
      "pg_list m3 = l[bucket ?p := tmp]" "same_rest ?m m3" "brk m3 = brk m" "off_pool m3 = off_pool ?m"
    using split_push [OF r(2) ne(1) t(4) t1'(5) fun_upd_same off(1) ne(2) t1'(4,1-3,7) off(2) t1'(6)]
    unfolding R f1 by (elim exE conjE) (rule that, assumption+, simp_all)
  let ?gx = "\<lambda>s. s\<lparr>sp_pageId := sp_pageId t + ?p\<rparr>"
  let ?m4 = "m3\<lparr>spans := upd (spans m3) x ?gx\<rparr>" and ?s4 = "?gx (s\<lparr>sp_start := sp_start t + ?p * 4096, sp_next := x, sp_prev := x\<rparr>)"
  note f3 = unlinked_eqD [OF q(4)]
  have offx: "off_pool m3 x" using off(2) q(11) by simp
  then have offx4: "off_pool ?m4 x" by (simp add: off_pool_def)
  have P4: "pages_ok R ?m4" using pages_ok_upd_unused [OF q(2) x(1) offx] by simp
  have x4: "spans ?m4 x = Some ?s4" using q(5) by (simp add: upd_apply)
  have kept: "map_option unlinked (spans m3 a) = map_option unlinked (spans m a)" if "a \<noteq> x" "a \<noteq> tmp" for a
    using q(6) r(3) that by (simp add: same_data_def)
  have disj: "apart ?s4 u" if u: "b \<noteq> x" "R b \<noteq> Unused" "spans ?m4 b = Some u" for b u
  proof (cases "b = tmp")
    case True
    then have "u = t3" using u q(3) ne(1) by (simp add: upd_apply)
    then show ?thesis using f3 f1 by (simp add: apart_def)
  next
    case False
    moreover have "spans m3 b = Some u" using u by (simp add: upd_apply)
    ultimately obtain u0 where u0: "spans m b = Some u0" "unlinked u = unlinked u0"
      using kept [OF u(1)] by (auto simp: map_option_case split: option.splits)
    have "apart t u0" using apart_of_own [OF pages_okD(3) [OF P], of tmp b] False u(2) t(1,2) u0(1) by simp
    then show ?thesis using unlinked_eqD [OF u0(2)] t(3) x(5) by (auto simp: apart_def)
  qed
  have "top_page ?m4 = top_page m" "ini_brk_addr ?m4 = ini_brk_addr m" using q(9,10) by (simp_all add: same_rest_def top_page_def)
  then have s4: "clean ?s4" "0 < sp_pageSize ?s4" "sp_pageSize ?s4 \<le> 65536" "sp_pageId ?s4 + sp_pageSize ?s4 \<le> top_page ?m4"
    "sp_start ?s4 = ini_brk_addr ?m4 + sp_pageId ?s4 * 4096"
    using x(5,6) t(3,4) tow by (simp_all add: clean_def add_mult_distrib span_ok_def)
  have "\<exists>m'. update_mapping ?m4 x = Some m' \<and> pages_ok (R(x := Held)) m' \<and> spans m' = spans ?m4 \<and>
      pg_list m' = pg_list ?m4 \<and> same_rest ?m4 m' \<and> brk m' = brk ?m4"
    by (rule pages_ok_claim [OF P4 x(1) offx4 x4 s4(2-5,1)]) (rule disj)
  then obtain m' where m': "update_mapping ?m4 x = Some m'" "pages_ok (R(x := Held)) m'" "spans m' = spans ?m4"
      "pg_list m' = pg_list ?m4" "same_rest ?m4 m'" "brk m' = brk ?m4" by blast
  have "split_spans ?m tmp x n = Some m'" using q(1,5) m'(1) by (simp add: upd_span_def upd_def)
  moreover have "\<forall>a. a \<noteq> x \<and> R a \<noteq> Free \<longrightarrow> spans m' a = spans m a" using m'(3) q(7) r(4) t(1) by (auto simp: upd_apply)
  moreover have "\<exists>h. pg_list m' = (pg_list m)[bucket (sp_pageSize t) := h, bucket ?p := tmp]" using m'(4) r(5) q(8) by auto
  moreover have "\<exists>t'. spans m' tmp = Some t' \<and> sp_pageSize t' = ?p" using m'(3) q(3) f3 ne(1) by (simp add: upd_apply)
  moreover have "\<forall>a. a \<noteq> x \<and> a \<noteq> tmp \<longrightarrow> map_option unlinked (spans m' a) = map_option unlinked (spans m a)"
    using m'(3) kept by (simp add: upd_apply)
  moreover have "spans m' x = Some ?s4" "same_rest m m'" "brk m' = brk m" using m'(3,5,6) x4 q(9,10) by (simp_all add: same_rest_def)
  ultimately show ?thesis using r(1) m'(2) x(5) by (intro exI [of _ ?m] exI [of _ m'] exI [of _ ?s4]) simp
qed

subsection \<open>fetch\_span\<close>

definition hands_out :: "(addr \<Rightarrow> role) \<Rightarrow> tcmem \<Rightarrow> (addr \<Rightarrow> role) \<Rightarrow> tcmem \<Rightarrow> addr \<Rightarrow> nat \<Rightarrow> bool" where
  "hands_out R m R' m' x n \<longleftrightarrow> same_rest m m' \<and>
     (\<forall>a. R a \<noteq> Unused \<and> R a \<noteq> Free \<longrightarrow> R' a = R a \<and> spans m' a = spans m a) \<and>
     (R x = Unused \<or> R x = Free) \<and> R' x = Held \<and>
     (\<forall>a. a \<noteq> x \<and> (R a = Unused \<or> R a = Free) \<longrightarrow> R' a = Unused \<or> R' a = Free \<or> R' a = Meta) \<and>
     (\<exists>s. spans m' x = Some s \<and> sp_pageSize s = n)"

lemma only_frees_hands_out:
  assumes o: "only_frees R m R1 m1" and h: "hands_out R1 m1 R' m' x n"
  shows "hands_out R m R' m' x n"
proof -
  have keep: "R1 a = R a \<and> spans m1 a = spans m a" if "R a \<noteq> Unused" "R a \<noteq> Free" for a
    using o that by (simp add: only_frees_def)
  have free: "R1 a = Unused \<or> R1 a = Free \<or> R1 a = Meta" if "R a = Unused \<or> R a = Free" for a
    using o that unfolding only_frees_def by blast
  have h': "same_rest m1 m'" "R1 x = Unused \<or> R1 x = Free" "R' x = Held" "\<exists>s. spans m' x = Some s \<and> sp_pageSize s = n"
    "\<And>a. R1 a \<noteq> Unused \<Longrightarrow> R1 a \<noteq> Free \<Longrightarrow> R' a = R1 a \<and> spans m' a = spans m1 a"
    "\<And>a. a \<noteq> x \<Longrightarrow> R1 a = Unused \<or> R1 a = Free \<Longrightarrow> R' a = Unused \<or> R' a = Free \<or> R' a = Meta"
    using h by (simp_all add: hands_out_def)
  have "same_rest m m'" using o h'(1) same_rest_trans by (auto simp: only_frees_def)
  moreover have "R' a = R a \<and> spans m' a = spans m a" if a: "R a \<noteq> Unused" "R a \<noteq> Free" for a
    using keep [OF a] h'(5) [of a] a by simp
  moreover have "R x = Unused \<or> R x = Free" using keep [of x] h'(2) by metis
  moreover have "R' a = Unused \<or> R' a = Free \<or> R' a = Meta" if a: "a \<noteq> x" "R a = Unused \<or> R a = Free" for a
  proof (cases "R1 a = Meta")
    case True
    then show ?thesis using h'(5) [of a] by simp
  next
    case False
    then show ?thesis using free [OF a(2)] h'(6) [OF a(1)] by metis
  qed
  ultimately show ?thesis using h'(3,4) by (simp add: hands_out_def)
qed

lemma bucket_small: "0 < n \<Longrightarrow> n < PAGEHEAPSIZE \<Longrightarrow> bucket n = n - 1"
  by (simp add: bucket_def PAGEHEAPSIZE_def size_sub_le)

lemma bucket_size:
  assumes "0 < p" and "p \<le> 65536"
  shows "bucket p = min (PAGEHEAPSIZE - 1) (p - 1)"
  using assms by (simp add: bucket_def size_sub_le)

lemma list_head:
  assumes P: "pages_ok R m" and i: "i < PAGEHEAPSIZE" "pg_list m ! i \<noteq> 0"
  shows "\<exists>s. R (pg_list m ! i) = Free \<and> spans m (pg_list m ! i) = Some s \<and> bucket (sp_pageSize s) = i \<and>
    i < sp_pageSize s \<and> (i < PAGEHEAPSIZE - 1 \<longrightarrow> sp_pageSize s = i + 1)"
proof -
  have "pg_list m ! i \<in> free_set R (spans m) i" using pages_okD(5) [OF P] i by (auto simp: lists_ok_def)
  then have f: "R (pg_list m ! i) = Free" "bucket (sp_pageSize (the (spans m (pg_list m ! i)))) = i"
    by (simp_all add: free_set_def)
  then obtain s where s: "spans m (pg_list m ! i) = Some s" using role_dom(1) [OF P, of "pg_list m ! i"] by auto
  have "0 < sp_pageSize s" "sp_pageSize s \<le> 65536" using role_span(1) [OF P _ s] f(1) by (simp_all add: span_ok_def)
  then show ?thesis using f s bucket_size [of "sp_pageSize s"] by auto
qed

text \<open>The span struct for the new span, ready to be given pages.\<close>

lemma new_span_ok:
  assumes P: "pages_ok R m" and room: "room m POOL_BYTES" and n: "0 < n" "n < PAGEHEAPSIZE"
  shows "\<exists>x m1 m2 R1 s. alloc_span m n 0 = Some (x, m1) \<and>
    (if n > 8 then upd_span m1 x (\<lambda>s. s\<lparr>sp_loc := isolated\<rparr>) else Some m1) = Some m2 \<and>
    pages_ok R1 m2 \<and> only_frees R m R1 m2 \<and> R1 x = Unused \<and> R x = Unused \<and> off_pool m2 x \<and> x \<noteq> 0 \<and>
    spans m2 x = Some s \<and> sp_pageSize s = n \<and> clean s \<and> pg_list m2 = pg_list m \<and> brk m2 \<le> brk m + POOL_BYTES \<and>
    (\<forall>a. R a \<noteq> Unused \<longrightarrow> spans m2 a = spans m a)"
proof -
  obtain x m1 R1 where a: "alloc_span m n 0 = Some (x, m1)" "pages_ok R1 m1" "R1 x = Unused" "R x = Unused" "x \<noteq> 0"
      "spans m1 x = Some (fresh_span m n 0 x)" "off_pool m1 x"
      "\<forall>a. R a \<noteq> Unused \<longrightarrow> R1 a = R a \<and> spans m1 a = spans m a"
      "\<forall>a. R a = Unused \<and> R1 a \<noteq> Unused \<longrightarrow> R1 a = Meta \<and> top_page m \<le> sp_pageId (the (spans m1 a))"
      "pg_list m1 = pg_list m" "same_rest m m1" "brk m1 \<le> brk m + POOL_BYTES"
    using alloc_span_ok [OF P room, of n 0] by blast
  let ?f = "\<lambda>s. s\<lparr>sp_loc := isolated\<rparr>"
  let ?m2 = "if n > 8 then m1\<lparr>spans := upd (spans m1) x ?f\<rparr> else m1"
  let ?s = "if n > 8 then ?f (fresh_span m n 0 x) else fresh_span m n 0 x"
  have "pages_ok R1 ?m2" using pages_ok_upd_unused [OF a(2,3,7)] a(2) by simp
  moreover have "only_frees R m R1 ?m2" using a(4,8,9,11) by (auto simp: only_frees_def upd_apply same_rest_def)
  moreover have "spans ?m2 x = Some ?s" using a(6) by (simp add: upd_apply)
  moreover have "sp_pageSize ?s = n" "clean ?s"
    using n by (auto simp: fresh_span_def clean_def zero_span_def PAGEHEAPSIZE_def)
  moreover have "off_pool ?m2 x" using a(7) by (simp add: off_pool_def)
  moreover have "(if n > 8 then upd_span m1 x ?f else Some m1) = Some ?m2" using a(6) by (simp add: upd_span_eq)
  moreover have "pg_list ?m2 = pg_list m" "brk ?m2 \<le> brk m + POOL_BYTES" using a(10,12) by simp_all
  moreover have "\<forall>a. R a \<noteq> Unused \<longrightarrow> spans ?m2 a = spans m a" using a(4,8) by (auto simp: upd_apply)
  ultimately show ?thesis using a(1,3,4,5) by blast
qed

text \<open>What is left in the lists after a span of \<open>n\<close> pages has been taken.\<close>

lemma avail_head:
  assumes P: "pages_ok R m" and q: "avail m q"
  shows "\<exists>i s. i < PAGEHEAPSIZE \<and> pg_list m ! i \<noteq> 0 \<and> R (pg_list m ! i) = Free \<and> spans m (pg_list m ! i) = Some s \<and>
    q \<le> sp_pageSize s \<and> bucket (sp_pageSize s) = i \<and> sp_pageSize s \<le> 65536 \<and> (i < PAGEHEAPSIZE - 1 \<longrightarrow> sp_pageSize s = i + 1)"
proof -
  obtain i s where i: "i < PAGEHEAPSIZE" "pg_list m ! i \<noteq> 0" "spans m (pg_list m ! i) = Some s" "q \<le> sp_pageSize s"
    using q by (auto simp: avail_def)
  note lh = list_head [OF P i(1,2)]
  have "sp_pageSize s \<le> 65536" using role_span(1) [OF P _ i(3)] lh by (auto simp: span_ok_def)
  then show ?thesis using i lh by (intro exI [of _ i] exI [of _ s]) auto
qed

lemma avail_same:
  assumes P: "pages_ok R m" and q: "avail m q" and l: "pg_list m' = pg_list m"
    and s: "\<forall>a. R a \<noteq> Unused \<longrightarrow> spans m' a = spans m a"
  shows "avail m' q"
proof -
  obtain i s where i: "i < PAGEHEAPSIZE" "pg_list m ! i \<noteq> 0" "R (pg_list m ! i) = Free" "spans m (pg_list m ! i) = Some s"
      "q \<le> sp_pageSize s" using avail_head [OF P q] by blast
  then show ?thesis using l s by (auto simp: avail_def intro!: exI [of _ i])
qed

text \<open>The free spans and their lists are left alone.\<close>

definition same_lists :: "(addr \<Rightarrow> role) \<Rightarrow> tcmem \<Rightarrow> tcmem \<Rightarrow> bool" where
  "same_lists R m m' \<longleftrightarrow> pg_list m' = pg_list m \<and> (\<forall>a. R a = Free \<longrightarrow> spans m' a = spans m a)"

lemma avail_same_lists:
  assumes P: "pages_ok R m" and q: "avail m q" and s: "same_lists R m m'" and le: "q' \<le> q"
  shows "avail m' q'"
proof -
  obtain i s where i: "i < PAGEHEAPSIZE" "pg_list m ! i \<noteq> 0" "R (pg_list m ! i) = Free" "spans m (pg_list m ! i) = Some s"
      "q \<le> sp_pageSize s" using avail_head [OF P q] by blast
  then show ?thesis using s le unfolding avail_def same_lists_def by (intro exI [of _ i]) simp
qed

lemma avail_other:
  assumes P: "pages_ok R m" and q: "n < q" "avail m q" and l: "\<exists>h. l = (pg_list m)[n - 1 := h]" and sp: "same_data (spans m) sp"
    and n: "0 < n" "n < PAGEHEAPSIZE"
  shows "avail (m\<lparr>pg_list := l, spans := sp\<rparr>) (q - n)"
proof -
  obtain i s where i: "i < PAGEHEAPSIZE" "pg_list m ! i \<noteq> 0" "spans m (pg_list m ! i) = Some s" "q \<le> sp_pageSize s"
      "i < PAGEHEAPSIZE - 1 \<longrightarrow> sp_pageSize s = i + 1" using avail_head [OF P q(2)] by blast
  have "i \<noteq> n - 1" using i(4,5) q(1) n by auto
  then have li: "l ! i = pg_list m ! i" using l by auto
  obtain s' where s': "sp (pg_list m ! i) = Some s'" "unlinked s' = unlinked s" using same_data_Some [OF sp i(3)] by blast
  then show ?thesis using i(1,2,4) li unlinked_eqD(7) [OF s'(2)] unfolding avail_def
    by (intro exI [of _ i]) simp
qed

lemma avail_split:
  assumes P: "pages_ok R m" and q: "n < q" "avail m q" and n: "0 < n"
    and t: "spans m tmp = Some t" "bucket (sp_pageSize t) = j" "j < sp_pageSize t" "n \<le> j" "j < PAGEHEAPSIZE" "tmp \<noteq> 0"
      "j < PAGEHEAPSIZE - 1 \<longrightarrow> sp_pageSize t = j + 1" "sp_pageSize t \<le> 65536" and head: "pg_list m ! j = tmp" and x: "R x = Unused"
    and m': "\<exists>h. pg_list m' = (pg_list m)[j := h, bucket (sp_pageSize t - n) := tmp]"
      "\<exists>t'. spans m' tmp = Some t' \<and> sp_pageSize t' = sp_pageSize t - n"
      "\<forall>a. a \<noteq> x \<and> a \<noteq> tmp \<longrightarrow> map_option unlinked (spans m' a) = map_option unlinked (spans m a)"
  shows "avail m' (q - n)"
proof -
  obtain i s where i: "i < PAGEHEAPSIZE" "pg_list m ! i \<noteq> 0" "R (pg_list m ! i) = Free" "spans m (pg_list m ! i) = Some s"
      "q \<le> sp_pageSize s" "bucket (sp_pageSize s) = i" "i < PAGEHEAPSIZE - 1 \<longrightarrow> sp_pageSize s = i + 1"
    using avail_head [OF P q(2)] by blast
  let ?b = "bucket (sp_pageSize t - n)"
  have len: "length (pg_list m) = PAGEHEAPSIZE" using pages_okD(5) [OF P] by (simp add: lists_ok_def)
  have b: "?b < PAGEHEAPSIZE" by (rule bucket_less)
  have bt: "?b = min (PAGEHEAPSIZE - 1) (sp_pageSize t - n - 1)" using t(3,4,8) by (intro bucket_size) linarith+
  show ?thesis
  proof (cases "q \<le> sp_pageSize t")
    case True
    have "pg_list m' ! ?b = tmp" using m'(1) b len by auto
    then show ?thesis using m'(2) True b t(6) unfolding avail_def
      by (intro exI [of _ ?b]) (auto simp: diff_le_mono)
  next
    case False
    have ij: "i \<noteq> j" using False i(4,5) head t(1) by auto
    have ib: "i \<noteq> ?b"
    proof
      assume "i = ?b"
      then have im: "i = min (PAGEHEAPSIZE - 1) (sp_pageSize t - n - 1)" using bt by simp
      show False
      proof (cases "i < PAGEHEAPSIZE - 1")
        case True
        then have "sp_pageSize s = i + 1" "i = sp_pageSize t - n - 1" using i(7) im by simp_all
        then show False using i(5) False t(3,4) n by linarith
      next
        case last: False
        then have "j < PAGEHEAPSIZE - 1" using i(1) ij t(5) by linarith
        then show False using t(7) last im n by (simp add: min_def split: if_splits)
      qed
    qed
    have "pg_list m' ! i = pg_list m ! i" using m'(1) ij ib by auto
    moreover have "pg_list m ! i \<noteq> tmp" using i(4,5) t(1) False by auto
    moreover have "pg_list m ! i \<noteq> x" using i(3) x by auto
    ultimately show ?thesis
    proof -
      assume e: "pg_list m' ! i = pg_list m ! i" "pg_list m ! i \<noteq> tmp" "pg_list m ! i \<noteq> x"
      then have "map_option unlinked (spans m' (pg_list m ! i)) = Some (unlinked s)" using m'(3) i(4) by simp
      then obtain s' where s': "spans m' (pg_list m ! i) = Some s'" "unlinked s' = unlinked s" by auto
      then show ?thesis using e(1) i(1,2,5) unlinked_eqD(7) [OF s'(2)] unfolding avail_def by (intro exI [of _ i]) simp
    qed
  qed
qed

lemma fetch_span_found:
  assumes P: "pages_ok R m" and room: "room m POOL_BYTES" and n: "0 < n" "n < PAGEHEAPSIZE"
    and i: "n - 1 \<le> i" "i < PAGEHEAPSIZE" "pg_list m ! i \<noteq> 0"
  shows "\<exists>x m' R'. fetch_span m n = Some (x, m') \<and> pages_ok R' m' \<and> hands_out R m R' m' x n \<and>
    brk m' \<le> brk m + POOL_BYTES \<and> (\<forall>q. n < q \<and> avail m q \<longrightarrow> avail m' (q - n))"
proof -
  have len: "length (pg_list m) = PAGEHEAPSIZE" using pages_okD(5) [OF P] by (simp add: lists_ok_def)
  have b: "bucket n = n - 1" "n - 1 < PAGEHEAPSIZE" using bucket_small [OF n] n by simp_all
  show ?thesis
  proof (cases "pg_list m ! (n - 1) = 0")
    case False
    let ?x = "pg_list m ! (n - 1)"
    obtain s where s: "R ?x = Free" "spans m ?x = Some s" "bucket (sp_pageSize s) = n - 1" "sp_pageSize s = n"
      using list_head [OF P b(2) False] n by auto
    obtain l sp where t: "remove_span m (PageList (n - 1)) ?x = Some (m\<lparr>pg_list := l, spans := sp\<rparr>)"
        "pages_ok (R(?x := Held)) (m\<lparr>pg_list := l, spans := sp\<rparr>)" "same_data (spans m) sp" "\<forall>a. R a \<noteq> Free \<longrightarrow> sp a = spans m a"
        "\<exists>h. l = (pg_list m)[n - 1 := h]"
      using take_free [OF P s(1-3), of Held] by blast
    let ?m = "m\<lparr>pg_list := l, spans := sp\<rparr>"
    have "fetch_span m n = Some (?x, ?m)"
      using False t(1) b len by (subst fetch_span.simps) (simp add: rd_Some)
    moreover have "hands_out R m (R(?x := Held)) ?m ?x n"
    proof -
      obtain s' where "sp ?x = Some s'" "unlinked s' = unlinked s" using same_data_Some [OF t(3) s(2)] by blast
      then have "\<exists>s. sp ?x = Some s \<and> sp_pageSize s = n" using unlinked_eqD(7) s(4) by metis
      moreover have "same_rest m ?m" by (simp add: same_rest_def)
      ultimately show ?thesis using t(4) s(1) unfolding hands_out_def by auto
    qed
    moreover have "avail ?m (q - n)" if q: "n < q" "avail m q" for q
      by (rule avail_other [OF P q t(5) t(3) n])
    ultimately show ?thesis using t(2) by (intro exI [of _ ?x] exI [of _ ?m] exI [of _ "R(?x := Held)"]) simp
  next
    case True
    obtain x m1 m2 R1 s where a: "alloc_span m n 0 = Some (x, m1)"
        "(if n > 8 then upd_span m1 x (\<lambda>s. s\<lparr>sp_loc := isolated\<rparr>) else Some m1) = Some m2"
        "pages_ok R1 m2" "only_frees R m R1 m2" "R1 x = Unused" "R x = Unused" "off_pool m2 x" "x \<noteq> 0"
        "spans m2 x = Some s" "sp_pageSize s = n" "clean s" "pg_list m2 = pg_list m" "brk m2 \<le> brk m + POOL_BYTES"
        "\<forall>a. R a \<noteq> Unused \<longrightarrow> spans m2 a = spans m a"
      using new_span_ok [OF P room n] by blast
    have ti: "to_int n = int n" using n by (intro to_int_small) (simp add: PAGEHEAPSIZE_def)
    have "i \<noteq> n - 1" using True i(3) by metis
    then have "n \<le> i" using i(1) n by linarith
    then obtain j where j: "first_list m2 (int n) = Some (Some j)" "n \<le> j" "j < PAGEHEAPSIZE" "pg_list m2 ! j \<noteq> 0"
      using first_list_cases [of m2 n] a(12) len i by auto
    let ?t = "pg_list m2 ! j"
    obtain t where t: "R1 ?t = Free" "spans m2 ?t = Some t" "bucket (sp_pageSize t) = j" "j < sp_pageSize t"
      using list_head [OF a(3) j(3,4)] by auto
    obtain m3 m' s' where sp: "remove_span m2 (PageList j) ?t = Some m3" "split_spans m3 ?t x n = Some m'"
        "pages_ok (R1(x := Held)) m'" "spans m' x = Some s'" "sp_pageSize s' = n"
        "\<forall>a. a \<noteq> x \<and> R1 a \<noteq> Free \<longrightarrow> spans m' a = spans m2 a" "same_rest m2 m'" "brk m' = brk m2"
        "\<exists>h. pg_list m' = (pg_list m2)[j := h, bucket (sp_pageSize t - n) := ?t]"
        "\<exists>t'. spans m' ?t = Some t' \<and> sp_pageSize t' = sp_pageSize t - n"
        "\<forall>a. a \<noteq> x \<and> a \<noteq> ?t \<longrightarrow> map_option unlinked (spans m' a) = map_option unlinked (spans m2 a)"
      using split_ok [OF a(3) t(1,2) _ n(1) a(5,7,8,9,10,11)] j(2) t(3,4) by auto
    have "fetch_span m n = Some (x, m')"
      using True b len a(1,2,12) j(1,3) sp(1,2) ti
      by (subst fetch_span.simps) (simp add: rd_Some)
    moreover have "hands_out R1 m2 (R1(x := Held)) m' x n"
      using sp a(5) by (auto simp: hands_out_def)
    then have "hands_out R m (R1(x := Held)) m' x n" using a(4) only_frees_hands_out by blast
    moreover have "brk m' \<le> brk m + POOL_BYTES" using sp(8) a(13) by simp
    moreover have "avail m' (q - n)" if q: "n < q" "avail m q" for q
    proof (rule avail_split [OF a(3) q(1)])
      show "avail m2 q" by (rule avail_same [OF P q(2) a(12,14)])
      show "sp_pageSize t \<le> 65536" using role_span(1) [OF a(3) _ t(2)] t(1) by (simp add: span_ok_def)
      show "j < PAGEHEAPSIZE - 1 \<longrightarrow> sp_pageSize t = j + 1" using list_head [OF a(3) j(3,4)] t(2) by simp
    qed (use j t n a(5) sp(9-11) in simp_all)
    ultimately show ?thesis using sp(3) by blast
  qed
qed

definition GROWTH :: nat where "GROWTH = SYSFETCHSIZE + 3 * POOL_BYTES"

lemma fetch_span_ok:
  assumes P: "pages_ok R m" and room: "room m GROWTH" and n: "0 < n" "n < PAGEHEAPSIZE"
  shows "\<exists>x m' R'. fetch_span m n = Some (x, m') \<and> pages_ok R' m' \<and> hands_out R m R' m' x n \<and>
    brk m' \<le> brk m + GROWTH \<and> ((\<forall>i<PAGEHEAPSIZE. pg_list m ! i = 0) \<longrightarrow> avail m' (65536 - n))"
proof (cases "\<exists>i. n - 1 \<le> i \<and> i < PAGEHEAPSIZE \<and> pg_list m ! i \<noteq> 0")
  case True
  have "room m POOL_BYTES" using room by (simp add: room_def GROWTH_def)
  then show ?thesis using fetch_span_found [OF P _ n] True by (fastforce simp: GROWTH_def)
next
  case False
  have len: "length (pg_list m) = PAGEHEAPSIZE" using pages_okD(5) [OF P] by (simp add: lists_ok_def)
  have b: "bucket n = n - 1" "n - 1 < PAGEHEAPSIZE" using bucket_small [OF n] n by simp_all
  have r1: "room m POOL_BYTES" using room by (simp add: room_def GROWTH_def)
  obtain x m1 m2 R1 s where a: "alloc_span m n 0 = Some (x, m1)"
      "(if n > 8 then upd_span m1 x (\<lambda>s. s\<lparr>sp_loc := isolated\<rparr>) else Some m1) = Some m2"
      "pages_ok R1 m2" "only_frees R m R1 m2" "pg_list m2 = pg_list m" "brk m2 \<le> brk m + POOL_BYTES"
    using new_span_ok [OF P r1 n] by blast
  have ini: "ini_brk_addr m2 = ini_brk_addr m" "brk_max m2 = brk_max m" using a(4) by (simp_all add: only_frees_def same_rest_def)
  have r2: "room m2 (SYSFETCHSIZE + POOL_BYTES)" using room a(6) ini by (simp add: room_def GROWTH_def)
  obtain R3 m3 where f: "fetch_from_system m2 = Some m3" "pages_ok R3 m3" "only_frees R1 m2 R3 m3"
      "pg_list m3 ! (PAGEHEAPSIZE - 1) \<noteq> 0" "brk m3 \<le> brk m2 + SYSFETCHSIZE + POOL_BYTES" "avail m3 65536"
    using fetch_from_system_ok [OF a(3) r2] by blast
  have "first_list m2 (int n) = Some None"
    using first_list_cases [of m2 n] a(5) len False n by auto
  moreover have "to_int n = int n" using n by (intro to_int_small) (simp add: PAGEHEAPSIZE_def)
  moreover have "rd (pg_list m2) (PAGEHEAPSIZE - 1) = Some 0"
    using len a(5) False n by (simp add: rd_def PAGEHEAPSIZE_def)
  moreover have "large_span m2 n 0 0 = Some 0" by (subst large_span.simps) simp
  moreover have "rd (pg_list m) (bucket n) = Some 0" using False b len by (simp add: rd_def)
  ultimately have rec: "fetch_span m n = fetch_span m3 n"
    using a(1,2) f(1) n by (subst fetch_span.simps) (simp add: Let_def)
  have fb: "brk m3 \<le> brk m + SYSFETCHSIZE + 2 * POOL_BYTES" using f(5) a(6) by simp
  have ini3: "ini_brk_addr m3 = ini_brk_addr m" "brk_max m3 = brk_max m"
    using f(3) ini by (simp_all add: only_frees_def same_rest_def)
  have r3: "room m3 POOL_BYTES" using room fb ini3 by (simp add: room_def GROWTH_def)
  have "n - 1 \<le> PAGEHEAPSIZE - 1" "PAGEHEAPSIZE - 1 < PAGEHEAPSIZE" using n by (simp_all add: PAGEHEAPSIZE_def)
  then obtain x' m' R' where g: "fetch_span m3 n = Some (x', m')" "pages_ok R' m'" "hands_out R3 m3 R' m' x' n"
      "brk m' \<le> brk m3 + POOL_BYTES" "\<forall>q. n < q \<and> avail m3 q \<longrightarrow> avail m' (q - n)"
    using fetch_span_found [OF f(2) r3 n _ _ f(4)] by blast
  have "avail m' (65536 - n)" using g(5) f(6) n by (simp add: PAGEHEAPSIZE_def)
  have "only_frees R m R3 m3" using a(4) f(3) by (rule only_frees_trans)
  then have "hands_out R m R' m' x' n" using g(3) by (rule only_frees_hands_out)
  moreover have "brk m' \<le> brk m + GROWTH" using g(4) fb by (simp add: GROWTH_def)
  ultimately show ?thesis using rec g(1,2) \<open>avail m' (65536 - n)\<close> by (intro exI [of _ x'] exI [of _ m'] exI [of _ R']) simp
qed

subsection \<open>Giving a span back\<close>

lemma pages_ok_release:
  assumes P: "pages_ok R m" and x: "R x \<noteq> Free" "R x \<noteq> Unused"
  shows "pages_ok (R(x := Unused)) m"
proof -
  note P' = pages_okD [OF P]
  have "pool_ok (R(x := Unused)) m" using P'(2) used_off_pool [OF P x(2)] by (rule pool_ok_extend)
  moreover have "own_ok (R(x := Unused)) m" using P'(3) by (rule own_ok_mono) (auto split: if_splits)
  moreover have "clean_ok (R(x := Unused)) m" using P'(4) by (rule clean_ok_mono) (auto split: if_splits)
  moreover have "lists_ok (R(x := Unused)) m" using P'(5) x(1) by (rule lists_ok_extend) simp
  ultimately show ?thesis using P'(1) by (simp add: pages_ok_def)
qed

lemma return_span_ok:
  assumes P: "pages_ok R m" and x: "R x = Held \<or> (\<exists>k b. R x = Class k b)" "spans m x = Some s" "sp_refcount s = 0"
  shows "\<exists>m'. return_span_to_pgcache m x = Some m' \<and> pages_ok (R(x := Free)) m' \<and>
    (\<forall>a. a \<noteq> x \<and> R a \<noteq> Free \<longrightarrow> spans m' a = spans m a) \<and> same_rest m m' \<and> brk m' = brk m"
proof -
  have Rx: "R x \<noteq> Free" "R x \<noteq> Unused" "R x \<noteq> Meta" using x(1) by auto
  have ow: "span_ok m x s" "sp_start s = ini_brk_addr m + sp_pageId s * 4096"
    using role_span [OF P Rx(2) x(2)] Rx by simp_all
  have tpl: "top_page m < PAGEMAPSIZE" using top_page(3) pages_okD(1) [OF P] by blast
  have idx: "sp_pageId s + sp_pageSize s < PAGEMAPSIZE" "0 < sp_pageSize s" using ow(1) tpl by (simp_all add: span_ok_def)
  then have nextId: "u32 (sp_pageId s + sp_pageSize s) = sp_pageId s + sp_pageSize s" by (simp add: PAGEMAPSIZE_def)
  have prevId: "to_int (size_sub (sp_pageId s) 1) = int (sp_pageId s) - 1"
  proof (cases "sp_pageId s")
    case 0
    then show ?thesis by (simp add: size_sub_def to_int_def)
  next
    case (Suc p)
    then show ?thesis using idx(1) by (simp add: size_sub_le to_int_small PAGEMAPSIZE_def)
  qed
  have guard: "\<not> ((int (sp_pageId s) - 1 \<noteq> -1 \<and> \<not> (0 \<le> int (sp_pageId s) - 1 \<and> int (sp_pageId s) - 1 < int PAGEMAPSIZE)) \<or>
      PAGEMAPSIZE \<le> sp_pageId s + sp_pageSize s)"
    using idx by linarith
  let ?R = "R(x := Unused)"
  let ?f = "\<lambda>s. s\<lparr>sp_objs_size := 0, sp_obj_len := 0, sp_objs := 0, sp_loc := pageheap\<rparr>"
  let ?m1 = "m\<lparr>spans := upd (spans m) x ?f\<rparr>"
  have off: "off_pool m x" using used_off_pool [OF P Rx(2)] .
  have P0: "pages_ok ?R m" using pages_ok_release [OF P Rx(1,2)] .
  have P1: "pages_ok ?R ?m1" using pages_ok_upd_unused [OF P0 _ off] by simp
  have x1: "spans ?m1 x = Some (?f s)" using x(2) by (simp add: upd_apply)
  have disj: "apart (?f s) u" if u: "b \<noteq> x" "?R b \<noteq> Unused" "spans ?m1 b = Some u" for b u
  proof -
    have "R b \<noteq> Unused" "spans m b = Some u" using u by (simp_all add: upd_apply)
    then have "apart s u" using apart_of_own [OF pages_okD(3) [OF P], of x b] u(1) Rx(2) x(2) by simp
    then show ?thesis by (simp add: apart_def)
  qed
  have s1: "0 < sp_pageSize (?f s)" "sp_pageSize (?f s) \<le> 65536" "sp_pageId (?f s) + sp_pageSize (?f s) \<le> top_page ?m1"
      "sp_start (?f s) = ini_brk_addr ?m1 + sp_pageId (?f s) * 4096" "clean (?f s)" "off_pool ?m1 x" "x \<noteq> 0"
    using ow x(3) off role_dom(2) [OF P Rx(2)] by (auto simp: span_ok_def top_page_def clean_def off_pool_def)
  have "\<exists>m2 m'. spanlist_push ?m1 (PageList (bucket (sp_pageSize (?f s)))) x = Some m2 \<and> update_mapping m2 x = Some m' \<and>
    pages_ok (?R(x := Free)) m' \<and> same_data (spans ?m1) (spans m') \<and>
    (\<forall>a. a \<noteq> x \<and> ?R a \<noteq> Free \<longrightarrow> spans m' a = spans ?m1 a) \<and> same_rest ?m1 m' \<and> brk m' = brk ?m1 \<and>
    pg_list m' = (pg_list ?m1)[bucket (sp_pageSize (?f s)) := x]"
    by (rule pages_ok_push_claim [OF P1 _ s1(6,7) x1 s1(1-5)]) (simp, rule disj)
  then obtain m2 m' where m': "spanlist_push ?m1 (PageList (bucket (sp_pageSize s))) x = Some m2" "update_mapping m2 x = Some m'"
      "pages_ok (R(x := Free)) m'" "\<forall>a. a \<noteq> x \<and> R a \<noteq> Free \<longrightarrow> spans m' a = spans ?m1 a" "same_rest ?m1 m'" "brk m' = brk ?m1"
    by auto
  have "return_span_to_pgcache m x = Some m'"
    unfolding return_span_to_pgcache_def x(2) Option.bind.simps Let_def prevId nextId
    using guard m'(1,2) x(2) by (auto simp: upd_span_eq)
  moreover have "\<forall>a. a \<noteq> x \<and> R a \<noteq> Free \<longrightarrow> spans m' a = spans m a" using m'(4) by (auto simp: upd_apply)
  moreover have "same_rest m m'" "brk m' = brk m" using m'(5,6) by (simp_all add: same_rest_def)
  ultimately show ?thesis using m'(3) by blast
qed

subsection \<open>The empty heap\<close>

text \<open>The allocator right after \<open>init_globals\<close> and \<open>sbrk(0)\<close>, with the break at \<open>b\<close>.\<close>

definition start_mem :: "addr \<Rightarrow> addr \<Rightarrow> tcmem" where
  "start_mem b limit = \<lparr>spans = Map.empty, pg_list = replicate PAGEHEAPSIZE 0, ini_brk_addr = b, page_mapping = (\<lambda>_. 0),
     curr_index = 0, chunk = 0, rem_bytes = 0, curr_ind = 0, central = replicate CLASSES 0, idle = replicate CLASSES 0,
     link = (\<lambda>_. 0), caches = (\<lambda>_. replicate CLASSES \<lparr>tl_objs = 0, tl_objlen = 0, tl_max_length = 0\<rparr>), brk = b, brk_max = limit\<rparr>"

lemma start_mem_ok:
  assumes "4096 dvd b" and "0 < b" and "b \<le> limit" and "limit < 2 ^ 63"
  shows "pages_ok (\<lambda>_. Unused) (start_mem b limit)"
proof -
  have "free_set (\<lambda>_. Unused) sp i = {}" for sp i by (simp add: free_set_def)
  then show ?thesis
    using assms by (auto simp: pages_ok_def sys_ok_def pool_ok_def own_ok_def clean_ok_def lists_ok_def start_mem_def
        ring_ok_def ring_def intro: exI [of _ 0])
qed

subsection \<open>Properties\<close>

definition span_bytes :: "struct_Span \<Rightarrow> addr set" where
  "span_bytes s = {sp_start s ..< sp_start s + sp_pageSize s * 4096}"

lemma apart_bytes:
  assumes "apart s t" and "sp_start s = b + sp_pageId s * 4096" and "sp_start t = b + sp_pageId t * 4096"
  shows "span_bytes s \<inter> span_bytes t = {}"
proof -
  have "sp_start t + sp_pageSize t * 4096 \<le> sp_start s \<or> sp_start s + sp_pageSize s * 4096 \<le> sp_start t"
    using assms by (auto simp: apart_def)
  then show ?thesis by (auto simp: span_bytes_def)
qed

lemma used_spans_disjoint:
  assumes P: "pages_ok R m" and ab: "a \<noteq> b" "R a \<notin> {Unused, Meta}" "R b \<notin> {Unused, Meta}"
    and s: "spans m a = Some s" "spans m b = Some t"
  shows "span_bytes s \<inter> span_bytes t = {}"
proof (rule apart_bytes)
  show "apart s t" using apart_of_own [OF pages_okD(3) [OF P] ab(1)] ab s by simp
  show "sp_start s = ini_brk_addr m + sp_pageId s * 4096" "sp_start t = ini_brk_addr m + sp_pageId t * 4096"
    using role_span(2) [OF P _ s(1)] role_span(2) [OF P _ s(2)] ab by simp_all
qed

text \<open>C23. \<open>fetch_span\<close> for up to 255 pages: while the system has memory it returns, with a run of exactly the pages asked
  for, inside the memory obtained so far, that overlaps no span in use; the spans in use stay as they are, and the invariant of
  the page heap is kept.\<close>

theorem fetch_span_exact:
  assumes "pages_ok R m" and "room m GROWTH" and "0 < n" and "n < PAGEHEAPSIZE"
  shows "\<exists>x m' R' s. fetch_span m n = Some (x, m') \<and> pages_ok R' m' \<and> spans m' x = Some s \<and> sp_pageSize s = n \<and>
    ini_brk_addr m \<le> sp_start s \<and> sp_start s + n * 4096 \<le> brk m' \<and> R x \<in> {Unused, Free} \<and> R' x = Held \<and>
    (\<forall>b t. R b \<notin> {Unused, Free, Meta} \<longrightarrow> spans m b = Some t \<longrightarrow>
      R' b = R b \<and> spans m' b = Some t \<and> span_bytes s \<inter> span_bytes t = {})"
proof -
  obtain x m' R' where f: "fetch_span m n = Some (x, m')" "pages_ok R' m'" "hands_out R m R' m' x n"
    using fetch_span_ok [OF assms] by blast
  obtain s where s: "spans m' x = Some s" "sp_pageSize s = n" using f(3) by (auto simp: hands_out_def)
  have x: "R x = Unused \<or> R x = Free" "R' x = Held" using f(3) by (simp_all add: hands_out_def)
  have i: "ini_brk_addr m' = ini_brk_addr m" using f(3) by (simp add: hands_out_def same_rest_def)
  have so: "span_ok m' x s" "sp_start s = ini_brk_addr m' + sp_pageId s * 4096"
    using role_span [OF f(2) _ s(1)] x(2) by simp_all
  have "(sp_pageId s + n) * 4096 \<le> top_page m' * 4096" using so(1) s(2) by (simp add: span_ok_def)
  then have "sp_start s + n * 4096 \<le> brk m'" using so(2) top_page(1) [OF pages_okD(1) [OF f(2)]] by simp
  moreover have "R' b = R b \<and> spans m' b = Some t \<and> span_bytes s \<inter> span_bytes t = {}"
    if b: "R b \<notin> {Unused, Free, Meta}" "spans m b = Some t" for b t
  proof -
    have k: "R' b = R b" "spans m' b = Some t" using f(3) b by (auto simp: hands_out_def)
    have "x \<noteq> b" using x(1) b(1) by auto
    then show ?thesis using used_spans_disjoint [OF f(2), of x b s t] k x(2) b(1) s(1) by simp
  qed
  ultimately show ?thesis using f(1,2) s x so(2) i by (intro exI [of _ x] exI [of _ m'] exI [of _ R'] exI [of _ s]) auto
qed

theorem fetch_span_exact_witness:
  "\<exists>x m' s. fetch_span (start_mem 4096 (2 ^ 40)) 128 = Some (x, m') \<and> spans m' x = Some s \<and> sp_pageSize s = 128 \<and>
    4096 \<le> sp_start s \<and> sp_start s + 128 * 4096 \<le> brk m'"
proof -
  have "pages_ok (\<lambda>_. Unused) (start_mem 4096 (2 ^ 40))" by (rule start_mem_ok) simp_all
  moreover have "room (start_mem 4096 (2 ^ 40)) GROWTH"
    by (simp add: room_def start_mem_def GROWTH_def SYSFETCHSIZE_def pool_numbers)
  ultimately show ?thesis
    using fetch_span_exact [of "\<lambda>_. Unused" "start_mem 4096 (2 ^ 40)" 128] by (auto simp: PAGEHEAPSIZE_def start_mem_def)
qed

text \<open>\<open>return_span_to_pgcache\<close> takes back any run that is in use and has no object out: it returns,
  the run is free again, every other span in use stays as it is, and the invariant is kept.\<close>

theorem return_span_keeps_heap:
  assumes "pages_ok R m" and "R x \<notin> {Unused, Free, Meta}" and "spans m x = Some s" and "sp_refcount s = 0"
  shows "\<exists>m'. return_span_to_pgcache m x = Some m' \<and> pages_ok (R(x := Free)) m' \<and>
    (\<forall>b. b \<noteq> x \<and> R b \<noteq> Free \<longrightarrow> spans m' b = spans m b) \<and> brk m' = brk m"
proof -
  have "R x = Held \<or> (\<exists>k b. R x = Class k b)" using assms(2) by (cases "R x") auto
  then show ?thesis using return_span_ok [OF assms(1) _ assms(3,4)] by blast
qed

theorem return_span_keeps_heap_witness:
  "\<exists>x m1 m2. fetch_span (start_mem 4096 (2 ^ 40)) 128 = Some (x, m1) \<and> return_span_to_pgcache m1 x = Some m2 \<and>
    brk m2 = brk m1"
proof -
  have "pages_ok (\<lambda>_. Unused) (start_mem 4096 (2 ^ 40))" by (rule start_mem_ok) simp_all
  moreover have "room (start_mem 4096 (2 ^ 40)) GROWTH"
    by (simp add: room_def start_mem_def GROWTH_def SYSFETCHSIZE_def pool_numbers)
  ultimately obtain x m1 R s where f: "fetch_span (start_mem 4096 (2 ^ 40)) 128 = Some (x, m1)" "pages_ok R m1"
      "R x = Held" "spans m1 x = Some s"
    using fetch_span_ok [of "\<lambda>_. Unused" "start_mem 4096 (2 ^ 40)" 128] by (auto simp: PAGEHEAPSIZE_def hands_out_def)
  have "sp_refcount s = 0" using role_span(3) [OF f(2) _ f(4)] f(3) by (simp add: clean_def)
  then show ?thesis using return_span_keeps_heap [OF f(2) _ f(4)] f(1,3) by auto
qed

text \<open>A request for 256 pages or more is served with the first span of the last list, however small: its size is not
  compared with the request.\<close>

theorem fetch_span_too_small:
  assumes "length (pg_list m) = PAGEHEAPSIZE" and "pg_list m ! (PAGEHEAPSIZE - 1) = a" and "a \<noteq> 0"
    and "spans m a = Some s" and "sp_next s = a" and "PAGEHEAPSIZE \<le> n" and "n < 2 ^ 52" and "sp_pageSize s < n"
  shows "\<exists>m'. fetch_span m n = Some (a, m') \<and> spans m' a = Some s \<and> sp_pageSize s < n"
proof -
  have "bucket n = PAGEHEAPSIZE - 1" using assms(6,7) by (simp add: bucket_def size_sub_le PAGEHEAPSIZE_def)
  moreover have "rd (pg_list m) (PAGEHEAPSIZE - 1) = Some a" using assms(1,2) by (simp add: rd_def PAGEHEAPSIZE_def)
  moreover have "remove_span m (PageList (PAGEHEAPSIZE - 1)) a = Some (m\<lparr>pg_list := (pg_list m)[PAGEHEAPSIZE - 1 := 0]\<rparr>)"
    using assms(1-5) by (simp add: remove_span_def spanlist_pop_def rd_def wr_def PAGEHEAPSIZE_def)
  ultimately have "fetch_span m n = Some (a, m\<lparr>pg_list := (pg_list m)[PAGEHEAPSIZE - 1 := 0]\<rparr>)"
    using assms(3) by (subst fetch_span.simps) simp
  then show ?thesis using assms(4,8) by simp
qed

theorem fetch_span_too_small_witness:
  "\<exists>m'. fetch_span ((start_mem 4096 (2 ^ 40))\<lparr>pg_list := (replicate PAGEHEAPSIZE 0)[PAGEHEAPSIZE - 1 := 64],
      spans := [64 \<mapsto> zero_span\<lparr>sp_next := 64, sp_prev := 64, sp_pageSize := 300\<rparr>]\<rparr>) 400 = Some (64, m') \<and>
    spans m' 64 = Some (zero_span\<lparr>sp_next := 64, sp_prev := 64, sp_pageSize := 300\<rparr>) \<and>
    sp_pageSize (zero_span\<lparr>sp_next := 64, sp_prev := 64, sp_pageSize := 300\<rparr>) < 400"
  by (rule fetch_span_too_small) (simp_all add: PAGEHEAPSIZE_def)

end
