(* ===== verification/Central_Cache.thy ===== *)
theory Central_Cache
  imports Page_Heap
begin

section \<open>The central cache of the allocator (tc_malloc.c)\<close>

text \<open>
  Spans cut into objects of one size class. The operations find a span with a free object, or cut a new one,
  move a batch of objects out of it, and take objects back. The invariant
  \<open>central_ok\<close> says, for a set of objects that are out, that every object of every span is either
  on the free list of its span or out, and that the reference count of a span is the number of its objects that are out.
\<close>

subsection \<open>Operations\<close>

text \<open>An index below 0 lies before the start of a table.\<close>

definition index_of :: "int \<Rightarrow> nat option" where
  "index_of i = (if 0 \<le> i then Some (nat i) else None)"

text \<open>The search for a span with a free object, once around the list.\<close>

partial_function (option) find_objs :: "tcmem \<Rightarrow> addr \<Rightarrow> addr \<Rightarrow> addr option" where
  "find_objs m start p =
     (if p = 0 then Some 0
      else do {
        s \<leftarrow> spans m p;
        if sp_objs s \<noteq> 0 then Some p
        else if sp_next s = 0 \<or> sp_next s = start then Some 0
        else find_objs m start (sp_next s)
      })"

text \<open>The loop that cuts a span into objects; it is only run for a positive size.\<close>

function carve :: "tcmem \<Rightarrow> addr \<Rightarrow> addr \<Rightarrow> addr \<Rightarrow> nat \<Rightarrow> tcmem option" where
  "carve m span ptr end_p sz =
     (if sz = 0 then None
      else if ptr + sz \<le> end_p
      then case (if ptr = 0 then None else freelist_push (m\<lparr>link := (link m)(ptr := 0)\<rparr>) span ptr) of
             None \<Rightarrow> None
           | Some m1 \<Rightarrow> carve m1 span (ptr + sz) end_p sz
      else Some m)"
  by pat_completeness auto
termination
  by (relation "measure (\<lambda>(m, span, ptr, end_p, sz). end_p - ptr)") auto

declare carve.simps [simp del]

text \<open>The size 0 has the class -1; the list at that index is not one of the lists.\<close>

definition get_span_central :: "tcmem \<Rightarrow> nat \<Rightarrow> (addr \<times> tcmem) option" where
  "get_span_central m sz = do {
     index \<leftarrow> index_of (get_index sz);
     span_start \<leftarrow> rd (central m) index;
     found \<leftarrow> find_objs m span_start span_start;
     if found \<noteq> 0 then Some (found, m)
     else do {
       (new_span, m1) \<leftarrow> fetch_span m BATCH;
       s \<leftarrow> spans m1 new_span;
       let start = sp_start s;
       let end_p = start + u32 (pages_to_bytes (sp_pageSize s));
       m2 \<leftarrow> upd_span m1 new_span (\<lambda>s. s\<lparr>sp_objs_size := u32 sz\<rparr>);
       m3 \<leftarrow> carve m2 new_span start end_p sz;
       m4 \<leftarrow> spanlist_push m3 (CentralList index) new_span;
       m5 \<leftarrow> upd_span m4 new_span (\<lambda>s. s\<lparr>sp_loc := central_list\<rparr>);
       Some (new_span, m5)
     }
   }"

text \<open>The loop of \<open>fetch_objs\<close>: the last object taken, the first one left, and how many were taken.\<close>

function take_objs :: "(addr \<Rightarrow> addr) \<Rightarrow> addr \<Rightarrow> addr \<Rightarrow> nat \<Rightarrow> nat \<Rightarrow> addr \<times> addr \<times> nat" where
  "take_objs nx prev ptr n max_iter =
     (if ptr \<noteq> 0 \<and> n < max_iter then take_objs nx ptr (nx ptr) (Suc n) max_iter else (prev, ptr, n))"
  by pat_completeness auto
termination
  by (relation "measure (\<lambda>(nx, prev, ptr, n, max_iter). max_iter - n)") auto

declare take_objs.simps [simp del]

text \<open>
  The result is the first and the last object of the batch and the count. Without an object there is no last one, and
  its link is written through NULL.
\<close>

definition fetch_objs :: "tcmem \<Rightarrow> nat \<Rightarrow> nat \<Rightarrow> ((addr \<times> addr \<times> nat) \<times> tcmem) option" where
  "fetch_objs m num nbytes = do {
     (span, m1) \<leftarrow> get_span_central m nbytes;
     index \<leftarrow> index_of (get_index nbytes);
     s \<leftarrow> spans m1 span;
     let max_iter = min num (if sp_refcount s \<le> sp_obj_len s then sp_obj_len s - sp_refcount s
       else sp_obj_len s + 2 ^ 64 - sp_refcount s);
     let (prev, ptr, n) = take_objs (link m1) 0 (sp_objs s) 0 max_iter;
     if prev = 0 then None
     else do {
       let m2 = m1\<lparr>link := (link m1)(prev := 0)\<rparr>;
       m3 \<leftarrow> upd_span m2 span (\<lambda>s. s\<lparr>sp_objs := ptr, sp_refcount := u32 (sp_refcount s + n)\<rparr>);
       s' \<leftarrow> spans m3 span;
       m6 \<leftarrow>
         (if sp_refcount s' = sp_obj_len s'
          then do {
            m4 \<leftarrow> remove_span m3 (CentralList index) span;
            m5 \<leftarrow> spanlist_push m4 (IdleList index) span;
            upd_span m5 span (\<lambda>s. s\<lparr>sp_loc := central_idle\<rparr>)
          }
          else Some m3);
       Some ((sp_objs s, prev, n), m6)
     }
   }"

text \<open>
  The loop of \<open>return_objs_to_centralcache\<close>. It leaves the span of the last object; without an
  object the code goes on with an uninitialised pointer.
\<close>

partial_function (option) return_loop :: "tcmem \<Rightarrow> addr \<Rightarrow> addr option \<Rightarrow> (addr option \<times> tcmem) option" where
  "return_loop m start lst =
     (if start = 0 then Some (lst, m)
      else do {
        let next = link m start;
        span_ptr \<leftarrow> map_addr_to_span m start;
        m1 \<leftarrow> (if span_ptr = 0 then None else freelist_push m span_ptr start);
        m2 \<leftarrow> upd_span m1 span_ptr (\<lambda>s. s\<lparr>sp_refcount := u32 (sp_refcount s + 2 ^ 32 - 1)\<rparr>);
        return_loop m2 next (Some span_ptr)
      })"

definition return_objs_to_centralcache :: "tcmem \<Rightarrow> addr \<Rightarrow> nat \<Rightarrow> tcmem option" where
  "return_objs_to_centralcache m start nbytes = do {
     index \<leftarrow> index_of (get_index nbytes);
     (lst, m1) \<leftarrow> return_loop m start None;
     span_ptr \<leftarrow> lst;
     s \<leftarrow> spans m1 span_ptr;
     m3 \<leftarrow>
       (if sp_loc s = central_idle \<and> sp_refcount s \<noteq> sp_obj_len s
        then do {
          m2 \<leftarrow> remove_span m1 (IdleList index) span_ptr;
          spanlist_push m2 (CentralList index) span_ptr
        }
        else Some m1);
     s3 \<leftarrow> spans m3 span_ptr;
     if sp_refcount s3 = 0
     then do {
       m4 \<leftarrow> remove_span m3 (CentralList index) span_ptr;
       m5 \<leftarrow> upd_span m4 span_ptr (\<lambda>s. s\<lparr>sp_next := span_ptr, sp_prev := span_ptr, sp_objs_size := 0,
              sp_obj_len := 0, sp_objs := 0\<rparr>);
       return_span_to_pgcache m5 span_ptr
     }
     else Some m3
   }"

subsection \<open>The loops\<close>

text \<open>Following \<open>next\<close> from a span of a ring leads back to it.\<close>

lemma ring_orbit:
  assumes D: "ring_ok sp D" and a: "a \<in> D"
  shows "\<exists>n>0. (nxt sp ^^ n) a = a" and "(nxt sp ^^ i) a \<in> D"
proof -
  have inD: "(nxt sp ^^ i) a \<in> D" for i by (induction i) (use a ringD(1) D in \<open>auto simp: ring_ok_def\<close>)
  then show "(nxt sp ^^ i) a \<in> D" .
  have "\<not> inj (\<lambda>i. (nxt sp ^^ i) a)"
  proof
    assume "inj (\<lambda>i. (nxt sp ^^ i) a)"
    then have "infinite (range (\<lambda>i. (nxt sp ^^ i) a))" by (meson finite_imageD infinite_UNIV_nat)
    moreover have "range (\<lambda>i. (nxt sp ^^ i) a) \<subseteq> D" using inD by auto
    ultimately show False using D finite_subset by (auto simp: ring_ok_def)
  qed
  then obtain i j where ij: "i < j" "(nxt sp ^^ i) a = (nxt sp ^^ j) a"
    unfolding inj_def by (metis nat_neq_iff)
  have "(nxt sp ^^ (j - k)) a = (nxt sp ^^ (i - k)) a" if "k \<le> i" for k
    using that
  proof (induction k)
    case 0
    then show ?case using ij(2) by simp
  next
    case (Suc k)
    have s: "j - k = Suc (j - Suc k)" "i - k = Suc (i - Suc k)" using Suc.prems ij(1) by linarith+
    have "nxt sp ((nxt sp ^^ (j - Suc k)) a) = nxt sp ((nxt sp ^^ (i - Suc k)) a)"
      using Suc.IH Suc.prems unfolding s by simp
    then show ?case using ring_okD(3) [OF D inD] by metis
  qed
  from this [of i] show "\<exists>n>0. (nxt sp ^^ n) a = a" using ij(1) by (intro exI [of _ "j - i"]) simp
qed

lemma find_objs_ring:
  assumes D: "ring_ok (spans m) D" and a: "a = 0 \<or> a \<in> D"
  shows "\<exists>r. find_objs m a a = Some r \<and> (r = 0 \<or> (r \<in> D \<and> (\<exists>s. spans m r = Some s \<and> sp_objs s \<noteq> 0)))"
proof (cases "a = 0")
  case True
  then show ?thesis by (subst find_objs.simps) simp
next
  case False
  then have aD: "a \<in> D" using a by simp
  let ?f = "nxt (spans m)"
  obtain n where n: "0 < n" "(?f ^^ n) a = a" using ring_orbit(1) [OF D aD] by blast
  have "\<exists>r. find_objs m a ((?f ^^ i) a) = Some r \<and> (r = 0 \<or> (r \<in> D \<and> (\<exists>s. spans m r = Some s \<and> sp_objs s \<noteq> 0)))"
    if "i < n" for i
    using that
  proof (induction "n - i" arbitrary: i)
    case 0
    then show ?case by simp
  next
    case (Suc k)
    let ?p = "(?f ^^ i) a"
    have p: "?p \<in> D" by (rule ring_orbit(2) [OF D aD])
    obtain s where s: "spans m ?p = Some s" using ring_okD(5) [OF D p] by auto
    have nx: "sp_next s = (?f ^^ Suc i) a" using s by (simp add: nxt_def)
    have nz: "sp_next s \<noteq> 0" using ring_okD(6) [OF D ring_orbit(2) [OF D aD, of "Suc i"]] nx by simp
    have step: "find_objs m a ?p = (if sp_objs s \<noteq> 0 then Some ?p
        else if sp_next s = a then Some 0 else find_objs m a (sp_next s))"
      using s nz ring_okD(6) [OF D p] by (subst find_objs.simps) simp
    show ?case
    proof (cases "sp_objs s \<noteq> 0 \<or> sp_next s = a")
      case True
      then show ?thesis using step s p by auto
    next
      case False
      then have "Suc i \<noteq> n" using nx n(2) by metis
      then have i: "Suc i < n" "k = n - Suc i" using Suc.prems Suc.hyps(2) by linarith+
      show ?thesis using Suc.hyps(1) [OF i(2) i(1)] step False nx by simp
    qed
  qed
  from this [of 0] n(1) show ?thesis by simp
qed

abbreviation free_list :: "(addr \<Rightarrow> addr) \<Rightarrow> addr \<Rightarrow> addr list \<Rightarrow> bool" where
  "free_list nx p xs \<equiv> linked (\<lambda>a. Some (nx a)) p xs"

lemma free_list_cong: "(\<And>a. a \<in> set xs \<Longrightarrow> nx a = nx' a) \<Longrightarrow> free_list nx p xs = free_list nx' p xs"
  by (rule linked_cong) simp

lemma free_list_upd: "x \<notin> set xs \<Longrightarrow> free_list (nx(x := v)) p xs = free_list nx p xs"
  by (rule free_list_cong) auto

lemma free_list_push: "free_list nx p xs \<Longrightarrow> x \<noteq> 0 \<Longrightarrow> x \<notin> set xs \<Longrightarrow> free_list (nx(x := p)) x (x # xs)"
  using free_list_upd [of x xs nx p p] by simp

text \<open>The objects cut from \<open>p\<close>, \<open>n\<close> of them, the last one first.\<close>

definition cuts :: "addr \<Rightarrow> nat \<Rightarrow> nat \<Rightarrow> addr list" where
  "cuts p c n = rev (map (\<lambda>i. p + i * c) [0..<n])"

lemma cuts_Suc: "cuts p c (Suc n) = cuts (p + c) c n @ [p]"
proof -
  have "[0..<Suc n] = 0 # map Suc [0..<n]" by (simp add: map_Suc_upt upt_conv_Cons)
  then show ?thesis by (simp add: cuts_def comp_def add.commute add.left_commute)
qed

lemma set_cuts: "set (cuts p c n) = (\<lambda>i. p + i * c) ` {..<n}"
  by (simp add: cuts_def lessThan_atLeast0)

lemma length_cuts [simp]: "length (cuts p c n) = n"
  by (simp add: cuts_def)

lemma carve_closed:
  assumes c: "0 < c" and p: "0 < p" "p \<le> e" and s: "spans m x = Some s"
    and fs: "free_list (link m) (sp_objs s) fs" "\<And>i. p + i * c \<notin> set fs"
  shows "\<exists>nx q. carve m x p e c = Some (m\<lparr>link := nx,
      spans := (spans m)(x \<mapsto> s\<lparr>sp_objs := q, sp_obj_len := sp_obj_len s + (e - p) div c\<rparr>)\<rparr>) \<and>
    free_list nx q (cuts p c ((e - p) div c) @ fs) \<and>
    (\<forall>a. a \<notin> set (cuts p c ((e - p) div c)) \<longrightarrow> nx a = link m a)"
  using p s fs
proof (induction "e - p" arbitrary: p m s fs rule: less_induct)
  case less
  show ?case
  proof (cases "p + c \<le> e")
    case False
    then have z: "(e - p) div c = 0" using c less.prems(2) by auto
    have "carve m x p e c = Some m" using False c by (subst carve.simps) simp
    moreover have "(spans m)(x \<mapsto> s) = spans m" using less.prems(3) by (simp add: fun_upd_idem)
    ultimately show ?thesis unfolding z using less.prems(4)
      by (intro exI [of _ "link m"] exI [of _ "sp_objs s"]) (simp add: cuts_def)
  next
    case True
    let ?s1 = "s\<lparr>sp_objs := p, sp_obj_len := sp_obj_len s + 1\<rparr>"
    let ?m1 = "m\<lparr>link := (link m)(p := sp_objs s), spans := (spans m)(x \<mapsto> ?s1)\<rparr>"
    have step: "carve m x p e c = carve ?m1 x (p + c) e c"
      using True c less.prems(1,3) by (subst carve.simps) (simp add: freelist_push_def upd_span_def)
    have pf: "p \<notin> set fs" using less.prems(5) [of 0] by simp
    have h1: "e - (p + c) < e - p" "0 < p + c" "p + c \<le> e" "spans ?m1 x = Some ?s1" using True c by simp_all
    have h2: "free_list (link ?m1) (sp_objs ?s1) (p # fs)"
      using free_list_push [OF less.prems(4) _ pf] less.prems(1) by simp
    have h3: "p + c + i * c \<notin> set (p # fs)" for i using less.prems(5) [of "Suc i"] c by (simp add: add.assoc)
    have n: "(e - p) div c = Suc ((e - (p + c)) div c)"
    proof -
      have d: "(d + c) div c = Suc (d div c)" for d using c div_add_self2 [of c d] by linarith
      obtain d where "e = p + c + d" using True le_Suc_ex by blast
      then have "e - p = d + c" "e - (p + c) = d" by simp_all
      then show ?thesis using d by simp
    qed
    show ?thesis
      using less.hyps [OF h1 h2 h3]
    proof (elim exE conjE)
      fix nx q
      assume r: "carve ?m1 x (p + c) e c = Some (?m1\<lparr>link := nx, spans := (spans ?m1)(x \<mapsto>
            ?s1\<lparr>sp_objs := q, sp_obj_len := sp_obj_len ?s1 + (e - (p + c)) div c\<rparr>)\<rparr>)"
        "free_list nx q (cuts (p + c) c ((e - (p + c)) div c) @ p # fs)"
        "\<forall>a. a \<notin> set (cuts (p + c) c ((e - (p + c)) div c)) \<longrightarrow> nx a = link ?m1 a"
      show ?thesis
        using step r n by (intro exI [of _ nx] exI [of _ q]) (simp add: cuts_Suc)
    qed
  qed
qed

lemma take_objs_closed:
  assumes "free_list nx p (xs @ ys)" and "xs = [] \<Longrightarrow> prev = prev0" and "n + length xs = k \<or> (n + length xs \<le> k \<and> ys = [])"
  shows "\<exists>q. take_objs nx prev p n k = (if xs = [] then prev else last xs, q, n + length xs) \<and> free_list nx q ys"
  using assms(1,3)
proof (induction xs arbitrary: p prev n)
  case Nil
  then have "p = 0 \<or> \<not> n < k" by (cases ys) auto
  then show ?case using Nil by (subst take_objs.simps) auto
next
  case (Cons x xs)
  then have p: "p = x" "x \<noteq> 0" "free_list nx (nx x) (xs @ ys)" by auto
  have "n < k" using Cons.prems(2) by auto
  then have "take_objs nx prev p n k = take_objs nx x (nx x) (Suc n) k" using p by (subst take_objs.simps) simp
  moreover have "Suc n + length xs = k \<or> (Suc n + length xs \<le> k \<and> ys = [])" using Cons.prems(2) by auto
  ultimately show ?case using Cons.IH [OF p(3), of "Suc n" x] by auto
qed

subsection \<open>The invariant\<close>

definition objs_of :: "nat \<Rightarrow> struct_Span \<Rightarrow> addr set" where
  "objs_of k s = (\<lambda>i. sp_start s + i * class_size k) ` {..<sp_pageSize s * 4096 div class_size k}"

definition class_objs :: "(addr \<Rightarrow> role) \<Rightarrow> tcmem \<Rightarrow> nat \<Rightarrow> addr set" where
  "class_objs R m k = {ob. \<exists>a b s. R a = Class k b \<and> spans m a = Some s \<and> ob \<in> objs_of k s}"

definition class_span :: "(addr \<Rightarrow> addr) \<Rightarrow> nat \<Rightarrow> addr set \<Rightarrow> struct_Span \<Rightarrow> bool" where
  "class_span nx k Out s \<longleftrightarrow> sp_objs_size s = class_size k \<and> sp_refcount s = card (objs_of k s \<inter> Out) \<and>
     sp_pageSize s * 4096 div class_size k \<le> sp_obj_len s \<and>
     (\<exists>fs. free_list nx (sp_objs s) fs \<and> set fs = objs_of k s - Out)"

definition central_ok :: "(addr \<Rightarrow> role) \<Rightarrow> tcmem \<Rightarrow> addr set \<Rightarrow> bool" where
  "central_ok R m Out \<longleftrightarrow> length (central m) = CLASSES \<and> length (idle m) = CLASSES \<and>
     (\<forall>a k b. R a = Class k b \<longrightarrow> k < CLASSES \<and>
        (\<exists>s. spans m a = Some s \<and> class_span (link m) k Out s \<and> (b \<longrightarrow> sp_loc s = central_idle))) \<and>
     (\<forall>k b. ring_ok (spans m) {a. R a = Class k b}) \<and>
     (\<forall>k<CLASSES. (central m ! k = 0 \<or> R (central m ! k) = Class k False) \<and>
        (idle m ! k = 0 \<or> R (idle m ! k) = Class k True)) \<and>
     Out \<subseteq> (\<Union>k. class_objs R m k)"

definition heap_ok :: "(addr \<Rightarrow> role) \<Rightarrow> tcmem \<Rightarrow> addr set \<Rightarrow> bool" where
  "heap_ok R m Out \<longleftrightarrow> pages_ok R m \<and> central_ok R m Out"

text \<open>What the operations leave alone: the caches, the links of the objects that are out, the spans handed out whole.\<close>

definition keeps :: "(addr \<Rightarrow> role) \<Rightarrow> tcmem \<Rightarrow> (addr \<Rightarrow> role) \<Rightarrow> tcmem \<Rightarrow> addr set \<Rightarrow> bool" where
  "keeps R m R' m' Out \<longleftrightarrow> caches m' = caches m \<and> ini_brk_addr m' = ini_brk_addr m \<and> brk_max m' = brk_max m \<and>
     (\<forall>ob\<in>Out. link m' ob = link m ob) \<and> (\<forall>a. R a = Held \<longrightarrow> R' a = Held \<and> spans m' a = spans m a) \<and>
     (\<forall>k. Out \<inter> class_objs R m k \<subseteq> class_objs R' m' k)"

lemma keeps_refl [simp]: "keeps R m R m Out"
  by (simp add: keeps_def)

lemma keeps_trans:
  assumes "keeps R m R1 m1 Out" and "keeps R1 m1 R2 m2 Out"
  shows "keeps R m R2 m2 Out"
proof -
  have "Out \<inter> class_objs R m k \<subseteq> class_objs R2 m2 k" for k using assms unfolding keeps_def by blast
  then show ?thesis using assms by (simp add: keeps_def)
qed

lemma keeps_subset: "keeps R m R' m' Out \<Longrightarrow> Out' \<subseteq> Out \<Longrightarrow> keeps R m R' m' Out'"
  unfolding keeps_def by blast

lemma class_size_pos: "0 < class_size k"
  by (simp add: class_size_def)

lemma objs_of_bytes:
  assumes "ob \<in> objs_of k s"
  shows "sp_start s \<le> ob" "ob + class_size k \<le> sp_start s + sp_pageSize s * 4096" "ob \<in> span_bytes s"
proof -
  obtain i where i: "ob = sp_start s + i * class_size k" "i < sp_pageSize s * 4096 div class_size k"
    using assms by (auto simp: objs_of_def)
  have "Suc i * class_size k \<le> (sp_pageSize s * 4096 div class_size k) * class_size k" using i(2) by (intro mult_le_mono1) simp
  also have "\<dots> \<le> sp_pageSize s * 4096" by (rule div_times_less_eq_dividend)
  finally show "ob + class_size k \<le> sp_start s + sp_pageSize s * 4096" using i(1) by simp
  show "sp_start s \<le> ob" using i(1) by simp
  then show "ob \<in> span_bytes s"
    using \<open>ob + class_size k \<le> sp_start s + sp_pageSize s * 4096\<close> class_size_pos [of k] unfolding span_bytes_def by auto
qed

lemma objs_of_apart:
  assumes "ob \<in> objs_of k s" and "ob' \<in> objs_of k s" and "ob < ob'"
  shows "ob + class_size k \<le> ob'"
proof -
  obtain i j where ij: "ob = sp_start s + i * class_size k" "ob' = sp_start s + j * class_size k"
    using assms(1,2) by (auto simp: objs_of_def)
  then have "i < j" using assms(3) by (metis add_less_cancel_left mult_less_cancel2)
  then have "Suc i * class_size k \<le> j * class_size k" by (intro mult_le_mono1) simp
  then show ?thesis using ij by simp
qed

lemma finite_objs_of [simp]: "finite (objs_of k s)"
  by (simp add: objs_of_def)

lemma card_objs_of: "card (objs_of k s) = sp_pageSize s * 4096 div class_size k"
proof -
  have "inj_on (\<lambda>i. sp_start s + i * class_size k) A" for A
    using class_size_pos [of k] by (auto simp: inj_on_def)
  then show ?thesis by (simp add: objs_of_def card_image)
qed

lemma objs_of_cuts: "objs_of k s = set (cuts (sp_start s) (class_size k) (sp_pageSize s * 4096 div class_size k))"
  by (simp add: objs_of_def set_cuts)

lemma objs_of_geom: "sp_start s' = sp_start s \<Longrightarrow> sp_pageSize s' = sp_pageSize s \<Longrightarrow> objs_of k s' = objs_of k s"
  by (simp add: objs_of_def)

lemma card_objs_small:
  assumes "pages_ok R m" and "R a \<noteq> Unused" and "spans m a = Some s"
  shows "card (objs_of k s) < 2 ^ 31"
proof -
  have "sp_pageSize s * 4096 div class_size k \<le> sp_pageSize s * 4096" by (rule div_le_dividend)
  also have "\<dots> \<le> 65536 * 4096" using role_span(1) [OF assms] by (simp add: span_ok_def)
  finally show ?thesis by (simp add: card_objs_of)
qed

lemma objs_disjoint:
  assumes P: "pages_ok R m" and ab: "a \<noteq> b" "R a \<notin> {Unused, Meta}" "R b \<notin> {Unused, Meta}" "spans m a = Some s" "spans m b = Some t"
  shows "objs_of j s \<inter> objs_of k t = {}"
  using used_spans_disjoint [OF assms] objs_of_bytes(3) by blast

lemma pages_ok_class_update:
  assumes P: "pages_ok R m"
    and same: "pg_list m' = pg_list m" "ini_brk_addr m' = ini_brk_addr m" "page_mapping m' = page_mapping m"
      "chunk m' = chunk m" "rem_bytes m' = rem_bytes m" "curr_ind m' = curr_ind m" "brk m' = brk m" "brk_max m' = brk_max m"
    and other: "\<And>a. \<forall>k b. R' a \<noteq> Class k b \<Longrightarrow> R' a = R a \<and> spans m' a = spans m a"
    and cls: "\<And>a k b. R' a = Class k b \<Longrightarrow> (R a = Held \<or> (\<exists>j c. R a = Class j c)) \<and>
      (\<exists>s s'. spans m a = Some s \<and> spans m' a = Some s' \<and> sp_start s' = sp_start s \<and>
        sp_pageSize s' = sp_pageSize s \<and> sp_pageId s' = sp_pageId s)"
  shows "pages_ok R' m'"
proof -
  note P' = pages_okD [OF P]
  have dom: "spans m' a = None \<longleftrightarrow> spans m a = None" for a
    using other [of a] cls [of a] by (cases "R' a") auto
  have R: "R' a = R a" if "R a = Unused \<or> R a = Free \<or> R a = Meta" for a
    using other [of a] cls [of a] that by (cases "R' a") auto
  have keep: "spans m' a = spans m a" if "R a = Unused \<or> R a = Free \<or> R a = Meta" for a
    using other [of a] R [OF that] that by auto
  have "sys_ok m'" using P'(1) dom by (simp add: sys_ok_def same)
  moreover have "pool_ok R' m'"
  proof -
    obtain k where "rem_bytes m = k * SPAN_BYTES"
        "\<forall>i<k. spans m (get_span (chunk m) (curr_ind m + i)) = Some zero_span \<and> R (get_span (chunk m) (curr_ind m + i)) = Unused"
      using P'(2) by (auto simp: pool_ok_def)
    then show ?thesis using R keep unfolding pool_ok_def same by (intro exI [of _ k]) simp
  qed
  moreover have "own_ok R' m'"
    unfolding own_ok_def
  proof (intro allI impI)
    fix a assume a: "R' a \<noteq> Unused"
    show "\<exists>s. spans m' a = Some s \<and> span_ok m' a s \<and> (R' a \<noteq> Meta \<longrightarrow> sp_start s = ini_brk_addr m' + sp_pageId s * 4096)"
    proof (cases "\<exists>k b. R' a = Class k b")
      case True
      then obtain s s' where s: "spans m a = Some s" "spans m' a = Some s'" "sp_start s' = sp_start s"
          "sp_pageSize s' = sp_pageSize s" "sp_pageId s' = sp_pageId s" "R a \<noteq> Unused" "R a \<noteq> Meta"
        using cls [of a] by auto
      show ?thesis using role_span(1,2) [OF P s(6,1)] s by (simp add: span_ok_def top_page_def same)
    next
      case False
      then have e: "R' a = R a" "spans m' a = spans m a" using other [of a] by auto
      obtain s where "spans m a = Some s" using role_dom(1) [OF P, of a] a e(1) by auto
      then show ?thesis using role_span(1,2) [OF P, of a s] a e by (simp add: span_ok_def top_page_def same)
    qed
  qed
  moreover have "clean_ok R' m'"
    unfolding clean_ok_def
  proof (intro allI impI)
    fix a s assume a: "R' a = Free \<or> R' a = Held" "spans m' a = Some s"
    then have "R' a = R a" "spans m' a = spans m a" using other [of a] by auto
    then show "clean s" using P'(4) a by (auto simp: clean_ok_def)
  qed
  moreover have "lists_ok R' m'"
  proof -
    have "R' a = Free \<longleftrightarrow> R a = Free" for a using R [of a] other [of a] cls [of a] by (cases "R' a") auto
    then have "free_set R' (spans m') i = free_set R (spans m) i" for i using keep by (auto simp: free_set_def)
    moreover have "lists_ok R (m\<lparr>spans := spans m'\<rparr>)" using P'(5) keep by (intro lists_ok_cong) auto
    moreover have "free_set R (spans m') i = free_set R (spans m) i" for i using keep by (auto simp: free_set_def)
    ultimately show ?thesis by (simp add: lists_ok_def same)
  qed
  ultimately show ?thesis by (simp add: pages_ok_def)
qed


subsection \<open>Frames of the invariant\<close>

lemma ring_ok_upd:
  assumes "\<And>s. sp_next (f s) = sp_next s \<and> sp_prev (f s) = sp_prev s"
  shows "ring_ok (upd sp x f) D = ring_ok sp D"
proof -
  have "nxt (upd sp x f) = nxt sp" "prv (upd sp x f) = prv sp" if "sp x \<noteq> None"
    using that assms by (auto simp: nxt_upd prv_upd nxt_def prv_def fun_eq_iff)
  moreover have "upd sp x f = sp" if "sp x = None" using that by (auto simp: upd_def)
  ultimately show ?thesis by (cases "sp x = None") (simp_all add: ring_ok_def)
qed

lemma class_span_cong:
  assumes "unlinked s' = unlinked s" and "\<And>ob. ob \<in> objs_of k s \<Longrightarrow> (ob \<in> Out' \<longleftrightarrow> ob \<in> Out) \<and> (ob \<notin> Out \<longrightarrow> nx' ob = nx ob)"
  shows "class_span nx' k Out' s' = class_span nx k Out s"
proof -
  note u = unlinked_eqD [OF assms(1)]
  have ob: "objs_of k s' = objs_of k s" using u by (simp add: objs_of_def)
  have o: "objs_of k s \<inter> Out' = objs_of k s \<inter> Out" "objs_of k s - Out' = objs_of k s - Out" using assms(2) by blast+
  have "free_list nx' (sp_objs s) fs \<and> set fs = objs_of k s - Out \<longleftrightarrow> free_list nx (sp_objs s) fs \<and> set fs = objs_of k s - Out" for fs
    using free_list_cong [of fs nx' nx] assms(2) by blast
  then show ?thesis unfolding class_span_def ob u(1,2,5,6,7) o by simp
qed

lemma central_okD:
  assumes "central_ok R m Out"
  shows "length (central m) = CLASSES" "length (idle m) = CLASSES" "ring_ok (spans m) {a. R a = Class k b}"
    "k < CLASSES \<Longrightarrow> central m ! k = 0 \<or> R (central m ! k) = Class k False"
    "k < CLASSES \<Longrightarrow> idle m ! k = 0 \<or> R (idle m ! k) = Class k True"
    "Out \<subseteq> (\<Union>k. class_objs R m k)"
  using assms by (simp_all add: central_ok_def)

lemma central_ok_span:
  assumes "central_ok R m Out" and "R a = Class k b"
  shows "\<exists>s. spans m a = Some s \<and> k < CLASSES \<and> class_span (link m) k Out s \<and> (b \<longrightarrow> sp_loc s = central_idle)"
  using assms unfolding central_ok_def by blast

lemma class_objs_mono:
  assumes "\<And>a b s. R a = Class k b \<Longrightarrow> spans m a = Some s \<Longrightarrow>
    \<exists>b' s'. R' a = Class k b' \<and> spans m' a = Some s' \<and> objs_of k s' = objs_of k s"
  shows "class_objs R m k \<subseteq> class_objs R' m' k"
  using assms unfolding class_objs_def by fastforce

lemma central_ok_frame:
  assumes C: "central_ok R m Out" and R: "\<And>a k b. R' a = Class k b \<longleftrightarrow> R a = Class k b"
    and s: "\<And>a k b. R a = Class k b \<Longrightarrow> spans m' a = spans m a"
    and eq: "link m' = link m" "central m' = central m" "idle m' = idle m"
  shows "central_ok R' m' Out" and "class_objs R m k \<subseteq> class_objs R' m' k"
proof -
  show sub: "class_objs R m k \<subseteq> class_objs R' m' k" for k using R s by (intro class_objs_mono) auto
  have "ring_ok (spans m') {a. R' a = Class k b}" for k b
  proof -
    have "ring_ok (spans m) {a. R a = Class k b}" by (rule central_okD(3) [OF C])
    then show ?thesis unfolding R using s by (subst ring_ok_cong [of _ _ "spans m"]) auto
  qed
  moreover have "k < CLASSES \<and> (\<exists>s. spans m' a = Some s \<and> class_span (link m') k Out s \<and> (b \<longrightarrow> sp_loc s = central_idle))"
    if "R' a = Class k b" for a k b
  proof -
    have "R a = Class k b" using that R by simp
    then show ?thesis using central_ok_span [OF C, of a k b] s [of a k b] eq by auto
  qed
  moreover have "Out \<subseteq> (\<Union>k. class_objs R' m' k)" using central_okD(6) [OF C] sub by blast
  ultimately show "central_ok R' m' Out" using C unfolding central_ok_def eq R by blast
qed

text \<open>A step that changes one span, the objects of that span and the rings.\<close>

lemma central_ok_step:
  assumes C: "central_ok R m Out"
    and len: "length (central m') = CLASSES" "length (idle m') = CLASSES"
    and other: "\<And>a. a \<noteq> x \<Longrightarrow> R' a = R a"
    and data: "\<And>a j b t. a \<noteq> x \<Longrightarrow> R a = Class j b \<Longrightarrow> spans m a = Some t \<Longrightarrow>
      \<exists>t'. spans m' a = Some t' \<and> unlinked t' = unlinked t \<and>
        (\<forall>ob\<in>objs_of j t. (ob \<in> Out' \<longleftrightarrow> ob \<in> Out) \<and> (ob \<notin> Out \<longrightarrow> link m' ob = link m ob))"
    and x: "\<And>j b. R' x = Class j b \<Longrightarrow> j < CLASSES \<and>
      (\<exists>s'. spans m' x = Some s' \<and> class_span (link m') j Out' s' \<and> (b \<longrightarrow> sp_loc s' = central_idle))"
    and rings: "\<And>j b. ring_ok (spans m') {a. R' a = Class j b}"
    and heads: "\<And>j. j < CLASSES \<Longrightarrow> (central m' ! j = 0 \<or> R' (central m' ! j) = Class j False) \<and>
      (idle m' ! j = 0 \<or> R' (idle m' ! j) = Class j True)"
    and out: "Out' \<subseteq> (\<Union>k. class_objs R' m' k)"
  shows "central_ok R' m' Out'"
  unfolding central_ok_def
proof (intro conjI allI impI)
  fix a j b assume a: "R' a = Class j b"
  have "j < CLASSES \<and> (\<exists>s. spans m' a = Some s \<and> class_span (link m') j Out' s \<and> (b \<longrightarrow> sp_loc s = central_idle))"
  proof (cases "a = x")
    case True
    then show ?thesis using x a by simp
  next
    case False
    then obtain t where t: "R a = Class j b" "j < CLASSES" "spans m a = Some t" "class_span (link m) j Out t"
        "b \<longrightarrow> sp_loc t = central_idle"
      using a other central_ok_span [OF C, of a j b] by auto
    obtain t' where t': "spans m' a = Some t'" "unlinked t' = unlinked t"
        "\<forall>ob\<in>objs_of j t. (ob \<in> Out' \<longleftrightarrow> ob \<in> Out) \<and> (ob \<notin> Out \<longrightarrow> link m' ob = link m ob)"
      using data [OF False t(1,3)] by blast
    have "class_span (link m') j Out' t'" using class_span_cong [OF t'(2), of j Out' Out "link m'" "link m"] t'(3) t(4) by blast
    then show ?thesis using t t'(1) unlinked_eqD(3) [OF t'(2)] by auto
  qed
  then show "j < CLASSES" "\<exists>s. spans m' a = Some s \<and> class_span (link m') j Out' s \<and> (b \<longrightarrow> sp_loc s = central_idle)"
    by blast+
qed (use len rings heads out in blast)+

text \<open>The spans of a ring that was changed by a list operation have the same objects.\<close>

lemma class_objs_same_data:
  assumes D: "same_data (spans m) (spans m')" and R: "\<And>a b. R a = Class k b \<Longrightarrow> \<exists>b'. R' a = Class k b'"
  shows "class_objs R m k \<subseteq> class_objs R' m' k"
proof (rule class_objs_mono)
  fix a b s assume a: "R a = Class k b" "spans m a = Some s"
  obtain s' where s': "spans m' a = Some s'" "unlinked s' = unlinked s" using same_data_Some [OF D a(2)] by blast
  then show "\<exists>b' s'. R' a = Class k b' \<and> spans m' a = Some s' \<and> objs_of k s' = objs_of k s"
    using R [OF a(1)] unlinked_eqD [OF s'(2)] by (simp add: objs_of_def)
qed

text \<open>A handed-out span of \<open>BATCH\<close> pages cut into objects of class \<open>k\<close>.\<close>

lemma cut_span:
  assumes P: "pages_ok R m" and x: "R x = Held" "spans m x = Some s" "sp_pageSize s = BATCH" and k: "k < CLASSES"
  shows "\<exists>m2 s3 nx. upd_span m x (\<lambda>s. s\<lparr>sp_objs_size := u32 (class_size k)\<rparr>) = Some m2 \<and>
    carve m2 x (sp_start s) (sp_start s + u32 (pages_to_bytes (sp_pageSize s))) (class_size k) =
      Some (m\<lparr>spans := (spans m)(x \<mapsto> s3), link := nx\<rparr>) \<and> sp_start s3 = sp_start s \<and> sp_pageSize s3 = sp_pageSize s \<and>
    sp_pageId s3 = sp_pageId s \<and> sp_objs s3 \<noteq> 0 \<and> (\<forall>Out. Out \<inter> objs_of k s = {} \<longrightarrow> class_span nx k Out s3) \<and>
    (\<forall>a. a \<notin> objs_of k s \<longrightarrow> nx a = link m a)"
proof -
  let ?c = "class_size k"
  have cb: "8 \<le> ?c" "?c \<le> 32768" using class_size_bounds [OF k] by (simp_all add: THRESHALLOC_def)
  have cl: "clean s" "sp_start s = ini_brk_addr m + sp_pageId s * 4096" using role_span [OF P _ x(2)] x(1) by simp_all
  have st: "0 < sp_start s" using cl(2) pages_okD(1) [OF P] by (simp add: sys_ok_def)
  have u: "u32 ?c = ?c" "u32 (pages_to_bytes (sp_pageSize s)) = BATCH * 4096" using cb x(3) by (simp_all add: u32_def BATCH_def)
  let ?N = "BATCH * 4096 div ?c"
  let ?cuts = "cuts (sp_start s) ?c ?N"
  have N: "0 < ?N" using cb by (simp add: BATCH_def div_greater_zero_iff)
  let ?s2 = "s\<lparr>sp_objs_size := ?c\<rparr>"
  let ?m2 = "m\<lparr>spans := (spans m)(x \<mapsto> ?s2)\<rparr>"
  have m2: "upd_span m x (\<lambda>s. s\<lparr>sp_objs_size := u32 ?c\<rparr>) = Some ?m2" using x(2) u by (simp add: upd_span_def)
  have "free_list (link ?m2) (sp_objs ?s2) []" using cl(1) by (simp add: clean_def)
  then obtain nx q where ca: "carve ?m2 x (sp_start s) (sp_start s + BATCH * 4096) ?c = Some (?m2\<lparr>link := nx,
      spans := (spans ?m2)(x \<mapsto> ?s2\<lparr>sp_objs := q, sp_obj_len := sp_obj_len ?s2 + (sp_start s + BATCH * 4096 - sp_start s) div ?c\<rparr>)\<rparr>)"
    and fl: "free_list nx q (cuts (sp_start s) ?c ((sp_start s + BATCH * 4096 - sp_start s) div ?c) @ [])"
      "\<forall>a. a \<notin> set (cuts (sp_start s) ?c ((sp_start s + BATCH * 4096 - sp_start s) div ?c)) \<longrightarrow> nx a = link ?m2 a"
    using carve_closed [of ?c "sp_start s" "sp_start s + BATCH * 4096" ?m2 x ?s2 "[]"] st cb by auto
  let ?s3 = "?s2\<lparr>sp_objs := q, sp_obj_len := ?N\<rparr>"
  have m3: "carve ?m2 x (sp_start s) (sp_start s + BATCH * 4096) ?c = Some (m\<lparr>spans := (spans m)(x \<mapsto> ?s3), link := nx\<rparr>)"
    using ca cl(1) by (simp add: clean_def)
  have nx: "free_list nx q ?cuts" "\<And>a. a \<notin> set ?cuts \<Longrightarrow> nx a = link m a" using fl by simp_all
  have q: "q \<noteq> 0" using nx(1) N by (cases ?cuts) (auto dest: arg_cong [where f = length])
  have cutsx: "set ?cuts = objs_of k s" "objs_of k ?s3 = objs_of k s" using x(3) by (simp_all add: objs_of_cuts objs_of_def set_cuts)
  have "class_span nx k Out ?s3" if "Out \<inter> objs_of k s = {}" for Out
    unfolding class_span_def cutsx(2) using x(3) cl(1) nx(1) cutsx(1) that
    by (auto simp: clean_def Int_commute intro!: exI [of _ ?cuts])
  moreover have "\<forall>a. a \<notin> objs_of k s \<longrightarrow> nx a = link m a" using nx(2) cutsx(1) by simp
  ultimately show ?thesis using m2 m3 u q
    by (intro exI [of _ ?m2] exI [of _ ?s3] exI [of _ nx]) simp
qed

text \<open>A span becomes a span of the class \<open>k\<close>, or stays one, and the others only change their links.\<close>

definition same_pages :: "tcmem \<Rightarrow> tcmem \<Rightarrow> bool" where
  "same_pages m m' \<longleftrightarrow> pg_list m' = pg_list m \<and> ini_brk_addr m' = ini_brk_addr m \<and> page_mapping m' = page_mapping m \<and>
     chunk m' = chunk m \<and> rem_bytes m' = rem_bytes m \<and> curr_ind m' = curr_ind m \<and> brk m' = brk m \<and> brk_max m' = brk_max m"

lemma pages_ok_reclass:
  assumes P: "pages_ok R m" and C: "central_ok R m Out" and same: "same_pages m m'"
    and x: "R x = Held \<or> R x = Class k b" "spans m x = Some s" "spans m' x = Some s'"
    and s': "sp_start s' = sp_start s" "sp_pageSize s' = sp_pageSize s" "sp_pageId s' = sp_pageId s"
    and data: "\<And>a t. a \<noteq> x \<Longrightarrow> spans m a = Some t \<Longrightarrow> \<exists>t'. spans m' a = Some t' \<and> unlinked t' = unlinked t"
    and frame: "\<And>a. a \<noteq> x \<Longrightarrow> \<forall>j b. R a \<noteq> Class j b \<Longrightarrow> spans m' a = spans m a"
  shows "pages_ok (R(x := Class k c)) m'" and "class_objs R m j \<subseteq> class_objs (R(x := Class k c)) m' j"
proof -
  let ?R = "R(x := Class k c)"
  have geom: "\<exists>t'. spans m' a = Some t' \<and> sp_start t' = sp_start t \<and> sp_pageSize t' = sp_pageSize t \<and> sp_pageId t' = sp_pageId t"
    if t: "spans m a = Some t" for a t
  proof (cases "a = x")
    case True
    then show ?thesis using x(2,3) s' t by simp
  next
    case False
    then obtain t' where "spans m' a = Some t'" "unlinked t' = unlinked t" using data [OF False t] by blast
    then show ?thesis using unlinked_eqD [of t' t] by simp
  qed
  show "pages_ok ?R m'"
  proof (rule pages_ok_class_update [OF P])
    fix a assume "\<forall>j b. ?R a \<noteq> Class j b"
    then have "a \<noteq> x" "\<forall>j b. R a \<noteq> Class j b" by (auto split: if_splits)
    then show "?R a = R a \<and> spans m' a = spans m a" using frame by simp
  next
    fix a j b' assume "?R a = Class j b'"
    then have a: "R a = Held \<or> (\<exists>j c. R a = Class j c)" "a = x \<or> (\<exists>j c. R a = Class j c)"
      using x(1) by (auto split: if_splits)
    then obtain t where "spans m a = Some t" using x(2) central_ok_span [OF C, of a] by blast
    then show "(R a = Held \<or> (\<exists>j c. R a = Class j c)) \<and> (\<exists>s s'. spans m a = Some s \<and> spans m' a = Some s' \<and>
        sp_start s' = sp_start s \<and> sp_pageSize s' = sp_pageSize s \<and> sp_pageId s' = sp_pageId s)"
      using a(1) geom [of a t] by simp
  qed (use same in \<open>simp_all add: same_pages_def\<close>)
  show "class_objs R m j \<subseteq> class_objs ?R m' j"
  proof (rule class_objs_mono)
    fix a b' t assume a: "R a = Class j b'" "spans m a = Some t"
    show "\<exists>b' s'. ?R a = Class j b' \<and> spans m' a = Some s' \<and> objs_of j s' = objs_of j t"
      using a x(1) geom [OF a(2)] by (cases "a = x") (auto simp: objs_of_def)
  qed
qed

lemma class_out_disjoint:
  assumes P: "pages_ok R m" and C: "central_ok R m Out" and x: "R x = Held" "spans m x = Some s"
  shows "R a = Class j b \<Longrightarrow> spans m a = Some t \<Longrightarrow> objs_of j t \<inter> objs_of k s = {}" and "Out \<inter> objs_of k s = {}"
proof -
  show off: "objs_of j t \<inter> objs_of k s = {}" if "R a = Class j b" "spans m a = Some t" for a j b t
  proof -
    have "a \<noteq> x" using that(1) x(1) by auto
    then show ?thesis using objs_disjoint [OF P, of a x t s j k] that x by simp
  qed
  have "Out \<subseteq> (\<Union>k. class_objs R m k)" by (rule central_okD(6) [OF C])
  then show "Out \<inter> objs_of k s = {}" using off by (fastforce simp: class_objs_def)
qed

text \<open>The first span on the list of a class has at least \<open>n\<close> objects left.\<close>

definition spare :: "tcmem \<Rightarrow> nat \<Rightarrow> nat \<Rightarrow> bool" where
  "spare m k n \<longleftrightarrow> central m ! k \<noteq> 0 \<and>
     (\<exists>s. spans m (central m ! k) = Some s \<and> sp_refcount s + n \<le> sp_pageSize s * 4096 div class_size k)"

lemma spare_cong:
  assumes "spare m k n" and "central m' ! k = central m ! k"
    and "map_option unlinked (spans m' (central m ! k)) = map_option unlinked (spans m (central m ! k))"
  shows "spare m' k n"
proof -
  obtain s where s: "spans m (central m ! k) = Some s" "sp_refcount s + n \<le> sp_pageSize s * 4096 div class_size k"
    using assms(1) by (auto simp: spare_def)
  then obtain s' where s': "spans m' (central m ! k) = Some s'" "unlinked s' = unlinked s" using assms(3) by auto
  then show ?thesis using assms(1,2) s unlinked_eqD [OF s'(2)] by (simp add: spare_def)
qed

lemma spare_mono: "spare m k n \<Longrightarrow> l \<le> n \<Longrightarrow> spare m k l"
  by (auto simp: spare_def)

text \<open>The cut span enters the list of its class.\<close>

lemma enter_span:
  assumes P: "pages_ok R m" and C: "central_ok R m Out" and x: "R x = Held" "spans m x = Some s" and k: "k < CLASSES"
    and s3: "sp_start s3 = sp_start s" "sp_pageSize s3 = sp_pageSize s" "sp_pageId s3 = sp_pageId s" "class_span nx k Out s3"
    and nx: "\<forall>a. a \<notin> objs_of k s \<longrightarrow> nx a = link m a"
  shows "\<exists>m4 m5 s5. spanlist_push (m\<lparr>spans := (spans m)(x \<mapsto> s3), link := nx\<rparr>) (CentralList k) x = Some m4 \<and>
    upd_span m4 x (\<lambda>s. s\<lparr>sp_loc := central_list\<rparr>) = Some m5 \<and> heap_ok (R(x := Class k False)) m5 Out \<and>
    spans m5 x = Some s5 \<and> sp_objs s5 = sp_objs s3 \<and> keeps (R(x := Unused)) m (R(x := Class k False)) m5 Out \<and> brk m5 = brk m \<and>
    same_lists R m m5 \<and> central m5 = (central m)[k := x] \<and>
    (\<forall>a. a \<noteq> x \<longrightarrow> map_option unlinked (spans m5 a) = map_option unlinked (spans m a)) \<and>
    sp_refcount s5 = sp_refcount s3 \<and> sp_pageSize s5 = sp_pageSize s"
proof -
  let ?R = "R(x := Class k False)" and ?m3 = "m\<lparr>spans := (spans m)(x \<mapsto> s3), link := nx\<rparr>"
  let ?D = "{a. R a = Class k False}"
  have xD: "x \<notin> ?D" "x \<noteq> 0" using x(1) role_dom(2) [OF P, of x] by simp_all
  have rD: "ring_ok (spans ?m3) ?D"
    using central_okD(3) [OF C, of k False] xD by (subst ring_ok_cong [of _ _ "spans m"]) auto
  obtain sp where sp: "spanlist_push ?m3 (CentralList k) x = Some ((set_head ?m3 (CentralList k) x)\<lparr>spans := sp\<rparr>)"
      "ring_ok sp (insert x ?D)" "same_data (spans ?m3) sp" "\<forall>a. a \<notin> insert x ?D \<longrightarrow> sp a = spans ?m3 a"
    using spanlist_push_ring [OF rD xD, of "CentralList k"] central_okD(1,4) [OF C] k by auto
  obtain s4 where s4: "sp x = Some s4" "unlinked s4 = unlinked s3" using same_data_Some [OF sp(3), of x s3] by auto
  note u4 = unlinked_eqD [OF s4(2)]
  let ?s5 = "s4\<lparr>sp_loc := central_list\<rparr>"
  let ?m4 = "(set_head ?m3 (CentralList k) x)\<lparr>spans := sp\<rparr>"
  let ?m5 = "m\<lparr>spans := sp(x \<mapsto> ?s5), link := nx, central := (central m)[k := x]\<rparr>"
  have data: "\<exists>t'. spans ?m5 a = Some t' \<and> unlinked t' = unlinked t" if "a \<noteq> x" "spans m a = Some t" for a t
    using same_data_Some [OF sp(3), of a t] that by simp
  note off = class_out_disjoint [OF P C x]
  have frame: "spans ?m5 a = spans m a" if "a \<noteq> x" "\<forall>j b. R a \<noteq> Class j b" for a using sp(4) that by simp
  have sm: "same_pages m ?m5" by (simp add: same_pages_def)
  have x5: "R x = Held \<or> R x = Class k False" "spans ?m5 x = Some ?s5" "sp_start ?s5 = sp_start s" "sp_pageSize ?s5 = sp_pageSize s"
      "sp_pageId ?s5 = sp_pageId s" using x(1) s3 u4 by simp_all
  have P5: "pages_ok ?R ?m5" and sub: "class_objs R m j \<subseteq> class_objs ?R ?m5 j" for j
    by (rule pages_ok_reclass [OF P C sm x5(1) x(2) x5(2-5)]; (rule data frame; assumption))+
  have ring: "ring_ok (spans ?m5) {a. ?R a = Class j b}" for j b
  proof (cases "j = k \<and> \<not> b")
    case True
    then have "{a. ?R a = Class j b} = insert x ?D" by auto
    moreover have "spans ?m5 = upd sp x (\<lambda>s. s\<lparr>sp_loc := central_list\<rparr>)" using s4(1) by (simp add: upd_def)
    ultimately show ?thesis using sp(2) ring_ok_upd [of "\<lambda>s. s\<lparr>sp_loc := central_list\<rparr>" sp x] by simp
  next
    case False
    then have e: "{a. ?R a = Class j b} = {a. R a = Class j b}" using x(1) by auto
    have "ring_ok (spans ?m5) {a. R a = Class j b} = ring_ok (spans m) {a. R a = Class j b}"
      using sp(4) x(1) False by (intro ring_ok_cong) auto
    then show ?thesis using e central_okD(3) [OF C] by simp
  qed
  have "central_ok ?R ?m5 Out"
  proof (rule central_ok_step [OF C, of _ x])
    show "\<exists>t'. spans ?m5 a = Some t' \<and> unlinked t' = unlinked t \<and>
        (\<forall>ob\<in>objs_of j t. (ob \<in> Out \<longleftrightarrow> ob \<in> Out) \<and> (ob \<notin> Out \<longrightarrow> link ?m5 ob = link m ob))"
      if "a \<noteq> x" "R a = Class j b" "spans m a = Some t" for a j b t
    proof -
      have "\<forall>ob\<in>objs_of j t. nx ob = link m ob" using off(1) [OF that(2,3), of k] nx by blast
      then show ?thesis using data [OF that(1,3)] by simp
    qed
    show "j < CLASSES \<and> (\<exists>s'. spans ?m5 x = Some s' \<and> class_span (link ?m5) j Out s' \<and> (b \<longrightarrow> sp_loc s' = central_idle))"
      if "?R x = Class j b" for j b
      using that k s3(4) u4 by (simp add: class_span_def objs_of_def)
    show "(central ?m5 ! j = 0 \<or> ?R (central ?m5 ! j) = Class j False) \<and> (idle ?m5 ! j = 0 \<or> ?R (idle ?m5 ! j) = Class j True)"
      if "j < CLASSES" for j
      using central_okD(4,5) [OF C that] central_okD(1) [OF C] that x(1) by (cases "j = k") auto
    show "Out \<subseteq> (\<Union>k. class_objs ?R ?m5 k)" using central_okD(6) [OF C] sub by blast
    show "ring_ok (spans ?m5) {a. ?R a = Class j b}" for j b by (rule ring)
  qed (simp_all add: central_okD(1,2) [OF C])
  then have "heap_ok ?R ?m5 Out" using P5 by (simp add: heap_ok_def)
  moreover have "upd_span ?m4 x (\<lambda>s. s\<lparr>sp_loc := central_list\<rparr>) = Some ?m5"
    using s4(1) by (simp add: upd_span_def)
  moreover have "keeps (R(x := Unused)) m ?R ?m5 Out"
  proof -
    have "class_objs (R(x := Unused)) m j \<subseteq> class_objs R m j" for j by (rule class_objs_mono) (auto split: if_splits)
    moreover have "\<forall>ob\<in>Out. nx ob = link m ob" using off(2) [of k] nx by blast
    ultimately show ?thesis using sp(4) sub unfolding keeps_def by fastforce
  qed
  moreover have "same_lists R m ?m5" using sp(4) x(1) by (auto simp: same_lists_def)
  moreover have "\<forall>a. a \<noteq> x \<longrightarrow> map_option unlinked (spans ?m5 a) = map_option unlinked (spans m a)"
    using sp(3) by (simp add: same_data_def)
  ultimately show ?thesis using sp(1) u4 s3(2) by (intro exI [of _ ?m4] exI [of _ ?m5] exI [of _ ?s5]) simp
qed

lemma class_index: "k < CLASSES \<Longrightarrow> get_index (class_size k) = int k"
  using class_size_bounds [of k] class_of_class_size [of k] by (subst get_index_class_of) auto

lemma handed_out_keeps:
  assumes P: "pages_ok R m" and C: "central_ok R m Out" and h: "hands_out R m R1 m1 x n"
  shows "central_ok R1 m1 Out" and "keeps R m (R1(x := Unused)) m1 Out"
proof -
  have h': "same_rest m m1" "\<forall>a. R a \<noteq> Unused \<and> R a \<noteq> Free \<longrightarrow> R1 a = R a \<and> spans m1 a = spans m a" "R x = Unused \<or> R x = Free"
      "R1 x = Held" "\<forall>a. a \<noteq> x \<and> (R a = Unused \<or> R a = Free) \<longrightarrow> R1 a = Unused \<or> R1 a = Free \<or> R1 a = Meta"
    using h by (simp_all add: hands_out_def)
  have R: "R1 a = Class k b \<longleftrightarrow> R a = Class k b" for a k b
  proof (cases "R a = Unused \<or> R a = Free")
    case True
    then have "R1 a = Held \<or> R1 a = Unused \<or> R1 a = Free \<or> R1 a = Meta" using h'(4,5) by (cases "a = x") simp_all
    then show ?thesis using True by auto
  next
    case False
    then show ?thesis using h'(2) by simp
  qed
  have s: "spans m1 a = spans m a" if "R a = Class k b" for a k b using h'(2) that by simp
  have rest: "link m1 = link m" "central m1 = central m" "idle m1 = idle m" "caches m1 = caches m"
      "ini_brk_addr m1 = ini_brk_addr m" "brk_max m1 = brk_max m" using h'(1) by (simp_all add: same_rest_def)
  show "central_ok R1 m1 Out" by (rule central_ok_frame(1) [OF C R s rest(1-3)])
  have "class_objs R m k \<subseteq> class_objs (R1(x := Unused)) m1 k" for k
    by (rule class_objs_mono) (use R s h'(3) in auto)
  then show "keeps R m (R1(x := Unused)) m1 Out"
    using rest h'(2,3) by (auto simp: keeps_def)
qed

text \<open>
  What a call needs of the system: either room for everything that one \<open>fetch_span\<close> can ask for, or a list of free spans that starts
  with one of more than \<open>q\<close> pages, and then only room for a chunk of the pool. In that case \<open>q - BATCH\<close> pages are left.
\<close>

definition stocked :: "tcmem \<Rightarrow> nat \<Rightarrow> nat \<Rightarrow> bool" where
  "stocked m g q \<longleftrightarrow> room m g \<and> (g = GROWTH \<and> q = 0 \<or> g = POOL_BYTES \<and> BATCH < q \<and> avail m q)"

lemma stocked_fetch:
  assumes P: "pages_ok R m" and s: "stocked m g q"
  shows "\<exists>x m' R'. fetch_span m BATCH = Some (x, m') \<and> pages_ok R' m' \<and> hands_out R m R' m' x BATCH \<and> brk m' \<le> brk m + g \<and>
    (q \<noteq> 0 \<longrightarrow> avail m' (q - BATCH)) \<and> (g = GROWTH \<and> (\<forall>i<PAGEHEAPSIZE. pg_list m ! i = 0) \<longrightarrow> avail m' (65536 - BATCH))"
proof -
  have n: "0 < BATCH" "BATCH < PAGEHEAPSIZE" by (simp_all add: BATCH_def PAGEHEAPSIZE_def)
  show ?thesis
  proof (cases "q = 0")
    case True
    then have "room m GROWTH" "g = GROWTH" using s by (auto simp: stocked_def)
    then show ?thesis using fetch_span_ok [OF P _ n] True by simp
  next
    case False
    then have q: "room m POOL_BYTES" "g = POOL_BYTES" "BATCH < q" "avail m q" using s by (auto simp: stocked_def)
    obtain i and u :: struct_Span where i: "i < PAGEHEAPSIZE" "pg_list m ! i \<noteq> 0" "q \<le> sp_pageSize u" "i < PAGEHEAPSIZE - 1 \<longrightarrow> sp_pageSize u = i + 1"
      using avail_head [OF P q(4)] by blast
    have "BATCH - 1 \<le> i"
    proof (cases "i < PAGEHEAPSIZE - 1")
      case True
      then show ?thesis using i(3,4) q(3) by simp
    next
      case False
      then show ?thesis using n(2) by linarith
    qed
    moreover have "POOL_BYTES \<noteq> GROWTH" by (simp add: GROWTH_def SYSFETCHSIZE_def)
    ultimately show ?thesis using fetch_span_found [OF P q(1) n _ i(1,2)] q(2-4) by blast
  qed
qed

text \<open>The span that \<open>get_span_central\<close> returns has a free object.\<close>

lemma get_span_central_ok:
  assumes H: "heap_ok R m Out" and k: "k < CLASSES" and sup: "stocked m g q"
  shows "\<exists>x m' R' s. get_span_central m (class_size k) = Some (x, m') \<and> heap_ok R' m' Out \<and> R' x = Class k False \<and>
    spans m' x = Some s \<and> sp_objs s \<noteq> 0 \<and> keeps R m R' m' Out \<and> brk m' \<le> brk m + g \<and>
    (q \<noteq> 0 \<longrightarrow> avail m' (q - BATCH)) \<and>
    (g = GROWTH \<and> (\<forall>i<PAGEHEAPSIZE. pg_list m ! i = 0) \<and> central m ! k = 0 \<longrightarrow> avail m' (65536 - BATCH)) \<and>
    (\<forall>j<CLASSES. j \<noteq> k \<longrightarrow> central m' ! j = central m ! j \<and> (\<forall>n. spare m j n \<longrightarrow> spare m' j n)) \<and>
    (central m ! k = 0 \<longrightarrow> spare m' k (BATCH * 4096 div class_size k))"
proof -
  have P: "pages_ok R m" and C: "central_ok R m Out" using H by (simp_all add: heap_ok_def)
  let ?D = "{a. R a = Class k False}"
  have ix: "index_of (get_index (class_size k)) = Some k" using class_index [OF k] by (simp add: index_of_def)
  have rd: "rd (central m) k = Some (central m ! k)" using central_okD(1) [OF C] k by (simp add: rd_def)
  have "central m ! k = 0 \<or> central m ! k \<in> ?D" using central_okD(4) [OF C k] by simp
  then obtain r where r: "find_objs m (central m ! k) (central m ! k) = Some r"
      "r = 0 \<or> (r \<in> ?D \<and> (\<exists>s. spans m r = Some s \<and> sp_objs s \<noteq> 0))"
    using find_objs_ring [OF central_okD(3) [OF C]] by blast
  show ?thesis
  proof (cases "r = 0")
    case False
    then have "get_span_central m (class_size k) = Some (r, m)" using ix rd r(1) by (simp add: get_span_central_def)
    moreover have "q \<noteq> 0 \<longrightarrow> avail m (q - BATCH)"
      using avail_same_lists [OF P, of q m "q - BATCH"] sup by (auto simp: stocked_def same_lists_def)
    moreover have "central m ! k \<noteq> 0"
    proof
      assume "central m ! k = 0"
      then show False using r(1) False by (simp add: find_objs.simps)
    qed
    ultimately show ?thesis using H r(2) False by (auto intro!: exI [of _ r] exI [of _ m] exI [of _ R])
  next
    case True
    obtain x m1 R1 where f: "fetch_span m BATCH = Some (x, m1)" "pages_ok R1 m1" "hands_out R m R1 m1 x BATCH"
        "brk m1 \<le> brk m + g" "q \<noteq> 0 \<longrightarrow> avail m1 (q - BATCH)"
        "g = GROWTH \<and> (\<forall>i<PAGEHEAPSIZE. pg_list m ! i = 0) \<longrightarrow> avail m1 (65536 - BATCH)"
      using stocked_fetch [OF P sup] by blast
    obtain s where s: "spans m1 x = Some s" "sp_pageSize s = BATCH" "R1 x = Held" using f(3) by (auto simp: hands_out_def)
    note ho = handed_out_keeps [OF P C f(3)]
    obtain m2 s3 nx where c: "upd_span m1 x (\<lambda>s. s\<lparr>sp_objs_size := u32 (class_size k)\<rparr>) = Some m2"
        "carve m2 x (sp_start s) (sp_start s + u32 (pages_to_bytes (sp_pageSize s))) (class_size k) =
          Some (m1\<lparr>spans := (spans m1)(x \<mapsto> s3), link := nx\<rparr>)"
        "sp_start s3 = sp_start s" "sp_pageSize s3 = sp_pageSize s" "sp_pageId s3 = sp_pageId s" "sp_objs s3 \<noteq> 0"
        "\<forall>Out. Out \<inter> objs_of k s = {} \<longrightarrow> class_span nx k Out s3" "\<forall>a. a \<notin> objs_of k s \<longrightarrow> nx a = link m1 a"
      using cut_span [OF f(2) s(3,1,2) k] by blast
    have cs: "class_span nx k Out s3" "Out \<inter> objs_of k s = {}" using c(7) class_out_disjoint(2) [OF f(2) ho(1) s(3,1)] by blast+
    have rc: "sp_refcount s3 = 0"
    proof -
      have "objs_of k s3 \<inter> Out = {}" using cs(2) c(3,4) by (auto simp: objs_of_def)
      then show ?thesis using cs(1) by (simp add: class_span_def)
    qed
    obtain m4 m5 s5 where e: "spanlist_push (m1\<lparr>spans := (spans m1)(x \<mapsto> s3), link := nx\<rparr>) (CentralList k) x = Some m4"
        "upd_span m4 x (\<lambda>s. s\<lparr>sp_loc := central_list\<rparr>) = Some m5" "heap_ok (R1(x := Class k False)) m5 Out"
        "spans m5 x = Some s5" "sp_objs s5 = sp_objs s3" "keeps (R1(x := Unused)) m1 (R1(x := Class k False)) m5 Out" "brk m5 = brk m1"
        "same_lists R1 m1 m5" "central m5 = (central m1)[k := x]"
        "\<forall>a. a \<noteq> x \<longrightarrow> map_option unlinked (spans m5 a) = map_option unlinked (spans m1 a)"
        "sp_refcount s5 = sp_refcount s3" "sp_pageSize s5 = sp_pageSize s"
      using enter_span [OF f(2) ho(1) s(3,1) k c(3-5) cs(1) c(8)] by blast
    have "get_span_central m (class_size k) = Some (x, m5)"
      unfolding get_span_central_def ix rd Option.bind.simps r(1) Let_def
      using True f(1) s(1) c(1,2) e(1,2) by (simp del: page_bytes)
    moreover have "avail m1 p \<Longrightarrow> avail m5 p" for p using avail_same_lists [OF f(2) _ e(8)] by blast
    moreover have "central m5 ! j = central m ! j \<and> (\<forall>n. spare m j n \<longrightarrow> spare m5 j n)" if j: "j < CLASSES" "j \<noteq> k" for j
    proof -
      have ce: "central m5 ! j = central m ! j" using e(9) j(2) f(3) by (simp add: hands_out_def same_rest_def)
      have "map_option unlinked (spans m5 (central m ! j)) = map_option unlinked (spans m (central m ! j))" if "central m ! j \<noteq> 0"
      proof -
        have "R (central m ! j) = Class j False" using central_okD(4) [OF C j(1)] that by simp
        then have "R1 (central m ! j) = Class j False" "spans m1 (central m ! j) = spans m (central m ! j)"
          using f(3) by (simp_all add: hands_out_def)
        moreover from this have "central m ! j \<noteq> x" using s(3) by auto
        ultimately show ?thesis using e(10) by simp
      qed
      then show ?thesis using ce spare_cong [of m j _ m5] by (auto simp: spare_def)
    qed
    moreover have "spare m5 k (BATCH * 4096 div class_size k)"
    proof -
      have "length (central m1) = CLASSES" using central_okD(1) [OF ho(1)] .
      then have "central m5 ! k = x" using e(9) k by simp
      moreover have "x \<noteq> 0" using role_dom(2) [OF f(2), of x] s(3) by simp
      ultimately show ?thesis using e(4,11,12) s(2) rc by (simp add: spare_def)
    qed
    ultimately show ?thesis using e c(6) keeps_trans [OF ho(2) e(6)] f(4-6)
      by (intro exI [of _ x] exI [of _ m5] exI [of _ "R1(x := Class k False)"] exI [of _ s5]) simp
  qed
qed

end
