(* ===== verification/Central_Objects.thy ===== *)
theory Central_Objects
  imports Central_Cache
begin

section \<open>Objects leave and return to the central cache (tc_malloc.c)\<close>

text \<open>
  \<open>fetch_objs\<close> and \<open>return_objs_to_centralcache\<close> on a cache that satisfies its invariant: the batch that
  is fetched was not out before, and is out afterwards; the objects that are returned are free again. A span
  moves between the two lists of its class, and back to the page heap when its last object has come back.
\<close>

subsection \<open>Free lists\<close>

lemma free_list_cut:
  assumes "free_list nx p (xs @ ys)" and "xs \<noteq> []"
  shows "free_list (nx(last xs := 0)) p xs"
  using assms
proof (induction xs arbitrary: p)
  case Nil
  then show ?case by simp
next
  case (Cons x xs)
  have d: "x \<notin> set xs" using linked_distinct [OF Cons.prems(1)] by simp
  have p: "p = x" "x \<noteq> 0" "free_list nx (nx x) (xs @ ys)" using Cons.prems(1) by auto
  show ?case
  proof (cases "xs = []")
    case True
    then show ?thesis using p by simp
  next
    case False
    then have "x \<noteq> last xs" using d last_in_set [OF False] by metis
    then show ?thesis using Cons.IH [OF p(3) False] p False by simp
  qed
qed

lemma free_list_nonempty: "free_list nx p xs \<Longrightarrow> p \<noteq> 0 \<longleftrightarrow> xs \<noteq> []"
  by (cases xs) auto

subsection \<open>A span changes its list\<close>

definition list_ref :: "bool \<Rightarrow> nat \<Rightarrow> head_ref" where
  "list_ref b k = (if b then IdleList k else CentralList k)"

lemma relink_ok:
  assumes H: "heap_ok R m Out" and x: "R x = Class k b" "spans m x = Some s" "sp x = Some s'"
      "unlinked s' = (unlinked s)\<lparr>sp_loc := l\<rparr>" and l: "c \<longrightarrow> l = central_idle"
    and data: "\<And>a. a \<noteq> x \<Longrightarrow> map_option unlinked (sp a) = map_option unlinked (spans m a)"
    and frame: "\<And>a. \<forall>j b. R a \<noteq> Class j b \<Longrightarrow> sp a = spans m a"
    and len: "length ce = CLASSES" "length il = CLASSES"
    and rings: "\<And>j b. ring_ok sp {a. (R(x := Class k c)) a = Class j b}"
    and heads: "\<And>j. j < CLASSES \<Longrightarrow> (ce ! j = 0 \<or> (R(x := Class k c)) (ce ! j) = Class j False) \<and>
      (il ! j = 0 \<or> (R(x := Class k c)) (il ! j) = Class j True)"
  shows "heap_ok (R(x := Class k c)) (m\<lparr>spans := sp, central := ce, idle := il\<rparr>) Out \<and>
    keeps R m (R(x := Class k c)) (m\<lparr>spans := sp, central := ce, idle := il\<rparr>) Out"
proof -
  let ?R = "R(x := Class k c)" and ?m = "m\<lparr>spans := sp, central := ce, idle := il\<rparr>"
  have P: "pages_ok R m" and C: "central_ok R m Out" using H by (simp_all add: heap_ok_def)
  have s': "sp_objs s' = sp_objs s" "sp_obj_len s' = sp_obj_len s" "sp_loc s' = l" "sp_start s' = sp_start s"
      "sp_objs_size s' = sp_objs_size s" "sp_refcount s' = sp_refcount s" "sp_pageSize s' = sp_pageSize s"
      "sp_pageId s' = sp_pageId s"
    using unlinked_eqD [of s' "s\<lparr>sp_loc := l\<rparr>"] x(4) by (simp_all add: unlinked_def)
  have d: "\<exists>t'. sp a = Some t' \<and> unlinked t' = unlinked t" if "a \<noteq> x" "spans m a = Some t" for a t
    using data [OF that(1)] that(2) by (cases "sp a") simp_all
  have sm: "same_pages m ?m" by (simp add: same_pages_def)
  have fr: "spans ?m a = spans m a" if "a \<noteq> x" "\<forall>j b. R a \<noteq> Class j b" for a using frame that by simp
  have x': "R x = Held \<or> R x = Class k b" "spans ?m x = Some s'" using x(1,3) by simp_all
  have P': "pages_ok ?R ?m" and sub: "class_objs R m j \<subseteq> class_objs ?R ?m j" for j
    by (rule pages_ok_reclass [OF P C sm x'(1) x(2) x'(2) s'(4,7,8)]; (rule fr | simp add: d); assumption)+
  have "class_span (link m) k Out s" "k < CLASSES" using central_ok_span [OF C x(1)] x(2) by auto
  then have xs: "class_span (link m) k Out s'" "k < CLASSES" using s' by (simp_all add: class_span_def objs_of_def)
  have "central_ok ?R ?m Out"
  proof (rule central_ok_step [OF C, of _ x])
    show "Out \<subseteq> (\<Union>k. class_objs ?R ?m k)" using central_okD(6) [OF C] sub by blast
  qed (use len rings heads d xs x(3) s'(3) l in auto)
  then have "heap_ok ?R ?m Out" using P' by (simp add: heap_ok_def)
  moreover have "keeps R m ?R ?m Out" using sub frame x(1) by (auto simp: keeps_def)
  ultimately show ?thesis by blast
qed

text \<open>A span goes from the list \<open>list_ref b k\<close> to the list \<open>list_ref c k\<close>, and its location is set.\<close>

lemma head_of_list_ref: "central_ok R m Out \<Longrightarrow> k < CLASSES \<Longrightarrow>
    in_table m (list_ref b k) \<and> (head_of m (list_ref b k) = 0 \<or> R (head_of m (list_ref b k)) = Class k b)"
  using central_okD [of R m Out] by (cases b) (auto simp: list_ref_def)

lemma set_list_ref:
  "(set_head m (list_ref b k) v)\<lparr>spans := sp\<rparr> =
    m\<lparr>spans := sp, central := central (set_head m (list_ref b k) v), idle := idle (set_head m (list_ref b k) v)\<rparr>"
  by (cases b) (simp_all add: list_ref_def)

lemma in_table_list_ref: "length (central m) = CLASSES \<Longrightarrow> length (idle m) = CLASSES \<Longrightarrow> in_table m (list_ref b k) = (k < CLASSES)"
  by (simp add: list_ref_def)

lemma list_ref_eq [simp]: "list_ref b k = list_ref c j \<longleftrightarrow> b = c \<and> k = j"
  by (auto simp: list_ref_def)

lemma length_set_list_ref [simp]: "length (central (set_head m (list_ref b k) v)) = length (central m)"
    "length (idle (set_head m (list_ref b k) v)) = length (idle m)"
  by (simp_all add: list_ref_def)

text \<open>
  The relinking itself. The span may be in the list it goes to already: its location can be out of date, and then the other
  list, which it is removed from, does not hold it.
\<close>

lemma relink_ring:
  assumes C: "central_ok R m Out" and x: "R x = Class k b" and k: "k < CLASSES"
  shows "\<exists>m1 h sp. remove_span m (list_ref (\<not> c) k) x = Some m1 \<and>
    spanlist_push m1 (list_ref c k) x = Some ((set_head (set_head m (list_ref (\<not> c) k) h) (list_ref c k) x)\<lparr>spans := sp\<rparr>) \<and>
    (h = 0 \<or> (R(x := Class k c)) h = Class k (\<not> c)) \<and> same_data (spans m) sp \<and>
    (\<forall>a. \<not> (\<exists>b. R a = Class k b) \<longrightarrow> sp a = spans m a) \<and>
    (\<forall>j b. ring_ok sp {a. (R(x := Class k c)) a = Class j b})"
proof -
  let ?R = "R(x := Class k c)" and ?D = "\<lambda>b. {a. R a = Class k b}"
  note tab = head_of_list_ref [OF C k]
  note D = central_okD(3) [OF C]
  have rest: "ring_ok sp {a. ?R a = Class j d}"
    if "j \<noteq> k" "\<forall>a. \<not> (\<exists>b. R a = Class k b) \<longrightarrow> sp a = spans m a" for sp j d
  proof -
    have "{a. ?R a = Class j d} = {a. R a = Class j d}" using that(1) x by auto
    moreover have "ring_ok sp {a. R a = Class j d} = ring_ok (spans m) {a. R a = Class j d}"
      using that by (intro ring_ok_cong) auto
    ultimately show ?thesis using D by simp
  qed
  have rings: "ring_ok sp {a. ?R a = Class j d}"
    if "\<forall>a. \<not> (\<exists>b. R a = Class k b) \<longrightarrow> sp a = spans m a" "ring_ok sp {a. ?R a = Class k c}" "ring_ok sp {a. ?R a = Class k (\<not> c)}" for sp j d
    using rest [of j sp d] that by (cases "j = k"; cases "d = c") auto
  show ?thesis
  proof (cases "b = c")
    case True
    have xD: "x \<in> ?D c" using x True by simp
    obtain m1 sp h where r: "remove_span m (list_ref (\<not> c) k) x = Some m1"
        "spanlist_push m1 (list_ref c k) x = Some ((set_head (set_head m (list_ref (\<not> c) k) h) (list_ref c k) x)\<lparr>spans := sp\<rparr>)"
        "if head_of m (list_ref (\<not> c) k) = x then h = 0 \<or> h \<in> ?D c - {x} else h = head_of m (list_ref (\<not> c) k)"
        "ring_ok sp (?D c)" "same_data (spans m) sp" "\<forall>a. a \<notin> ?D c \<longrightarrow> sp a = spans m a"
      using move_span_ring [OF D xD, of "list_ref (\<not> c) k" "list_ref c k"] tab [of c] tab [of "\<not> c"] by auto
    have "x \<noteq> 0" using ring_okD(6) [OF D xD] .
    then have "head_of m (list_ref (\<not> c) k) \<noteq> x" using tab [of "\<not> c"] x True by auto
    then have "h = head_of m (list_ref (\<not> c) k)" using r(3) by simp
    then have h: "h = 0 \<or> ?R h = Class k (\<not> c)" using tab [of "\<not> c"] x True by auto
    have R: "?R = R" using x True by auto
    have "ring_ok sp (?D (\<not> c)) = ring_ok (spans m) (?D (\<not> c))" using r(6) by (intro ring_ok_cong) auto
    then have "ring_ok sp {a. ?R a = Class k (\<not> c)}" unfolding R using D by simp
    moreover have "ring_ok sp {a. ?R a = Class k c}" unfolding R using r(4) .
    ultimately show ?thesis using r(1,2,5,6) h rings [of sp]
      by (intro exI [of _ m1] exI [of _ h] exI [of _ sp]) auto
  next
    case False
    then have xD: "x \<in> ?D (\<not> c)" "x \<notin> ?D c" using x by auto
    have sets: "{a. ?R a = Class k (\<not> c)} = ?D (\<not> c) - {x}" "{a. ?R a = Class k c} = insert x (?D c)" using x False by auto
    obtain sp1 h where r: "remove_span m (list_ref (\<not> c) k) x = Some ((set_head m (list_ref (\<not> c) k) h)\<lparr>spans := sp1\<rparr>)"
        "if head_of m (list_ref (\<not> c) k) = x then h = 0 \<or> h \<in> ?D (\<not> c) - {x} else h = head_of m (list_ref (\<not> c) k)"
        "ring_ok sp1 (?D (\<not> c) - {x})" "same_data (spans m) sp1" "\<forall>a. a \<notin> ?D (\<not> c) \<longrightarrow> sp1 a = spans m a"
      using remove_span_ring [OF D xD(1), of "list_ref (\<not> c) k"] tab [of "\<not> c"] by blast
    have h: "h = 0 \<or> ?R h = Class k (\<not> c)" using r(2) tab [of "\<not> c"] by (auto split: if_splits)
    let ?m = "(set_head m (list_ref (\<not> c) k) h)\<lparr>spans := sp1\<rparr>"
    have "ring_ok sp1 (?D c) = ring_ok (spans m) (?D c)" using r(5) by (intro ring_ok_cong) auto
    then have D1: "ring_ok (spans ?m) (?D c)" using D by simp
    have x0: "x \<noteq> 0" "spans ?m x \<noteq> None"
      using ring_okD(5,6) [OF D xD(1)] same_data_None [OF r(4)] by auto
    have hd: "in_table ?m (list_ref c k)" "head_of ?m (list_ref c k) = head_of m (list_ref c k)"
      using tab [of c] tab [of "\<not> c"] by (simp_all add: head_of_set_head)
    have hd2: "head_of ?m (list_ref c k) = 0 \<or> head_of ?m (list_ref c k) \<in> ?D c" using hd(2) tab [of c] by simp
    obtain sp where p: "spanlist_push ?m (list_ref c k) x = Some ((set_head ?m (list_ref c k) x)\<lparr>spans := sp\<rparr>)"
        "ring_ok sp (insert x (?D c))" "same_data (spans ?m) sp" "\<forall>a. a \<notin> insert x (?D c) \<longrightarrow> sp a = spans ?m a"
      using spanlist_push_ring [OF D1 xD(2) x0 hd(1) hd2] by blast
    have st: "(set_head ?m (list_ref c k) x)\<lparr>spans := sp\<rparr> =
        (set_head (set_head m (list_ref (\<not> c) k) h) (list_ref c k) x)\<lparr>spans := sp\<rparr>"
      using tab [of c] by (simp add: set_head_spans)
    have "ring_ok sp (?D (\<not> c) - {x}) = ring_ok sp1 (?D (\<not> c) - {x})" using p(4) by (intro ring_ok_cong) auto
    then have "ring_ok sp {a. ?R a = Class k (\<not> c)}" using r(3) sets(1) by simp
    moreover have "ring_ok sp {a. ?R a = Class k c}" using p(2) sets(2) by simp
    moreover have "same_data (spans m) sp" using r(4) p(3) by (auto intro: same_data_trans)
    moreover have "\<forall>a. \<not> (\<exists>b. R a = Class k b) \<longrightarrow> sp a = spans m a" using r(5) p(4) x by auto
    ultimately show ?thesis using r(1) p(1) h rings [of sp] unfolding st
      by (intro exI [of _ ?m] exI [of _ h] exI [of _ sp]) auto
  qed
qed

lemma move_list_ok:
  assumes H: "heap_ok R m Out" and x: "R x = Class k b" "spans m x = Some s"
  shows "\<exists>m1 M sp s2. remove_span m (list_ref (\<not> c) k) x = Some m1 \<and>
    spanlist_push m1 (list_ref c k) x = Some (M\<lparr>spans := sp\<rparr>) \<and> sp x = Some s2 \<and> unlinked s2 = unlinked s \<and> brk M = brk m \<and>
    (\<forall>l. same_lists R m (M\<lparr>spans := sp(x \<mapsto> s2\<lparr>sp_loc := l\<rparr>)\<rparr>)) \<and>
    (\<forall>l. (c \<longrightarrow> l = central_idle) \<longrightarrow> heap_ok (R(x := Class k c)) (M\<lparr>spans := sp(x \<mapsto> s2\<lparr>sp_loc := l\<rparr>)\<rparr>) Out \<and>
      keeps R m (R(x := Class k c)) (M\<lparr>spans := sp(x \<mapsto> s2\<lparr>sp_loc := l\<rparr>)\<rparr>) Out)"
proof -
  have C: "central_ok R m Out" using H by (simp add: heap_ok_def)
  have k: "k < CLASSES" using central_ok_span [OF C x(1)] by blast
  let ?R = "R(x := Class k c)"
  obtain m1 h sp where r: "remove_span m (list_ref (\<not> c) k) x = Some m1"
      "spanlist_push m1 (list_ref c k) x = Some ((set_head (set_head m (list_ref (\<not> c) k) h) (list_ref c k) x)\<lparr>spans := sp\<rparr>)"
      "h = 0 \<or> ?R h = Class k (\<not> c)" "same_data (spans m) sp" "\<forall>a. \<not> (\<exists>b. R a = Class k b) \<longrightarrow> sp a = spans m a"
      "\<forall>j b. ring_ok sp {a. ?R a = Class j b}"
    using relink_ring [OF C x(1) k, of c] by blast
  let ?M1 = "set_head m (list_ref (\<not> c) k) h" and ?M = "set_head (set_head m (list_ref (\<not> c) k) h) (list_ref c k) x"
  obtain s2 where s2: "sp x = Some s2" "unlinked s2 = unlinked s" using same_data_Some [OF r(4) x(2)] by blast
  have heads: "(central ?M ! j = 0 \<or> ?R (central ?M ! j) = Class j False) \<and> (idle ?M ! j = 0 \<or> ?R (idle ?M ! j) = Class j True)"
    if j: "j < CLASSES" for j
  proof -
    have "head_of ?M (list_ref d j) = 0 \<or> ?R (head_of ?M (list_ref d j)) = Class j d" for d
    proof -
      note tab = head_of_list_ref [OF C k] head_of_list_ref [OF C j]
      have "head_of ?M (list_ref d j) = (if d = c \<and> j = k then x else if d = (\<not> c) \<and> j = k then h else head_of m (list_ref d j))"
        using tab by (auto simp: head_of_set_head)
      moreover have "head_of m (list_ref d j) = 0 \<or> ?R (head_of m (list_ref d j)) = Class j d" if "j \<noteq> k"
        using head_of_list_ref [OF C j, of d] that x(1) by auto
      ultimately show ?thesis using r(3) by auto
    qed
    from this [of True] this [of False] show ?thesis by (simp add: list_ref_def)
  qed
  have len: "length (central ?M) = CLASSES" "length (idle ?M) = CLASSES" using central_okD(1,2) [OF C] by simp_all
  have eq: "?M\<lparr>spans := sp'\<rparr> = m\<lparr>spans := sp', central := central ?M, idle := idle ?M\<rparr>" for sp'
    by (cases c) (simp_all add: list_ref_def)
  have "heap_ok ?R (?M\<lparr>spans := sp(x \<mapsto> s2\<lparr>sp_loc := l\<rparr>)\<rparr>) Out \<and>
      keeps R m ?R (?M\<lparr>spans := sp(x \<mapsto> s2\<lparr>sp_loc := l\<rparr>)\<rparr>) Out" if l: "c \<longrightarrow> l = central_idle" for l
    unfolding eq
  proof (rule relink_ok [OF H x, of _ "s2\<lparr>sp_loc := l\<rparr>" l])
    show "unlinked (s2\<lparr>sp_loc := l\<rparr>) = (unlinked s)\<lparr>sp_loc := l\<rparr>"
    proof -
      have "unlinked (s2\<lparr>sp_loc := l\<rparr>) = (unlinked s2)\<lparr>sp_loc := l\<rparr>" by (simp add: unlinked_def)
      then show ?thesis using s2(2) by simp
    qed
    show "ring_ok (sp(x \<mapsto> s2\<lparr>sp_loc := l\<rparr>)) {a. ?R a = Class j b}" for j b
    proof -
      have "sp(x \<mapsto> s2\<lparr>sp_loc := l\<rparr>) = upd sp x (\<lambda>s. s\<lparr>sp_loc := l\<rparr>)" using s2(1) by (simp add: upd_def)
      then show ?thesis using r(6) ring_ok_upd [of "\<lambda>s. s\<lparr>sp_loc := l\<rparr>" sp x "{a. ?R a = Class j b}"] by simp
    qed
    show "map_option unlinked ((sp(x \<mapsto> s2\<lparr>sp_loc := l\<rparr>)) a) = map_option unlinked (spans m a)" if "a \<noteq> x" for a
      using r(4) that by (simp add: same_data_def)
    show "(sp(x \<mapsto> s2\<lparr>sp_loc := l\<rparr>)) a = spans m a" if "\<forall>j b. R a \<noteq> Class j b" for a
      using r(5) that x(1) by (cases "a = x") auto
  qed (use l len heads in auto)
  moreover have "brk ?M = brk m" "pg_list ?M = pg_list m" by (cases c; simp add: list_ref_def)+
  moreover have "same_lists R m (?M\<lparr>spans := sp(x \<mapsto> s2\<lparr>sp_loc := l\<rparr>)\<rparr>)" for l
    using r(5) x(1) \<open>pg_list ?M = pg_list m\<close> by (auto simp: same_lists_def)
  ultimately show ?thesis using r(1,2) s2
    by (intro exI [of _ m1] exI [of _ ?M] exI [of _ sp] exI [of _ s2]) simp
qed

subsection \<open>Objects leave\<close>

text \<open>A step that only changes the free list of one span: \<open>Out'\<close> is out afterwards.\<close>

lemma span_objs_step:
  assumes H: "heap_ok R m Out" and x: "R x = Class k b" "spans m x = Some s"
    and s': "sp_start s' = sp_start s" "sp_pageSize s' = sp_pageSize s" "sp_pageId s' = sp_pageId s" "sp_loc s' = sp_loc s"
      "sp_next s' = sp_next s" "sp_prev s' = sp_prev s" "class_span nx k Out' s'"
    and nx: "\<forall>ob. ob \<notin> objs_of k s \<longrightarrow> nx ob = link m ob"
    and out: "\<forall>ob. ob \<notin> objs_of k s \<longrightarrow> (ob \<in> Out' \<longleftrightarrow> ob \<in> Out)"
  shows "heap_ok R (m\<lparr>link := nx, spans := (spans m)(x \<mapsto> s')\<rparr>) Out'"
    and "\<forall>ob\<in>Out''. nx ob = link m ob \<Longrightarrow> keeps R m R (m\<lparr>link := nx, spans := (spans m)(x \<mapsto> s')\<rparr>) Out''"
    and "class_objs R m j \<subseteq> class_objs R (m\<lparr>link := nx, spans := (spans m)(x \<mapsto> s')\<rparr>) j"
proof -
  let ?m = "m\<lparr>link := nx, spans := (spans m)(x \<mapsto> s')\<rparr>"
  have P: "pages_ok R m" and C: "central_ok R m Out" using H by (simp_all add: heap_ok_def)
  have sm: "same_pages m ?m" by (simp add: same_pages_def)
  have x': "R x = Held \<or> R x = Class k b" "spans ?m x = Some s'" using x(1) by simp_all
  have R: "R(x := Class k b) = R" using x(1) by auto
  have "pages_ok (R(x := Class k b)) ?m" and sb: "class_objs R m j \<subseteq> class_objs (R(x := Class k b)) ?m j" for j
    by (rule pages_ok_reclass [OF P C sm x'(1) x(2) x'(2) s'(1-3)]; simp)+
  then have "pages_ok R ?m" by (simp only: R)
  show sub: "class_objs R m j \<subseteq> class_objs R ?m j" for j using sb [of j] by (simp only: R)
  have "central_ok R ?m Out'"
  proof (rule central_ok_step [OF C, of _ x])
    fix a j b' t assume a: "a \<noteq> x" "R a = Class j b'" "spans m a = Some t"
    have "objs_of j t \<inter> objs_of k s = {}" using objs_disjoint [OF P a(1), of t s j k] a x by simp
    then have "\<forall>ob\<in>objs_of j t. (ob \<in> Out' \<longleftrightarrow> ob \<in> Out) \<and> (ob \<notin> Out \<longrightarrow> nx ob = link m ob)" using nx out by blast
    then show "\<exists>t'. spans ?m a = Some t' \<and> unlinked t' = unlinked t \<and>
        (\<forall>ob\<in>objs_of j t. (ob \<in> Out' \<longleftrightarrow> ob \<in> Out) \<and> (ob \<notin> Out \<longrightarrow> link ?m ob = link m ob))"
      using a by simp
  next
    fix j b' assume a: "R x = Class j b'"
    then have "j = k" "k < CLASSES" "b' \<longrightarrow> sp_loc s = central_idle" using x central_ok_span [OF C x(1)] by auto
    then show "j < CLASSES \<and> (\<exists>s'. spans ?m x = Some s' \<and> class_span (link ?m) j Out' s' \<and> (b' \<longrightarrow> sp_loc s' = central_idle))"
      using s' by simp
  next
    fix j b'
    have "spans ?m = upd (spans m) x (\<lambda>_. s')" using x(2) by (simp add: upd_def)
    moreover have "nxt (upd (spans m) x (\<lambda>_. s')) = nxt (spans m)" "prv (upd (spans m) x (\<lambda>_. s')) = prv (spans m)"
      using s'(5,6) x(2) by (auto simp: nxt_def prv_def upd_def fun_eq_iff)
    ultimately have "ring_ok (spans ?m) D = ring_ok (spans m) D" for D by (simp add: ring_ok_def)
    then show "ring_ok (spans ?m) {a. R a = Class j b'}" using central_okD(3) [OF C] by simp
  next
    show "Out' \<subseteq> (\<Union>k. class_objs R ?m k)"
    proof
      fix ob assume ob: "ob \<in> Out'"
      show "ob \<in> (\<Union>k. class_objs R ?m k)"
      proof (cases "ob \<in> objs_of k s")
        case True
        then have "ob \<in> class_objs R m k" using x by (auto simp: class_objs_def)
        then show ?thesis using sub by blast
      next
        case False
        then have "ob \<in> Out" using out ob by simp
        then obtain j where "ob \<in> class_objs R m j" using central_okD(6) [OF C] by blast
        then show ?thesis using sub [of j] by blast
      qed
    qed
  qed (use central_okD(1,2,4,5) [OF C] in simp_all)
  then show "heap_ok R ?m Out'" using \<open>pages_ok R ?m\<close> by (simp add: heap_ok_def)
  show "keeps R m R ?m Out''" if "\<forall>ob\<in>Out''. nx ob = link m ob" using that sub x(1) by (auto simp: keeps_def)
qed

lemma take_ok:
  assumes H: "heap_ok R m Out" and x: "R x = Class k b" "spans m x = Some s" and ob: "sp_objs s \<noteq> 0" and num: "0 < num"
  defines "mi \<equiv> min num (if sp_refcount s \<le> sp_obj_len s then sp_obj_len s - sp_refcount s else sp_obj_len s + 2 ^ 64 - sp_refcount s)"
  shows "\<exists>xs q. take_objs (link m) 0 (sp_objs s) 0 mi = (last xs, q, length xs) \<and> xs \<noteq> [] \<and> length xs \<le> num \<and> last xs \<noteq> 0 \<and>
    free_list ((link m)(last xs := 0)) (sp_objs s) xs \<and> set xs \<subseteq> objs_of k s - Out \<and> sp_refcount s + length xs < 2 ^ 31 \<and>
    heap_ok R (m\<lparr>link := (link m)(last xs := 0), spans := (spans m)(x \<mapsto> s\<lparr>sp_objs := q, sp_refcount := sp_refcount s + length xs\<rparr>)\<rparr>)
      (Out \<union> set xs) \<and>
    keeps R m R (m\<lparr>link := (link m)(last xs := 0), spans := (spans m)(x \<mapsto> s\<lparr>sp_objs := q, sp_refcount := sp_refcount s + length xs\<rparr>)\<rparr>) Out"
proof -
  have P: "pages_ok R m" and C: "central_ok R m Out" using H by (simp_all add: heap_ok_def)
  let ?O = "objs_of k s"
  obtain s1 where "spans m x = Some s1" "class_span (link m) k Out s1" using central_ok_span [OF C x(1)] by blast
  then have cs: "class_span (link m) k Out s" using x(2) by simp
  then obtain fs where fs: "free_list (link m) (sp_objs s) fs" "set fs = ?O - Out" by (auto simp: class_span_def)
  have d: "distinct fs" using linked_distinct [OF fs(1)] .
  have rc: "sp_refcount s = card (?O \<inter> Out)" "card ?O \<le> sp_obj_len s" using cs by (simp_all add: class_span_def card_objs_of)
  have "card ?O = card (?O \<inter> Out) + card (?O - Out)" using card_Int_Diff [of ?O Out] by simp
  then have n: "length fs = card ?O - sp_refcount s" "sp_refcount s \<le> card ?O" "sp_refcount s + length fs = card ?O"
    using rc distinct_card [OF d] fs(2) by simp_all
  have mi: "mi = min num (sp_obj_len s - sp_refcount s)" using n(2) rc(2) by (simp add: mi_def)
  have fs0: "fs \<noteq> []" using ob fs(1) by auto
  then have pos: "0 < mi" using mi n rc(2) num by (cases fs) simp_all
  let ?xs = "take mi fs" and ?ys = "drop mi fs"
  have ne: "?xs \<noteq> []" using pos fs0 by simp
  have "0 + length ?xs = mi \<or> (0 + length ?xs \<le> mi \<and> ?ys = [])" by (cases "mi \<le> length fs") simp_all
  then obtain q where q: "take_objs (link m) 0 (sp_objs s) 0 mi = (last ?xs, q, length ?xs)" "free_list (link m) q ?ys"
    using take_objs_closed [of "link m" "sp_objs s" ?xs ?ys 0 0 0 mi] fs(1) ne by auto
  have la: "last ?xs \<in> set ?xs" using ne by (rule last_in_set)
  have dj: "set ?xs \<inter> set ?ys = {}" "set ?xs \<union> set ?ys = ?O - Out"
    using d fs(2) set_take_disj_set_drop_if_distinct [of fs mi mi] set_append [of ?xs ?ys] by simp_all
  have la0: "last ?xs \<noteq> 0" using linked_nodes [OF fs(1)] la in_set_takeD by metis
  have fl: "free_list ((link m)(last ?xs := 0)) (sp_objs s) ?xs"
    using free_list_cut [of "link m" "sp_objs s" ?xs ?ys] fs(1) ne by simp
  have fy: "free_list ((link m)(last ?xs := 0)) q ?ys" using q(2) dj(1) la by (subst free_list_upd) auto
  let ?s = "s\<lparr>sp_objs := q, sp_refcount := sp_refcount s + length ?xs\<rparr>"
  have card: "card (?O \<inter> (Out \<union> set ?xs)) = sp_refcount s + length ?xs"
  proof -
    have "?O \<inter> (Out \<union> set ?xs) = (?O \<inter> Out) \<union> set ?xs" "(?O \<inter> Out) \<inter> set ?xs = {}" using dj(2) by blast+
    then show ?thesis using rc(1) d by (simp add: card_Un_disjoint distinct_card)
  qed
  have "class_span ((link m)(last ?xs := 0)) k (Out \<union> set ?xs) ?s"
    unfolding class_span_def
  proof (intro conjI exI [of _ ?ys])
    show "set ?ys = objs_of k ?s - (Out \<union> set ?xs)" using dj by (auto simp: objs_of_def)
  qed (use cs fy card in \<open>simp_all add: class_span_def objs_of_def\<close>)
  note st = span_objs_step [OF H x, of ?s "(link m)(last ?xs := 0)" "Out \<union> set ?xs", OF _ _ _ _ _ _ this]
  have sub: "set ?xs \<subseteq> ?O - Out" using dj(2) by blast
  have "heap_ok R (m\<lparr>link := (link m)(last ?xs := 0), spans := (spans m)(x \<mapsto> ?s)\<rparr>) (Out \<union> set ?xs)"
    using sub la by (intro st(1)) auto
  moreover have "keeps R m R (m\<lparr>link := (link m)(last ?xs := 0), spans := (spans m)(x \<mapsto> ?s)\<rparr>) Out"
    using sub la by (intro st(2)) auto
  moreover have "sp_refcount s + length ?xs < 2 ^ 31"
    using card_objs_small [OF P _ x(2), of k] x(1) n(3) by simp
  moreover have "length ?xs \<le> num" using mi by simp
  ultimately show ?thesis using q(1) ne la0 fl sub by (intro exI [of _ ?xs] exI [of _ q]) simp
qed

lemma list_refs: "list_ref True k = IdleList k" "list_ref False k = CentralList k" "list_ref (\<not> True) k = CentralList k"
    "list_ref (\<not> False) k = IdleList k"
  by (simp_all add: list_ref_def)

text \<open>The batch was not out before.\<close>

lemma fetch_objs_from:
  assumes g: "get_span_central m (class_size k) = Some (x, m1)" "heap_ok R1 m1 Out" "R1 x = Class k False"
      "spans m1 x = Some s" "sp_objs s \<noteq> 0" and k: "k < CLASSES" and num: "0 < num"
  shows "\<exists>xs p m' R'. fetch_objs m num (class_size k) = Some ((p, last xs, length xs), m') \<and> xs \<noteq> [] \<and> length xs \<le> num \<and>
    free_list (link m') p xs \<and> set xs \<inter> Out = {} \<and> set xs \<subseteq> class_objs R' m' k \<and> heap_ok R' m' (Out \<union> set xs) \<and>
    keeps R1 m1 R' m' Out \<and> brk m' = brk m1 \<and>
    (sp_refcount s + num < sp_pageSize s * 4096 div class_size k \<longrightarrow> central m' = central m1 \<and> (\<forall>a. a \<noteq> x \<longrightarrow> spans m' a = spans m1 a) \<and>
      (\<exists>s'. spans m' x = Some s' \<and> sp_refcount s' \<le> sp_refcount s + num \<and> sp_pageSize s' = sp_pageSize s))"
proof -
  have ix: "index_of (get_index (class_size k)) = Some k" using class_index [OF k] by (simp add: index_of_def)
  define mi where "mi = min num (if sp_refcount s \<le> sp_obj_len s then sp_obj_len s - sp_refcount s else sp_obj_len s + 2 ^ 64 - sp_refcount s)"
  obtain xs q where t: "take_objs (link m1) 0 (sp_objs s) 0 mi = (last xs, q, length xs)" "xs \<noteq> []" "length xs \<le> num" "last xs \<noteq> 0"
      "free_list ((link m1)(last xs := 0)) (sp_objs s) xs" "set xs \<subseteq> objs_of k s - Out" "sp_refcount s + length xs < 2 ^ 31"
      "heap_ok R1 (m1\<lparr>link := (link m1)(last xs := 0), spans := (spans m1)(x \<mapsto> s\<lparr>sp_objs := q, sp_refcount := sp_refcount s + length xs\<rparr>)\<rparr>) (Out \<union> set xs)"
      "keeps R1 m1 R1 (m1\<lparr>link := (link m1)(last xs := 0), spans := (spans m1)(x \<mapsto> s\<lparr>sp_objs := q, sp_refcount := sp_refcount s + length xs\<rparr>)\<rparr>) Out"
    using take_ok [OF g(2-5) num] unfolding mi_def [symmetric] by blast
  let ?s = "s\<lparr>sp_objs := q, sp_refcount := sp_refcount s + length xs\<rparr>"
  let ?m3 = "m1\<lparr>link := (link m1)(last xs := 0), spans := (spans m1)(x \<mapsto> ?s)\<rparr>"
  have rc: "u32 (sp_refcount s + length xs) = sp_refcount s + length xs" using t(7) by simp
  have x3: "spans ?m3 x = Some ?s" by simp
  have in3: "set xs \<subseteq> class_objs R1 ?m3 k"
  proof -
    have "objs_of k ?s = objs_of k s" by (simp add: objs_of_def)
    then have "objs_of k s \<subseteq> class_objs R1 ?m3 k" using g(3) x3 unfolding class_objs_def by blast
    then show ?thesis using t(6) by blast
  qed
  have dis: "set xs \<inter> Out = {}" using t(6) by blast
  have run: "fetch_objs m num (class_size k) =
      (if ?s = ?s \<and> sp_refcount ?s = sp_obj_len ?s then do {
          m4 \<leftarrow> remove_span ?m3 (CentralList k) x;
          m5 \<leftarrow> spanlist_push m4 (IdleList k) x;
          m6 \<leftarrow> upd_span m5 x (\<lambda>s. s\<lparr>sp_loc := central_idle\<rparr>);
          Some ((sp_objs s, last xs, length xs), m6)
        } else Some ((sp_objs s, last xs, length xs), ?m3))"
    unfolding fetch_objs_def g(1) ix Option.bind.simps split g(4) Let_def mi_def [symmetric] t(1)
    using t(4) g(4) rc by (simp add: upd_span_def)
  show ?thesis
  proof (cases "sp_refcount ?s = sp_obj_len ?s")
    case False
    then have "fetch_objs m num (class_size k) = Some ((sp_objs s, last xs, length xs), ?m3)" using run by simp
    moreover have "free_list (link ?m3) (sp_objs s) xs" using t(5) by simp
    ultimately show ?thesis using t(2,3,8,9) dis in3
      by (intro exI [of _ xs] exI [of _ "sp_objs s"] exI [of _ ?m3] exI [of _ R1]) simp
  next
    case True
    obtain m4 M sp s2 where v: "remove_span ?m3 (CentralList k) x = Some m4" "spanlist_push m4 (IdleList k) x = Some (M\<lparr>spans := sp\<rparr>)"
        "sp x = Some s2" "brk M = brk ?m3"
        "\<And>l. l = central_idle \<Longrightarrow> heap_ok (R1(x := Class k True)) (M\<lparr>spans := sp(x \<mapsto> s2\<lparr>sp_loc := l\<rparr>)\<rparr>) (Out \<union> set xs) \<and>
          keeps R1 ?m3 (R1(x := Class k True)) (M\<lparr>spans := sp(x \<mapsto> s2\<lparr>sp_loc := l\<rparr>)\<rparr>) (Out \<union> set xs)"
      using move_list_ok [OF t(8) g(3) x3, of True] unfolding list_refs by blast
    let ?m6 = "M\<lparr>spans := sp(x \<mapsto> s2\<lparr>sp_loc := central_idle\<rparr>)\<rparr>" and ?R = "R1(x := Class k True)"
    have ok: "heap_ok ?R ?m6 (Out \<union> set xs)" "keeps R1 ?m3 ?R ?m6 (Out \<union> set xs)" using v(5) by blast+
    have "fetch_objs m num (class_size k) = Some ((sp_objs s, last xs, length xs), ?m6)"
      using run True v(1-3) by (simp add: upd_span_def)
    moreover have "free_list (link ?m6) (sp_objs s) xs"
    proof -
      have "\<And>a. a \<in> set xs \<Longrightarrow> link ?m6 a = link ?m3 a" using ok(2) by (simp add: keeps_def)
      then have "free_list (link ?m6) (sp_objs s) xs = free_list (link ?m3) (sp_objs s) xs" by (rule free_list_cong)
      then show ?thesis using t(5) by simp
    qed
    moreover have "set xs \<subseteq> class_objs ?R ?m6 k" using ok(2) in3 unfolding keeps_def by blast
    moreover have "keeps R1 m1 ?R ?m6 Out" using keeps_trans [OF t(9) keeps_subset [OF ok(2)]] by simp
    moreover have "\<not> sp_refcount s + num < sp_pageSize s * 4096 div class_size k"
    proof -
      have "central_ok R1 m1 Out" using g(2) by (simp add: heap_ok_def)
      then have "class_span (link m1) k Out s" using central_ok_span [of R1 m1 Out x k False] g(3,4) by auto
      then have "sp_pageSize s * 4096 div class_size k \<le> sp_obj_len s" by (simp add: class_span_def)
      then show ?thesis using True t(3) by simp
    qed
    ultimately show ?thesis using t(2,3) dis ok(1) v(4)
      by (intro exI [of _ xs] exI [of _ "sp_objs s"] exI [of _ ?m6] exI [of _ ?R]) simp
  qed
qed

lemma fetch_objs_ok:
  assumes H: "heap_ok R m Out" and k: "k < CLASSES" and sup: "stocked m g f" and num: "0 < num"
  shows "\<exists>xs p m' R'. fetch_objs m num (class_size k) = Some ((p, last xs, length xs), m') \<and> xs \<noteq> [] \<and> length xs \<le> num \<and>
    free_list (link m') p xs \<and> set xs \<inter> Out = {} \<and> set xs \<subseteq> class_objs R' m' k \<and> heap_ok R' m' (Out \<union> set xs) \<and>
    keeps R m R' m' Out \<and> brk m' \<le> brk m + g"
proof -
  obtain x m1 R1 s where g: "get_span_central m (class_size k) = Some (x, m1)" "heap_ok R1 m1 Out" "R1 x = Class k False"
      "spans m1 x = Some s" "sp_objs s \<noteq> 0" "keeps R m R1 m1 Out" "brk m1 \<le> brk m + g"
    using get_span_central_ok [OF H k sup] by blast
  obtain xs p m' R' where f: "fetch_objs m num (class_size k) = Some ((p, last xs, length xs), m')" "xs \<noteq> []" "length xs \<le> num"
      "free_list (link m') p xs" "set xs \<inter> Out = {}" "set xs \<subseteq> class_objs R' m' k" "heap_ok R' m' (Out \<union> set xs)"
      "keeps R1 m1 R' m' Out" "brk m' = brk m1"
    using fetch_objs_from [OF g(1-5) k num] by blast
  show ?thesis using f keeps_trans [OF g(6) f(8)] g(7)
    by (intro exI [of _ xs] exI [of _ p] exI [of _ m'] exI [of _ R']) simp
qed

text \<open>A class with more objects left than are asked for: nothing is asked from the system, and the other classes keep theirs.\<close>

lemma spare_head:
  assumes H: "heap_ok R m Out" and k: "k < CLASSES" and sp: "spare m k n" "0 < n"
  shows "\<exists>x s. central m ! k = x \<and> get_span_central m (class_size k) = Some (x, m) \<and> R x = Class k False \<and> spans m x = Some s \<and>
    sp_objs s \<noteq> 0 \<and> sp_refcount s + n \<le> sp_pageSize s * 4096 div class_size k"
proof -
  have C: "central_ok R m Out" using H by (simp add: heap_ok_def)
  let ?x = "central m ! k"
  obtain s where s: "?x \<noteq> 0" "spans m ?x = Some s" "sp_refcount s + n \<le> sp_pageSize s * 4096 div class_size k"
    using sp(1) by (auto simp: spare_def)
  have x: "R ?x = Class k False" using central_okD(4) [OF C k] s(1) by simp
  then have cs: "class_span (link m) k Out s" using central_ok_span [OF C x] s(2) by auto
  obtain fs where fs: "free_list (link m) (sp_objs s) fs" "set fs = objs_of k s - Out" using cs by (auto simp: class_span_def)
  have "card (objs_of k s \<inter> Out) < card (objs_of k s)" using cs s(3) sp(2) by (simp add: class_span_def card_objs_of)
  then have "objs_of k s - Out \<noteq> {}" by (metis Diff_eq_empty_iff inf.absorb1 less_irrefl)
  then have ob: "sp_objs s \<noteq> 0" using fs free_list_nonempty [OF fs(1)] by auto
  have "index_of (get_index (class_size k)) = Some k" using class_index [OF k] by (simp add: index_of_def)
  moreover have "rd (central m) k = Some ?x" using central_okD(1) [OF C] k by (simp add: rd_def)
  moreover have "find_objs m ?x ?x = Some ?x" using s(1,2) ob by (simp add: find_objs.simps)
  ultimately have "get_span_central m (class_size k) = Some (?x, m)" using s(1) by (simp add: get_span_central_def)
  then show ?thesis using x s ob by blast
qed

lemma fetch_objs_spare:
  assumes H: "heap_ok R m Out" and k: "k < CLASSES" and sp: "spare m k n" and num: "0 < num" "num < n"
  shows "\<exists>xs p m' R'. fetch_objs m num (class_size k) = Some ((p, last xs, length xs), m') \<and> xs \<noteq> [] \<and> length xs \<le> num \<and>
    free_list (link m') p xs \<and> set xs \<inter> Out = {} \<and> set xs \<subseteq> class_objs R' m' k \<and> heap_ok R' m' (Out \<union> set xs) \<and>
    keeps R m R' m' Out \<and> brk m' = brk m \<and> spare m' k (n - num) \<and>
    (\<forall>j<CLASSES. \<forall>l. j \<noteq> k \<and> spare m j l \<longrightarrow> spare m' j l)"
proof -
  have C: "central_ok R m Out" using H by (simp add: heap_ok_def)
  obtain x s where x: "central m ! k = x" "get_span_central m (class_size k) = Some (x, m)" "R x = Class k False" "spans m x = Some s"
      "sp_objs s \<noteq> 0" "sp_refcount s + n \<le> sp_pageSize s * 4096 div class_size k"
    using spare_head [OF H k sp] num by auto
  obtain xs p m' R' where f: "fetch_objs m num (class_size k) = Some ((p, last xs, length xs), m')" "xs \<noteq> []" "length xs \<le> num"
      "free_list (link m') p xs" "set xs \<inter> Out = {}" "set xs \<subseteq> class_objs R' m' k" "heap_ok R' m' (Out \<union> set xs)"
      "keeps R m R' m' Out" "brk m' = brk m"
      "sp_refcount s + num < sp_pageSize s * 4096 div class_size k \<longrightarrow> central m' = central m \<and> (\<forall>a. a \<noteq> x \<longrightarrow> spans m' a = spans m a) \<and>
        (\<exists>s'. spans m' x = Some s' \<and> sp_refcount s' \<le> sp_refcount s + num \<and> sp_pageSize s' = sp_pageSize s)"
    using fetch_objs_from [OF x(2) H x(3-5) k num(1)] by blast
  have fr: "central m' = central m" "\<forall>a. a \<noteq> x \<longrightarrow> spans m' a = spans m a"
      "\<exists>s'. spans m' x = Some s' \<and> sp_refcount s' \<le> sp_refcount s + num \<and> sp_pageSize s' = sp_pageSize s"
    using f(10) x(6) num(2) by simp_all
  have "spare m' k (n - num)" using fr(1,3) x(1,6) sp num(2) unfolding spare_def by auto
  moreover have "spare m' j l" if "j < CLASSES" "j \<noteq> k" "spare m j l" for j l
  proof -
    have "central m ! j \<noteq> x"
      using central_okD(4) [OF C that(1)] x(3) that(2,3) by (auto simp: spare_def)
    then show ?thesis using spare_cong [OF that(3), of m'] fr(1,2) by simp
  qed
  ultimately show ?thesis using f(1-9) by (intro exI [of _ xs] exI [of _ p] exI [of _ m'] exI [of _ R']) simp
qed

subsection \<open>Objects return\<close>

text \<open>The page map leads from any address of a span in use to the span.\<close>

lemma map_addr_to_span_ok:
  assumes P: "pages_ok R m" and x: "R x \<notin> {Unused, Meta}" "spans m x = Some s" and a: "a \<in> span_bytes s"
  shows "map_addr_to_span m a = Some x"
proof -
  have so: "span_ok m x s" "sp_start s = ini_brk_addr m + sp_pageId s * 4096" using role_span [OF P _ x(2)] x(1) by simp_all
  have tp: "top_page m < PAGEMAPSIZE" using top_page(3) pages_okD(1) [OF P] by blast
  obtain p where p: "a = ini_brk_addr m + sp_pageId s * 4096 + p" "p < sp_pageSize s * 4096"
    using a so(2) unfolding span_bytes_def by (metis atLeastLessThan_iff le_Suc_ex nat_add_left_cancel_less)
  obtain b where b: "ini_brk_addr m = 4096 * b" using pages_okD(1) [OF P] by (auto simp: sys_ok_def)
  have q: "p div 4096 < sp_pageSize s" using p(2) by (simp add: less_mult_imp_div_less)
  have d: "a div 4096 = b + sp_pageId s + p div 4096"
  proof -
    have "a = p + (b + sp_pageId s) * 4096" using p(1) b by simp
    then show ?thesis by simp
  qed
  have big: "b < 2 ^ 63"
    using pages_okD(1) [OF P] b by (simp add: sys_ok_def)
  have pg: "sp_pageId s + p div 4096 < sp_pageId s + sp_pageSize s" "sp_pageId s + sp_pageSize s \<le> top_page m"
    using q so(1) by (simp_all add: span_ok_def)
  have "size_sub (b + sp_pageId s + p div 4096) b = sp_pageId s + p div 4096"
    using big pg tp by (subst size_sub_le) (simp_all add: PAGEMAPSIZE_def)
  then have ix: "addr_to_index a (ini_brk_addr m) = sp_pageId s + p div 4096" using d b by (simp add: addr_to_index_def)
  moreover have "page_mapping m (sp_pageId s + p div 4096) = x" using so(1) q by (simp add: span_ok_def)
  ultimately show ?thesis using pg tp by (simp add: map_addr_to_span_def)
qed

lemma out_object:
  assumes H: "heap_ok R m Out" and ob: "ob \<in> Out"
  shows "\<exists>x k b s. R x = Class k b \<and> spans m x = Some s \<and> ob \<in> objs_of k s \<and> map_addr_to_span m ob = Some x"
proof -
  have P: "pages_ok R m" and C: "central_ok R m Out" using H by (simp_all add: heap_ok_def)
  obtain x k b s where x: "R x = Class k b" "spans m x = Some s" "ob \<in> objs_of k s"
    using central_okD(6) [OF C] ob by (auto simp: class_objs_def)
  have "map_addr_to_span m ob = Some x" using objs_of_bytes(3) [OF x(3)] x by (intro map_addr_to_span_ok [OF P]) auto
  then show ?thesis using x by blast
qed

lemma u32_pred: "n < 2 ^ 32 \<Longrightarrow> u32 (Suc n + 2 ^ 32 - 1) = n"
proof -
  assume n: "n < 2 ^ 32"
  have "Suc n + 2 ^ 32 - 1 = n + 2 ^ 32" by simp
  then show ?thesis using n unfolding u32_def by (metis mod_add_self2 mod_less)
qed

lemma return_one:
  assumes H: "heap_ok R m Out" and ob: "ob \<in> Out" and x: "R x = Class k b" "spans m x = Some s" "ob \<in> objs_of k s"
  shows "\<exists>m1 m2. freelist_push m x ob = Some m1 \<and>
    upd_span m1 x (\<lambda>s. s\<lparr>sp_refcount := u32 (sp_refcount s + 2 ^ 32 - 1)\<rparr>) = Some m2 \<and> ob \<noteq> 0 \<and> x \<noteq> 0 \<and>
    heap_ok R m2 (Out - {ob}) \<and> keeps R m R m2 (Out - {ob}) \<and> brk m2 = brk m \<and>
    link m2 = (link m)(ob := sp_objs s) \<and> (\<exists>s2. spans m2 x = Some s2 \<and> objs_of k s2 = objs_of k s) \<and>
    (\<forall>j. class_objs R m j \<subseteq> class_objs R m2 j)"
proof -
  have P: "pages_ok R m" and C: "central_ok R m Out" using H by (simp_all add: heap_ok_def)
  let ?O = "objs_of k s" and ?nx = "(link m)(ob := sp_objs s)"
  obtain s1 where "spans m x = Some s1" "class_span (link m) k Out s1" using central_ok_span [OF C x(1)] by blast
  then have cs: "class_span (link m) k Out s" using x(2) by simp
  then obtain fs where fs: "free_list (link m) (sp_objs s) fs" "set fs = ?O - Out" by (auto simp: class_span_def)
  have in1: "ob \<in> ?O \<inter> Out" using ob x(3) by simp
  have rc: "sp_refcount s = card (?O \<inter> Out)" using cs by (simp add: class_span_def)
  have pos: "0 < sp_refcount s" using rc in1 by (metis card_gt_0_iff empty_iff finite_Int finite_objs_of)
  have less: "sp_refcount s < 2 ^ 31"
    using card_objs_small [OF P _ x(2), of k] x(1) rc card_mono [OF finite_objs_of Int_lower1, of k s Out] by simp
  have u: "u32 (sp_refcount s + 2 ^ 32 - 1) = sp_refcount s - 1"
  proof -
    obtain r where r: "sp_refcount s = Suc r" using pos gr0_conv_Suc by blast
    show ?thesis using u32_pred [of r] less unfolding r by simp
  qed
  have ob0: "ob \<noteq> 0"
  proof -
    have "sp_start s = ini_brk_addr m + sp_pageId s * 4096" using role_span(2) [OF P _ x(2)] x(1) by simp
    then show ?thesis using objs_of_bytes(1) [OF x(3)] pages_okD(1) [OF P] by (simp add: sys_ok_def)
  qed
  have x0: "x \<noteq> 0" using role_dom(2) [OF P, of x] x(1) by simp
  let ?s = "s\<lparr>sp_objs := ob, sp_obj_len := sp_obj_len s + 1, sp_refcount := sp_refcount s - 1\<rparr>"
  let ?m1 = "m\<lparr>link := ?nx, spans := (spans m)(x \<mapsto> s\<lparr>sp_objs := ob, sp_obj_len := sp_obj_len s + 1\<rparr>)\<rparr>"
  let ?m2 = "m\<lparr>link := ?nx, spans := (spans m)(x \<mapsto> ?s)\<rparr>"
  have "freelist_push m x ob = Some ?m1" using ob0 x(2) by (simp add: freelist_push_def upd_span_def)
  moreover have "upd_span ?m1 x (\<lambda>s. s\<lparr>sp_refcount := u32 (sp_refcount s + 2 ^ 32 - 1)\<rparr>) = Some ?m2"
    using u by (simp add: upd_span_def)
  moreover have "class_span ?nx k (Out - {ob}) ?s"
    unfolding class_span_def
  proof (intro conjI exI [of _ "ob # fs"])
    have o: "objs_of k ?s = ?O" by (simp add: objs_of_def)
    have "?O \<inter> (Out - {ob}) = (?O \<inter> Out) - {ob}" by blast
    then show "sp_refcount ?s = card (objs_of k ?s \<inter> (Out - {ob}))" using rc in1 o by (simp add: card_Diff_singleton)
    show "set (ob # fs) = objs_of k ?s - (Out - {ob})" using fs(2) in1 o by auto
    show "free_list ?nx (sp_objs ?s) (ob # fs)" using free_list_push [OF fs(1) ob0] fs(2) ob by simp
  qed (use cs in \<open>simp_all add: class_span_def\<close>)
  note st = span_objs_step [OF H x(1,2), of ?s ?nx "Out - {ob}", OF _ _ _ _ _ _ this]
  have "heap_ok R ?m2 (Out - {ob})" using x(3) by (intro st(1)) auto
  moreover have "keeps R m R ?m2 (Out - {ob})" using x(3) by (intro st(2)) auto
  moreover have "\<forall>j. class_objs R m j \<subseteq> class_objs R ?m2 j" using x(3) by (intro allI st(3)) auto
  ultimately show ?thesis using ob0 x0 by (intro exI [of _ ?m1] exI [of _ ?m2]) (simp add: objs_of_def)
qed

lemma return_loop_ok:
  assumes "heap_ok R m Out" and "free_list (link m) p xs" and "set xs \<subseteq> Out"
  shows "\<exists>m' l. return_loop m p lst = Some (l, m') \<and> heap_ok R m' (Out - set xs) \<and> keeps R m R m' (Out - set xs) \<and>
    brk m' = brk m \<and> (\<forall>j. class_objs R m j \<subseteq> class_objs R m' j) \<and> (if xs = [] then l = lst
      else \<exists>x k b s. l = Some x \<and> R x = Class k b \<and> spans m' x = Some s \<and> last xs \<in> objs_of k s)"
  using assms
proof (induction xs arbitrary: m p Out lst)
  case Nil
  then show ?case by (subst return_loop.simps) simp
next
  case (Cons ob xs)
  have p: "p = ob" "ob \<noteq> 0" "free_list (link m) (link m ob) xs" using Cons.prems(2) by auto
  have d: "ob \<notin> set xs" using linked_distinct [OF Cons.prems(2)] by simp
  have ob: "ob \<in> Out" using Cons.prems(3) by simp
  obtain x k b s where x: "R x = Class k b" "spans m x = Some s" "ob \<in> objs_of k s" "map_addr_to_span m ob = Some x"
    using out_object [OF Cons.prems(1) ob] by blast
  obtain m1 m2 s2 where r: "freelist_push m x ob = Some m1"
      "upd_span m1 x (\<lambda>s. s\<lparr>sp_refcount := u32 (sp_refcount s + 2 ^ 32 - 1)\<rparr>) = Some m2" "x \<noteq> 0"
      "heap_ok R m2 (Out - {ob})" "keeps R m R m2 (Out - {ob})" "brk m2 = brk m" "link m2 = (link m)(ob := sp_objs s)"
      "spans m2 x = Some s2" "objs_of k s2 = objs_of k s" "\<forall>j. class_objs R m j \<subseteq> class_objs R m2 j"
    using return_one [OF Cons.prems(1) ob x(1-3)] by blast
  have step: "return_loop m p lst = return_loop m2 (link m ob) (Some x)"
    using p x(4) r(1-3) by (subst return_loop.simps) (simp add: Let_def)
  have fl: "free_list (link m2) (link m ob) xs" using p(3) d r(7) free_list_upd by simp
  have sub: "set xs \<subseteq> Out - {ob}" using Cons.prems(3) d by auto
  have Out: "Out - {ob} - set xs = Out - set (ob # xs)" by auto
  obtain m' l where i: "return_loop m2 (link m ob) (Some x) = Some (l, m')" "heap_ok R m' (Out - set (ob # xs))"
      "keeps R m2 R m' (Out - set (ob # xs))" "brk m' = brk m2" "\<forall>j. class_objs R m2 j \<subseteq> class_objs R m' j"
      "if xs = [] then l = Some x
       else \<exists>x k b s. l = Some x \<and> R x = Class k b \<and> spans m' x = Some s \<and> last xs \<in> objs_of k s"
    using Cons.IH [OF r(4) fl sub, of "Some x"] unfolding Out by blast
  have "keeps R m R m' (Out - set (ob # xs))"
    by (rule keeps_trans [OF keeps_subset [OF r(5)] i(3)]) auto
  moreover have "\<exists>x k b s. l = Some x \<and> R x = Class k b \<and> spans m' x = Some s \<and> last (ob # xs) \<in> objs_of k s"
  proof (cases "xs = []")
    case True
    then have "m' = m2" "l = Some x" using i(1,6) p(3) by (simp_all add: return_loop.simps)
    then show ?thesis using True x(1,3) r(8,9) by auto
  next
    case False
    then show ?thesis using i(6) by simp
  qed
  moreover have "\<forall>j. class_objs R m j \<subseteq> class_objs R m' j" using i(5) r(10) by (meson subset_trans)
  ultimately show ?case using step i(1,2,4) r(6) by (intro exI [of _ m'] exI [of _ l]) simp
qed

text \<open>A span without an object out leaves the list of its class and goes back to the page heap.\<close>

lemma release_span_ok:
  assumes H: "heap_ok R m Out" and x: "R x = Class k False" "spans m x = Some s" "sp_refcount s = 0"
  shows "\<exists>m4 m5 m6. remove_span m (CentralList k) x = Some m4 \<and>
    upd_span m4 x (\<lambda>s. s\<lparr>sp_next := x, sp_prev := x, sp_objs_size := 0, sp_obj_len := 0, sp_objs := 0\<rparr>) = Some m5 \<and>
    return_span_to_pgcache m5 x = Some m6 \<and> heap_ok (R(x := Free)) m6 Out \<and> keeps R m (R(x := Free)) m6 Out \<and> brk m6 = brk m"
proof -
  have P: "pages_ok R m" and C: "central_ok R m Out" using H by (simp_all add: heap_ok_def)
  have k: "k < CLASSES" using central_ok_span [OF C x(1)] by blast
  let ?D = "{a. R a = Class k False}"
  have tab: "in_table m (CentralList k)" "head_of m (CentralList k) = 0 \<or> R (head_of m (CentralList k)) = Class k False"
    using head_of_list_ref [OF C k, of False] by (simp_all add: list_refs)
  have xD: "x \<in> ?D" using x(1) by simp
  obtain sp h where r: "remove_span m (CentralList k) x = Some ((set_head m (CentralList k) h)\<lparr>spans := sp\<rparr>)"
      "if head_of m (CentralList k) = x then h = 0 \<or> h \<in> ?D - {x} else h = head_of m (CentralList k)"
      "ring_ok sp (?D - {x})" "same_data (spans m) sp" "\<forall>a. a \<notin> ?D \<longrightarrow> sp a = spans m a"
    using remove_span_ring [OF central_okD(3) [OF C] xD tab(1)] by blast
  let ?f = "\<lambda>s. s\<lparr>sp_next := x, sp_prev := x, sp_objs_size := 0, sp_obj_len := 0, sp_objs := 0\<rparr>"
  obtain s2 where s2: "sp x = Some s2" "unlinked s2 = unlinked s" using same_data_Some [OF r(4) x(2)] by blast
  let ?m4 = "(set_head m (CentralList k) h)\<lparr>spans := sp\<rparr>"
  let ?m5 = "m\<lparr>central := (central m)[k := h], spans := sp(x \<mapsto> ?f s2)\<rparr>"
  note u = unlinked_eqD [OF s2(2)]
  have m5: "upd_span ?m4 x ?f = Some ?m5" using s2(1) by (simp add: upd_span_def)
  have data: "\<exists>t'. sp a = Some t' \<and> unlinked t' = unlinked t" if "spans m a = Some t" for a t
    using same_data_Some [OF r(4) that] .
  have R: "R(x := Class k False) = R" using x(1) by auto
  have sm: "same_pages m ?m5" by (simp add: same_pages_def)
  have x5: "R x = Held \<or> R x = Class k False" "spans ?m5 x = Some (?f s2)" using x(1) by simp_all
  have "pages_ok (R(x := Class k False)) ?m5"
    by (rule pages_ok_reclass(1) [OF P C sm x5(1) x(2) x5(2)]) (use u data r(5) in auto)
  then have P5: "pages_ok R ?m5" by (simp only: R)
  obtain m6 where m6: "return_span_to_pgcache ?m5 x = Some m6" "pages_ok (R(x := Free)) m6"
      "\<forall>a. a \<noteq> x \<and> R a \<noteq> Free \<longrightarrow> spans m6 a = spans ?m5 a" "same_rest ?m5 m6" "brk m6 = brk ?m5"
    using return_span_ok [OF P5, of x "?f s2"] x u by auto
  have eq: "central m6 = (central m)[k := h]" "idle m6 = idle m" "link m6 = link m" "caches m6 = caches m"
      "ini_brk_addr m6 = ini_brk_addr m" "brk_max m6 = brk_max m" using m6(4) by (simp_all add: same_rest_def)
  have sp6: "spans m6 a = sp a" if "a \<noteq> x" "R a \<noteq> Free" for a using m6(3) that by simp
  have "class_span (link m) k Out s" using central_ok_span [OF C x(1)] x(2) by auto
  then have noout: "objs_of k s \<inter> Out = {}" using x(3) by (simp add: class_span_def)
  have sub: "Out \<inter> class_objs R m j \<subseteq> class_objs (R(x := Free)) m6 j" for j
  proof
    fix ob assume "ob \<in> Out \<inter> class_objs R m j"
    then obtain a b t where a: "ob \<in> Out" "R a = Class j b" "spans m a = Some t" "ob \<in> objs_of j t"
      by (auto simp: class_objs_def)
    have ax: "a \<noteq> x" using a noout x by auto
    obtain t' where t': "sp a = Some t'" "unlinked t' = unlinked t" using data [OF a(3)] by blast
    have "objs_of j t' = objs_of j t" using unlinked_eqD [OF t'(2)] by (simp add: objs_of_def)
    then show "ob \<in> class_objs (R(x := Free)) m6 j"
      using a ax t'(1) sp6 [of a] unfolding class_objs_def by auto
  qed
  have "central_ok (R(x := Free)) m6 Out"
  proof (rule central_ok_step [OF C, of _ x])
    fix a j b t assume a: "a \<noteq> x" "R a = Class j b" "spans m a = Some t"
    then show "\<exists>t'. spans m6 a = Some t' \<and> unlinked t' = unlinked t \<and>
        (\<forall>ob\<in>objs_of j t. (ob \<in> Out \<longleftrightarrow> ob \<in> Out) \<and> (ob \<notin> Out \<longrightarrow> link m6 ob = link m ob))"
      using data [OF a(3)] sp6 [of a] eq(3) by simp
  next
    fix j b
    have "ring_ok sp ({a. R a = Class j b} - {x})"
    proof (cases "j = k \<and> \<not> b")
      case False
      then have "{a. R a = Class j b} - {x} = {a. R a = Class j b}" using x(1) by auto
      moreover have "ring_ok sp {a. R a = Class j b} = ring_ok (spans m) {a. R a = Class j b}"
        using r(5) False by (intro ring_ok_cong) auto
      ultimately show ?thesis using central_okD(3) [OF C] by simp
    qed (use r(3) in simp)
    moreover have "{a. (R(x := Free)) a = Class j b} = {a. R a = Class j b} - {x}" by auto
    moreover have "ring_ok (spans m6) ({a. R a = Class j b} - {x}) = ring_ok sp ({a. R a = Class j b} - {x})"
      using sp6 by (intro ring_ok_cong) auto
    ultimately show "ring_ok (spans m6) {a. (R(x := Free)) a = Class j b}" by simp
  next
    fix j assume j: "j < CLASSES"
    have "h = 0 \<or> (R(x := Free)) h = Class k False" using r(2) tab(2) by (auto split: if_splits)
    then show "(central m6 ! j = 0 \<or> (R(x := Free)) (central m6 ! j) = Class j False) \<and>
        (idle m6 ! j = 0 \<or> (R(x := Free)) (idle m6 ! j) = Class j True)"
      using central_okD(4,5) [OF C j] central_okD(1) [OF C] j x(1) eq(1,2) by (cases "j = k") auto
  next
    show "Out \<subseteq> (\<Union>k. class_objs (R(x := Free)) m6 k)" using central_okD(6) [OF C] sub by blast
  qed (use central_okD(1,2) [OF C] eq in auto)
  then have "heap_ok (R(x := Free)) m6 Out" using m6(2) by (simp add: heap_ok_def)
  moreover have "keeps R m (R(x := Free)) m6 Out"
  proof -
    have "spans m6 a = spans m a" if "R a = Held" for a
    proof -
      have "a \<noteq> x" using that x(1) by auto
      then show ?thesis using sp6 [of a] r(5) that by simp
    qed
    then show ?thesis using eq sub x(1) by (auto simp: keeps_def)
  qed
  ultimately show ?thesis using r(1) m5 m6(1,5)
    by (intro exI [of _ ?m4] exI [of _ ?m5] exI [of _ m6]) simp
qed

text \<open>After the objects of a list have come back, none of them is out; the last one is of class \<open>k\<close>.\<close>

text \<open>An object belongs to one span only.\<close>

lemma class_of_object:
  assumes P: "pages_ok R m" and x: "R x = Class j b" "spans m x = Some s" "ob \<in> objs_of j s" and ob: "ob \<in> class_objs R m k"
  shows "j = k"
proof -
  obtain a c t where a: "R a = Class k c" "spans m a = Some t" "ob \<in> objs_of k t" using ob by (auto simp: class_objs_def)
  have "a = x"
  proof (rule ccontr)
    assume "a \<noteq> x"
    then have "objs_of k t \<inter> objs_of j s = {}" using objs_disjoint [OF P _ _ _ a(2) x(2)] a(1) x(1) by simp
    then show False using a(3) x(3) by blast
  qed
  then show ?thesis using a(1) x(1) by simp
qed

text \<open>
  A span with an object back in it is on the central list. Its location is not updated: a span that comes from the idle list is still
  marked \<open>central_idle\<close> there.
\<close>

lemma relist_ok:
  assumes H: "heap_ok R m Out" and x: "R x = Class k b" "spans m x = Some s" and ob: "ob \<in> objs_of k s" "ob \<notin> Out"
  shows "\<exists>m3 s3. (if sp_loc s = central_idle \<and> sp_refcount s \<noteq> sp_obj_len s
      then do { m2 \<leftarrow> remove_span m (IdleList k) x; spanlist_push m2 (CentralList k) x } else Some m) = Some m3 \<and>
    heap_ok (R(x := Class k False)) m3 Out \<and> keeps R m (R(x := Class k False)) m3 Out \<and> brk m3 = brk m \<and> spans m3 x = Some s3 \<and>
    sp_loc s3 = sp_loc s"
proof (cases "sp_loc s = central_idle")
  case False
  have "b \<longrightarrow> sp_loc s = central_idle" using H x central_ok_span [of R m Out x k b] by (auto simp: heap_ok_def)
  then have "R(x := Class k False) = R" using x(1) False by auto
  then show ?thesis using False H x(2) by simp
next
  case True
  have "class_span (link m) k Out s" using H x central_ok_span [of R m Out x k b] by (auto simp: heap_ok_def)
  moreover have "objs_of k s \<inter> Out \<subset> objs_of k s" using ob by blast
  then have "card (objs_of k s \<inter> Out) < card (objs_of k s)" by (intro psubset_card_mono) simp_all
  ultimately have ne: "sp_refcount s \<noteq> sp_obj_len s" by (simp add: class_span_def card_objs_of)
  obtain m2 M sp s2 where v: "remove_span m (IdleList k) x = Some m2" "spanlist_push m2 (CentralList k) x = Some (M\<lparr>spans := sp\<rparr>)"
      "sp x = Some s2" "brk M = brk m" "unlinked s2 = unlinked s"
      "\<And>l. heap_ok (R(x := Class k False)) (M\<lparr>spans := sp(x \<mapsto> s2\<lparr>sp_loc := l\<rparr>)\<rparr>) Out \<and>
        keeps R m (R(x := Class k False)) (M\<lparr>spans := sp(x \<mapsto> s2\<lparr>sp_loc := l\<rparr>)\<rparr>) Out"
    using move_list_ok [OF H x, of False] unfolding list_refs by blast
  have "M\<lparr>spans := sp(x \<mapsto> s2\<lparr>sp_loc := sp_loc s2\<rparr>)\<rparr> = M\<lparr>spans := sp\<rparr>" using v(3) by (simp add: fun_upd_idem)
  then show ?thesis using True ne v(1-4) v(6) [of "sp_loc s2"] unlinked_eqD(3) [OF v(5)] by simp
qed

lemma return_objs_ok:
  assumes H: "heap_ok R m Out" and k: "k < CLASSES" and xs: "free_list (link m) p xs" "xs \<noteq> []" "set xs \<subseteq> Out"
    and la: "last xs \<in> class_objs R m k"
  shows "\<exists>m' R'. return_objs_to_centralcache m p (class_size k) = Some m' \<and> heap_ok R' m' (Out - set xs) \<and>
    keeps R m R' m' (Out - set xs) \<and> brk m' = brk m"
proof -
  let ?Out = "Out - set xs"
  have ix: "index_of (get_index (class_size k)) = Some k" using class_index [OF k] by (simp add: index_of_def)
  obtain m1 x j b s where l: "return_loop m p None = Some (Some x, m1)" "heap_ok R m1 ?Out" "keeps R m R m1 ?Out"
      "brk m1 = brk m" "\<forall>j. class_objs R m j \<subseteq> class_objs R m1 j" "R x = Class j b" "spans m1 x = Some s" "last xs \<in> objs_of j s"
    using return_loop_ok [OF H xs(1,3), of None] xs(2) by auto
  have P1: "pages_ok R m1" using l(2) by (simp add: heap_ok_def)
  have "last xs \<in> class_objs R m1 k" using la l(5) by blast
  then have jk: "j = k" by (rule class_of_object [OF P1 l(6-8)])
  have x: "R x = Class k b" "last xs \<in> objs_of k s" "last xs \<notin> ?Out" using l(6,8) jk xs(2) by simp_all
  obtain m3 s3 where b: "(if sp_loc s = central_idle \<and> sp_refcount s \<noteq> sp_obj_len s
      then do { m2 \<leftarrow> remove_span m1 (IdleList k) x; spanlist_push m2 (CentralList k) x } else Some m1) = Some m3"
      "heap_ok (R(x := Class k False)) m3 ?Out" "keeps R m1 (R(x := Class k False)) m3 ?Out" "brk m3 = brk m1" "spans m3 x = Some s3"
      "sp_loc s3 = sp_loc s"
    using relist_ok [OF l(2) x(1) l(7) x(2,3)] by (elim exE conjE) (rule that)
  note keep = keeps_trans [OF l(3) b(3)]
  have run: "return_objs_to_centralcache m p (class_size k) =
      (if sp_refcount s3 = 0
       then do {
         m4 \<leftarrow> remove_span m3 (CentralList k) x;
         m5 \<leftarrow> upd_span m4 x (\<lambda>s. s\<lparr>sp_next := x, sp_prev := x, sp_objs_size := 0, sp_obj_len := 0, sp_objs := 0\<rparr>);
         return_span_to_pgcache m5 x
       } else Some m3)"
    unfolding return_objs_to_centralcache_def ix Option.bind.simps l(1) split l(7) b(1) b(5) ..
  show ?thesis
  proof (cases "sp_refcount s3 = 0")
    case False
    then show ?thesis using run b(2,4) keep l(4) by auto
  next
    case True
    let ?R = "R(x := Class k False)"
    obtain m4 m5 m6 where f: "remove_span m3 (CentralList k) x = Some m4"
        "upd_span m4 x (\<lambda>s. s\<lparr>sp_next := x, sp_prev := x, sp_objs_size := 0, sp_obj_len := 0, sp_objs := 0\<rparr>) = Some m5"
        "return_span_to_pgcache m5 x = Some m6" "heap_ok (?R(x := Free)) m6 ?Out" "keeps ?R m3 (?R(x := Free)) m6 ?Out" "brk m6 = brk m3"
      using release_span_ok [OF b(2) _ b(5) True] by auto
    have "return_objs_to_centralcache m p (class_size k) = Some m6" using run True f(1-3) by simp
    then show ?thesis using f(4,6) keeps_trans [OF keep f(5)] b(4) l(4) by (intro exI [of _ m6] exI [of _ "?R(x := Free)"]) simp
  qed
qed

subsection \<open>A location that is out of date\<close>

text \<open>
  What the location that is out of date can do, on the smallest ring: a span that is the head of the list of its class, next to one other
  span, and still marked \<open>central_idle\<close> (\<open>relist_ok\<close>). When an object returns to it, it is taken out of a list it is not in and pushed in
  front of itself, and the search for a free object does not get to the other span any more.
\<close>

lemma stale_location_drops_list:
  assumes k: "get_index nbytes = int k" "k < length (central m)" "k < length (idle m)"
    and ob: "ob \<noteq> 0" "link m ob = 0" "map_addr_to_span m ob = Some x"
    and x: "x \<noteq> 0" "spans m x = Some s" "sp_loc s = central_idle" "1 < sp_refcount s" "sp_refcount s < 2 ^ 32"
      "sp_refcount s \<noteq> sp_obj_len s + 2"
    and list: "central m ! k = x" "idle m ! k \<noteq> x" "sp_next s = y" "sp_prev s = y" "y \<noteq> x" "y \<noteq> 0" "spans m y = Some t"
      "sp_next t = x" "sp_prev t = x"
  shows "\<exists>m' s'. return_objs_to_centralcache m ob nbytes = Some m' \<and> central m' ! k = x \<and> spans m' x = Some s' \<and>
    sp_next s' = x \<and> sp_prev s' = x \<and> find_objs m' x x \<noteq> Some y"
proof -
  have ix: "index_of (get_index nbytes) = Some k" using k(1) by (simp add: index_of_def)
  obtain r where r: "sp_refcount s = Suc (Suc r)" using x(4) by (auto simp: less_iff_Suc_add)
  have rc: "u32 (Suc (Suc r) + 2 ^ 32 - 1) = Suc r" using u32_pred [of "Suc r"] x(5) r by simp
  let ?s1 = "s\<lparr>sp_objs := ob, sp_obj_len := sp_obj_len s + 1, sp_refcount := Suc r\<rparr>"
  let ?m1 = "m\<lparr>link := (link m)(ob := sp_objs s), spans := (spans m)(x \<mapsto> ?s1)\<rparr>"
  have "return_loop ?m1 0 (Some x) = Some (Some x, ?m1)" by (subst return_loop.simps) simp
  then have loop: "return_loop m ob None = Some (Some x, ?m1)"
    using ob x(1,2) rc r by (subst return_loop.simps) (simp add: freelist_push_def upd_span_def Let_def)
  let ?m2 = "?m1\<lparr>spans := (spans m)(x \<mapsto> ?s1\<lparr>sp_next := x, sp_prev := x\<rparr>, y \<mapsto> t\<lparr>sp_prev := y, sp_next := y\<rparr>)\<rparr>"
  have rem: "remove_span ?m1 (IdleList k) x = Some ?m2"
    using x(1,2) list k(3)
    by (simp add: remove_span_def spanlist_pop_def upd_span_def rd_def fun_upd_twist fun_upd_idem Let_def)
  let ?m3 = "?m1\<lparr>spans := (spans m)(y \<mapsto> t\<lparr>sp_prev := y, sp_next := y\<rparr>, x \<mapsto> ?s1\<lparr>sp_prev := x, sp_next := x\<rparr>),
    central := (central m)[k := x]\<rparr>"
  have push: "spanlist_push ?m2 (CentralList k) x = Some ?m3"
    using x(1) list(1,5) k(2) by (simp add: spanlist_push_def rd_def wr_def upd_span_def)
  have "return_objs_to_centralcache m ob nbytes = Some ?m3"
    using x(3,6) r rem push list(5)
    unfolding return_objs_to_centralcache_def ix Option.bind.simps loop split by simp
  moreover have "find_objs ?m3 x x \<noteq> Some y"
    using x(1) list(5,6) by (subst find_objs.simps) simp
  ultimately show ?thesis using k(2) by (intro exI [of _ ?m3] exI [of _ "?s1\<lparr>sp_prev := x, sp_next := x\<rparr>"]) simp
qed

end
