(* ===== verification/Block_Store.thy ===== *)
theory Block_Store
  imports C_Prelude
begin

section \<open>What a program expects of malloc and free\<close>

text \<open>
  The contract of an allocator, as its clients see it, as the locale \<open>block_store\<close>: a request that fits is served with a block that
  is not in use, a block in use can be freed, both leave what the other blocks hold, and blocks in use do not overlap. From it follows
  what a program may rely on that keeps a set of blocks, each an address and the size that was asked for. The allocator of the
  repository is an instance (theory \<open>Thread_Cache\<close>).
\<close>

definition block :: "addr \<Rightarrow> nat \<Rightarrow> addr set" where
  "block p n = {p ..< p + n}"

lemma block_mono: "n \<le> n' \<Longrightarrow> block p n \<subseteq> block p n'"
  by (auto simp: block_def)

text \<open>
  \<open>ok g m L\<close>: the memory \<open>m\<close> is well formed, and \<open>L\<close> are the addresses in use; \<open>g\<close> stands for what the allocator knows about
  \<open>m\<close> and its clients do not. \<open>owns g m p n\<close>: the block at \<open>p\<close> has at least \<open>n\<close> bytes.
\<close>

locale block_store =
  fixes ok :: "'g \<Rightarrow> 'm \<Rightarrow> addr set \<Rightarrow> bool"
    and owns :: "'g \<Rightarrow> 'm \<Rightarrow> addr \<Rightarrow> nat \<Rightarrow> bool"
    and get :: "'t \<Rightarrow> 'm \<Rightarrow> nat \<Rightarrow> (addr \<times> 'm) option"
    and put :: "'t \<Rightarrow> 'm \<Rightarrow> addr \<Rightarrow> 'm option"
    and users :: "'t set"
    and served :: "'m \<Rightarrow> nat \<Rightarrow> bool"
  assumes get_ok: "\<lbrakk>ok g m L; t \<in> users; served m n\<rbrakk> \<Longrightarrow>
      \<exists>p m' g'. get t m n = Some (p, m') \<and> p \<notin> L \<and> ok g' m' (insert p L) \<and> owns g' m' p n \<and>
        (\<forall>q k. q \<in> L \<and> owns g m q k \<longrightarrow> owns g' m' q k)"
    and put_ok: "\<lbrakk>ok g m L; t \<in> users; p \<in> L\<rbrakk> \<Longrightarrow>
      \<exists>m' g'. put t m p = Some m' \<and> ok g' m' (L - {p}) \<and> (\<forall>q k. q \<in> L - {p} \<and> owns g m q k \<longrightarrow> owns g' m' q k)"
    and apart: "\<lbrakk>ok g m L; owns g m p n; owns g m q k; p \<noteq> q\<rbrakk> \<Longrightarrow> block p n \<inter> block q k = {}"
begin

text \<open>The blocks a program keeps.\<close>

definition good :: "'g \<Rightarrow> 'm \<Rightarrow> (addr \<times> nat) set \<Rightarrow> bool" where
  "good g m B \<longleftrightarrow> ok g m (fst ` B) \<and> inj_on fst B \<and> (\<forall>x\<in>B. owns g m (fst x) (snd x))"

lemma good_get:
  assumes "good g m B" and "t \<in> users" and "served m n"
  shows "\<exists>p m' g'. get t m n = Some (p, m') \<and> p \<notin> fst ` B \<and> good g' m' (insert (p, n) B)"
proof -
  obtain p m' g' where "get t m n = Some (p, m')" "p \<notin> fst ` B" "ok g' m' (insert p (fst ` B))" "owns g' m' p n"
      "\<forall>q k. q \<in> fst ` B \<and> owns g m q k \<longrightarrow> owns g' m' q k"
    using get_ok [OF _ assms(2,3)] assms(1) unfolding good_def by blast
  then show ?thesis using assms(1) by (intro exI [of _ p] exI [of _ m'] exI [of _ g']) (auto simp: good_def)
qed

lemma good_put:
  assumes "good g m B" and "t \<in> users" and "x \<in> B"
  shows "\<exists>m' g'. put t m (fst x) = Some m' \<and> good g' m' (B - {x})"
proof -
  have x: "fst x \<in> fst ` B" "inj_on fst B" using assms(1,3) by (simp_all add: good_def)
  have f: "fst ` (B - {x}) = fst ` B - {fst x}" using inj_on_image_set_diff [OF x(2), of B "{x}"] assms(3) by simp
  obtain m' g' where n: "put t m (fst x) = Some m'" "ok g' m' (fst ` B - {fst x})"
      "\<forall>q k. q \<in> fst ` B - {fst x} \<and> owns g m q k \<longrightarrow> owns g' m' q k"
    using put_ok [OF _ assms(2) x(1)] assms(1) unfolding good_def by blast
  have "owns g' m' (fst y) (snd y)" if "y \<in> B - {x}" for y
  proof -
    have "fst y \<in> fst ` B - {fst x}" using that f by blast
    then show ?thesis using n(3) assms(1) that unfolding good_def by blast
  qed
  moreover have "inj_on fst (B - {x})" using x(2) by (rule inj_on_diff)
  ultimately have "good g' m' (B - {x})" using n(2) unfolding good_def f by blast
  then show ?thesis using n(1) by blast
qed

lemma good_apart:
  assumes "good g m B" and "x \<in> B" and "y \<in> B" and "x \<noteq> y"
  shows "block (fst x) (snd x) \<inter> block (fst y) (snd y) = {}"
proof -
  have "fst x \<noteq> fst y" using assms inj_onD [of fst B x y] by (auto simp: good_def)
  then show ?thesis using apart [of g m "fst ` B"] assms(1-3) unfolding good_def by blast
qed

text \<open>A request that can be served: what it returns has no byte in common with the blocks kept.\<close>

lemma good_fresh:
  assumes "good g m B" and "t \<in> users" and "served m n"
  shows "\<exists>p m'. get t m n = Some (p, m') \<and> (\<forall>y\<in>B. block p n \<inter> block (fst y) (snd y) = {})"
proof -
  obtain p m' g' where g: "get t m n = Some (p, m')" "p \<notin> fst ` B" "good g' m' (insert (p, n) B)"
    using good_get [OF assms] by blast
  have "block p n \<inter> block (fst y) (snd y) = {}" if y: "y \<in> B" for y
  proof -
    have "(p, n) \<noteq> y" using g(2) y by force
    then show ?thesis using good_apart [OF g(3), of "(p, n)" y] y by simp
  qed
  then show ?thesis using g(1) by blast
qed

end

end
