(* ===== verification/Thread_Cache.thy ===== *)
theory Thread_Cache
  imports Central_Objects Block_Store
begin

section \<open>Thread caches and the interface of the allocator (tc_malloc.c)\<close>

text \<open>
  Every thread keeps, per size class, a list of free objects, which it fills from the central cache in batches and
  gives back as a whole when it is too long. The operations take the thread that calls them; a call is one step
  of the program, as the locks of the two shared parts are held around each access to them. The invariant
  \<open>tc_ok\<close> accounts for every object: it is free in its span, in the cache of exactly one thread, or in use.
\<close>

subsection \<open>Operations\<close>

definition set_cache :: "tcmem \<Rightarrow> nat \<Rightarrow> nat \<Rightarrow> threadlist \<Rightarrow> tcmem" where
  "set_cache m t i l = m\<lparr>caches := (caches m)(t := (caches m t)[i := l])\<rparr>"

text \<open>The local list of an \<open>int\<close> index; an index outside the array has no list.\<close>

definition local_list :: "tcmem \<Rightarrow> nat \<Rightarrow> int \<Rightarrow> (nat \<times> threadlist) option" where
  "local_list m t index = do {
     i \<leftarrow> index_of index;
     l \<leftarrow> rd (caches m t) i;
     Some (i, l)
   }"

partial_function (option) insert_loop :: "(addr \<Rightarrow> addr) \<Rightarrow> threadlist \<Rightarrow> addr \<Rightarrow> ((addr \<Rightarrow> addr) \<times> threadlist) option" where
  "insert_loop nx head objs =
     (if objs = 0 then Some (nx, head)
      else insert_loop (nx(objs := tl_objs head)) (head\<lparr>tl_objs := objs, tl_objlen := tl_objlen head + 1\<rparr>) (nx objs))"

definition insert_to_threadcache :: "tcmem \<Rightarrow> nat \<Rightarrow> addr \<Rightarrow> nat \<Rightarrow> tcmem option" where
  "insert_to_threadcache m t objs nbytes = do {
     (i, head) \<leftarrow> local_list m t (get_index nbytes);
     (nx, head') \<leftarrow> insert_loop (link m) head objs;
     Some (set_cache (m\<lparr>link := nx\<rparr>) t i head')
   }"

text \<open>The limit of a list grows with every fetch until a fetch takes \<open>MAXFETCHSIZE\<close> objects.\<close>

definition grow_limit :: "int \<Rightarrow> threadlist \<Rightarrow> threadlist" where
  "grow_limit index l =
     (let opt_size = min MAXFETCHSIZE (tl_max_length l)
      in if opt_size < MAXFETCHSIZE \<and> index \<le> 22 then l\<lparr>tl_max_length := tl_max_length l * 2\<rparr>
         else if opt_size < MAXFETCHSIZE then l\<lparr>tl_max_length := tl_max_length l + 1\<rparr>
         else l)"

definition fetch_from_centralcache :: "tcmem \<Rightarrow> nat \<Rightarrow> int \<Rightarrow> tcmem option" where
  "fetch_from_centralcache m t index = do {
     let nbytes = int_to_size (index_to_size index);
     (i, l) \<leftarrow> local_list m t index;
     let opt_size = min MAXFETCHSIZE (tl_max_length l);
     let m1 = set_cache m t i (grow_limit index l);
     ((start, end_p, fetch_amt), m2) \<leftarrow> fetch_objs m1 opt_size nbytes;
     insert_to_threadcache m2 t start nbytes
   }"

definition allocate :: "tcmem \<Rightarrow> nat \<Rightarrow> nat \<Rightarrow> (addr \<times> tcmem) option" where
  "allocate m t nbytes = do {
     let index = get_index nbytes;
     (i, l) \<leftarrow> local_list m t index;
     m1 \<leftarrow> (if tl_objs l \<noteq> 0 then Some m else fetch_from_centralcache m t index);
     l1 \<leftarrow> rd (caches m1 t) i;
     (pop, l2) \<leftarrow> freelist_pop (link m1) l1;
     Some (pop, set_cache m1 t i l2)
   }"

definition deallocate :: "tcmem \<Rightarrow> nat \<Rightarrow> addr \<Rightarrow> nat \<Rightarrow> tcmem option" where
  "deallocate m t alloc_ptr nbytes = do {
     (i, l) \<leftarrow> local_list m t (get_index nbytes);
     let curr_size = tl_objlen l;
     let max = tl_max_length l;
     if alloc_ptr = 0 then None
     else do {
       let m1 = m\<lparr>link := (link m)(alloc_ptr := tl_objs l)\<rparr>;
       if curr_size = max
       then return_objs_to_centralcache (set_cache m1 t i (l\<lparr>tl_objs := 0, tl_objlen := 0\<rparr>)) alloc_ptr nbytes
       else Some (set_cache m1 t i (l\<lparr>tl_objlen := tl_objlen l + 1, tl_objs := alloc_ptr\<rparr>))
     }
   }"

definition tc_malloc :: "tcmem \<Rightarrow> nat \<Rightarrow> nat \<Rightarrow> (addr \<times> tcmem) option" where
  "tc_malloc m t sz =
     (if sz \<le> THRESHALLOC then allocate m t sz
      else do {
        (span, m1) \<leftarrow> fetch_span m (bytes_to_pages sz);
        s \<leftarrow> spans m1 span;
        Some (sp_start s, m1)
      })"

definition tc_free :: "tcmem \<Rightarrow> nat \<Rightarrow> addr \<Rightarrow> tcmem option" where
  "tc_free m t ptr = do {
     span \<leftarrow> map_addr_to_span m ptr;
     s \<leftarrow> spans m span;
     if sp_objs_size s > 0 \<and> sp_objs_size s \<le> THRESHALLOC
     then deallocate m t ptr (sp_objs_size s)
     else return_span_to_pgcache m span
   }"

text \<open>Start-up: the globals are cleared, and one span per class is cut.\<close>

definition init_globals :: "tcmem \<Rightarrow> tcmem" where
  "init_globals m = m\<lparr>pg_list := replicate PAGEHEAPSIZE 0, ini_brk_addr := 0, page_mapping := (\<lambda>_. 0), curr_index := 0,
     chunk := 0, rem_bytes := 0, curr_ind := 0, central := replicate CLASSES 0, idle := replicate CLASSES 0\<rparr>"

definition init_threadlist :: "threadlist \<Rightarrow> threadlist" where
  "init_threadlist l = l\<lparr>tl_objlen := 0, tl_objs := 0, tl_max_length := 1\<rparr>"

definition tc_thread_init :: "tcmem \<Rightarrow> nat \<Rightarrow> tcmem option" where
  "tc_thread_init m t =
     fold_option (\<lambda>m i. do {
         l \<leftarrow> rd (caches m t) i;
         fetch_from_centralcache (set_cache m t i (init_threadlist l)) t (int i)
       }) m [0..<CLASSES]"

definition tc_central_init :: "tcmem \<Rightarrow> tcmem option" where
  "tc_central_init m =
     (let m1 = init_globals m; m2 = m1\<lparr>ini_brk_addr := fst (sbrk m1 0)\<rparr>
      in fold_option (\<lambda>m i. map_option snd (get_span_central m (int_to_size (index_to_size (int i))))) m2 [0..<CLASSES])"

subsection \<open>The invariant\<close>

text \<open>
  A slot is a pair of a thread and a class. \<open>C\<close> gives the objects cached in each slot, \<open>S\<close> the slots that are
  initialised, \<open>L\<close> the objects in use.
\<close>

type_synonym slot = "nat \<times> nat"

definition cached :: "(slot \<Rightarrow> addr list) \<Rightarrow> slot set \<Rightarrow> addr set" where
  "cached C S = (\<Union>p\<in>S. set (C p))"

definition cache_ok :: "(addr \<Rightarrow> role) \<Rightarrow> tcmem \<Rightarrow> nat \<Rightarrow> threadlist \<Rightarrow> addr list \<Rightarrow> bool" where
  "cache_ok R m i l xs \<longleftrightarrow> free_list (link m) (tl_objs l) xs \<and> tl_objlen l = length xs \<and> length xs \<le> tl_max_length l \<and>
     1 \<le> tl_max_length l \<and> tl_max_length l < 2 * MAXFETCHSIZE \<and> set xs \<subseteq> class_objs R m i"

definition tc_ok :: "(addr \<Rightarrow> role) \<Rightarrow> tcmem \<Rightarrow> (slot \<Rightarrow> addr list) \<Rightarrow> slot set \<Rightarrow> addr set \<Rightarrow> bool" where
  "tc_ok R m C S L \<longleftrightarrow> heap_ok R m (cached C S \<union> L) \<and> (\<forall>t. length (caches m t) = CLASSES) \<and>
     (\<forall>(t, i)\<in>S. i < CLASSES \<and> cache_ok R m i (caches m t ! i) (C (t, i))) \<and>
     (\<forall>p\<in>S. set (C p) \<inter> L = {} \<and> (\<forall>q\<in>S. p \<noteq> q \<longrightarrow> set (C p) \<inter> set (C q) = {}))"

text \<open>What a call keeps for the objects \<open>L\<close>: their contents, their class, and the spans handed out whole.\<close>

definition keeps_live :: "(addr \<Rightarrow> role) \<Rightarrow> tcmem \<Rightarrow> (addr \<Rightarrow> role) \<Rightarrow> tcmem \<Rightarrow> addr set \<Rightarrow> bool" where
  "keeps_live R m R' m' L \<longleftrightarrow> keeps R m R' (m'\<lparr>caches := caches m\<rparr>) L"

lemma class_objs_cong: "spans m' = spans m \<Longrightarrow> class_objs R m' k = class_objs R m k"
  by (simp add: class_objs_def)

lemma keeps_cong: "spans m1' = spans m1 \<Longrightarrow> link m1' = link m1 \<Longrightarrow> caches m1' = caches m1 \<Longrightarrow>
    ini_brk_addr m1' = ini_brk_addr m1 \<Longrightarrow> brk_max m1' = brk_max m1 \<Longrightarrow> keeps R m R' m1' L = keeps R m R' m1 L"
  using class_objs_cong [of m1' m1 R'] by (simp add: keeps_def)

lemma keeps_live_def':
  "keeps_live R m R' m' L \<longleftrightarrow> ini_brk_addr m' = ini_brk_addr m \<and> brk_max m' = brk_max m \<and>
     (\<forall>ob\<in>L. link m' ob = link m ob) \<and> (\<forall>a. R a = Held \<longrightarrow> R' a = Held \<and> spans m' a = spans m a) \<and>
     (\<forall>k. L \<inter> class_objs R m k \<subseteq> class_objs R' m' k)"
  using class_objs_cong [of "m'\<lparr>caches := caches m\<rparr>" m' R'] by (simp add: keeps_live_def keeps_def)

lemma keeps_live_trans: "keeps_live R m R1 m1 L \<Longrightarrow> keeps_live R1 m1 R2 m2 L \<Longrightarrow> keeps_live R m R2 m2 L"
proof -
  assume a: "keeps_live R m R1 m1 L" "keeps_live R1 m1 R2 m2 L"
  have "L \<inter> class_objs R m k \<subseteq> class_objs R2 m2 k" for k using a unfolding keeps_live_def' by blast
  then show ?thesis using a by (simp add: keeps_live_def')
qed

lemma keeps_imp_live: "keeps R m R' m' L \<Longrightarrow> keeps_live R m R' m' L"
  by (simp add: keeps_live_def' keeps_def)

lemma keeps_live_subset: "keeps_live R m R' m' L \<Longrightarrow> L' \<subseteq> L \<Longrightarrow> keeps_live R m R' m' L'"
  unfolding keeps_live_def' by blast

text \<open>The links of the objects that are out, and the caches, are not part of the heap.\<close>

lemma heap_ok_out_links:
  assumes H: "heap_ok R m Out" and nx: "\<And>a. a \<notin> Out \<Longrightarrow> nx a = link m a"
  shows "heap_ok R (m\<lparr>link := nx, caches := c\<rparr>) Out"
proof -
  let ?m = "m\<lparr>link := nx, caches := c\<rparr>"
  have P: "pages_ok R m" and C: "central_ok R m Out" using H by (simp_all add: heap_ok_def)
  have "pages_ok R ?m"
    using P by (simp add: pages_ok_def sys_ok_def pool_ok_def own_ok_def span_ok_def top_page_def clean_ok_def lists_ok_def)
  moreover have "central_ok R ?m Out"
    unfolding central_ok_def
  proof (intro conjI allI impI)
    fix a k b assume a: "R a = Class k b"
    obtain s where s: "spans m a = Some s" "k < CLASSES" "class_span (link m) k Out s" "b \<longrightarrow> sp_loc s = central_idle"
      using central_ok_span [OF C a] by blast
    have "class_span nx k Out s = class_span (link m) k Out s" using nx by (intro class_span_cong) auto
    then show "k < CLASSES" "\<exists>s. spans ?m a = Some s \<and> class_span (link ?m) k Out s \<and> (b \<longrightarrow> sp_loc s = central_idle)"
      using s by auto
  next
    show "Out \<subseteq> (\<Union>k. class_objs R ?m k)" using central_okD(6) [OF C] class_objs_cong [of ?m m R] by simp
  qed (use central_okD [OF C] in simp_all)
  ultimately show ?thesis by (simp add: heap_ok_def)
qed

lemma tc_okD:
  assumes "tc_ok R m C S L"
  shows "heap_ok R m (cached C S \<union> L)" "length (caches m t) = CLASSES"
    "(t, i) \<in> S \<Longrightarrow> i < CLASSES" "(t, i) \<in> S \<Longrightarrow> cache_ok R m i (caches m t ! i) (C (t, i))"
    "p \<in> S \<Longrightarrow> set (C p) \<inter> L = {}" "p \<in> S \<Longrightarrow> q \<in> S \<Longrightarrow> p \<noteq> q \<Longrightarrow> set (C p) \<inter> set (C q) = {}"
  using assms by (auto simp: tc_ok_def)

lemma cached_insert: "cached D (insert p S) = set (D p) \<union> cached D (S - {p})"
  by (auto simp: cached_def)

text \<open>A step that changes one slot.\<close>

lemma tc_ok_step:
  assumes T: "tc_ok R m C S L" and i: "i < CLASSES"
    and H: "heap_ok R' m' (cached C (S - {(t, i)}) \<union> set ys \<union> L')"
    and caches: "caches m' = (caches m)(t := (caches m t)[i := l])"
    and l: "cache_ok R' m' i l ys"
    and link: "\<And>ob. ob \<in> cached C (S - {(t, i)}) \<Longrightarrow> link m' ob = link m ob"
    and cls: "\<And>k. cached C (S - {(t, i)}) \<inter> class_objs R m k \<subseteq> class_objs R' m' k"
    and disj: "set ys \<inter> cached C (S - {(t, i)}) = {}" "set ys \<inter> L' = {}" "L' \<inter> cached C (S - {(t, i)}) = {}"
  shows "tc_ok R' m' (C((t, i) := ys)) (insert (t, i) S) L'"
proof -
  let ?C = "C((t, i) := ys)" and ?S = "insert (t, i) S"
  have "cached ?C ?S = set (?C (t, i)) \<union> cached ?C (S - {(t, i)})" by (rule cached_insert)
  moreover have "cached ?C (S - {(t, i)}) = cached C (S - {(t, i)})" unfolding cached_def by (rule SUP_cong) auto
  ultimately have "cached ?C ?S = cached C (S - {(t, i)}) \<union> set ys" by auto
  then have "heap_ok R' m' (cached ?C ?S \<union> L')" using H by simp
  moreover have "length (caches m' u) = CLASSES" for u using tc_okD(2) [OF T, of u] tc_okD(2) [OF T, of t] caches by simp
  moreover have "j < CLASSES \<and> cache_ok R' m' j (caches m' u ! j) (?C (u, j))" if uj: "(u, j) \<in> ?S" for u j
  proof (cases "(u, j) = (t, i)")
    case True
    then show ?thesis using i l caches tc_okD(2) [OF T, of t] by simp
  next
    case False
    then have uS: "(u, j) \<in> S" using uj by auto
    have sub: "set (C (u, j)) \<subseteq> cached C (S - {(t, i)})" using uS False by (auto simp: cached_def)
    have old: "j < CLASSES" "cache_ok R m j (caches m u ! j) (C (u, j))" using tc_okD(3,4) [OF T uS] by simp_all
    have same: "caches m' u ! j = caches m u ! j" using caches False by (cases "u = t") auto
    have "free_list (link m') (tl_objs (caches m u ! j)) (C (u, j)) = free_list (link m) (tl_objs (caches m u ! j)) (C (u, j))"
      using sub link by (intro free_list_cong) blast
    moreover have "set (C (u, j)) \<subseteq> class_objs R' m' j" using old(2) sub cls [of j] unfolding cache_ok_def by blast
    moreover have "?C (u, j) = C (u, j)" using False by auto
    ultimately show ?thesis using old same unfolding cache_ok_def by metis
  qed
  moreover have "set (?C p) \<inter> L' = {} \<and> (\<forall>q\<in>?S. p \<noteq> q \<longrightarrow> set (?C p) \<inter> set (?C q) = {})" if p: "p \<in> ?S" for p
  proof -
    have sub: "q \<in> S \<Longrightarrow> q \<noteq> (t, i) \<Longrightarrow> set (C q) \<subseteq> cached C (S - {(t, i)})" for q by (auto simp: cached_def)
    have a: "set (?C p) \<inter> L' = {}"
      using disj(2,3) sub [of p] p by (cases "p = (t, i)") auto
    have "set (?C p) \<inter> set (?C q) = {}" if q: "q \<in> ?S" "p \<noteq> q" for q
    proof -
      consider "p = (t, i)" "q \<in> S" "q \<noteq> (t, i)" | "q = (t, i)" "p \<in> S" "p \<noteq> (t, i)" | "p \<in> S" "q \<in> S" "p \<noteq> (t, i)" "q \<noteq> (t, i)"
        using p q by auto
      then show ?thesis
      proof cases
        case 1
        then show ?thesis using sub [of q] disj(1) by auto
      next
        case 2
        then show ?thesis using sub [of p] disj(1) by auto
      next
        case 3
        then show ?thesis using tc_okD(6) [OF T 3(1,2) q(2)] by simp
      qed
    qed
    then show ?thesis using a by blast
  qed
  ultimately show ?thesis unfolding tc_ok_def by blast
qed

text \<open>The other slots, and what a slot has to do with them.\<close>

lemma slot_apart:
  assumes T: "tc_ok R m C S L" and p: "p \<in> S"
  shows "cached C S = set (C p) \<union> cached C (S - {p})" "set (C p) \<inter> cached C (S - {p}) = {}" "L \<inter> cached C (S - {p}) = {}"
    "insert p S = S"
proof -
  show "cached C S = set (C p) \<union> cached C (S - {p})" using p by (auto simp: cached_def)
  show "set (C p) \<inter> cached C (S - {p}) = {}" using tc_okD(6) [OF T p] by (fastforce simp: cached_def)
  show "L \<inter> cached C (S - {p}) = {}" using tc_okD(5) [OF T] by (fastforce simp: cached_def)
  show "insert p S = S" using p by auto
qed

subsection \<open>Filling a cache\<close>

lemma insert_loop_closed:
  assumes "free_list nx p xs" and "free_list nx (tl_objs l) ys" and "set xs \<inter> set ys = {}"
  shows "\<exists>nx' q. insert_loop nx l p = Some (nx', l\<lparr>tl_objs := q, tl_objlen := tl_objlen l + length xs\<rparr>) \<and>
    free_list nx' q (rev xs @ ys) \<and> (\<forall>a. a \<notin> set xs \<longrightarrow> nx' a = nx a)"
  using assms
proof (induction xs arbitrary: nx p l ys)
  case Nil
  then have "insert_loop nx l p = Some (nx, l)" by (subst insert_loop.simps) simp
  then show ?case using Nil by (intro exI [of _ nx] exI [of _ "tl_objs l"]) simp
next
  case (Cons x xs)
  have p: "p = x" "x \<noteq> 0" "free_list nx (nx x) xs" using Cons.prems(1) by auto
  have d: "x \<notin> set xs" "x \<notin> set ys" using linked_distinct [OF Cons.prems(1)] Cons.prems(3) by auto
  let ?nx = "nx(x := tl_objs l)" and ?l = "l\<lparr>tl_objs := x, tl_objlen := tl_objlen l + 1\<rparr>"
  have a: "free_list ?nx (nx x) xs" using p(3) d(1) free_list_upd by simp
  have b: "free_list ?nx (tl_objs ?l) (x # ys)" using free_list_push [OF Cons.prems(2) p(2) d(2)] by simp
  have c: "set xs \<inter> set (x # ys) = {}" using Cons.prems(3) d(1) by auto
  have step: "insert_loop nx l p = insert_loop ?nx ?l (nx x)" using p by (subst insert_loop.simps) simp
  obtain nx' q where "insert_loop ?nx ?l (nx x) = Some (nx', ?l\<lparr>tl_objs := q, tl_objlen := tl_objlen ?l + length xs\<rparr>)"
      "free_list nx' q (rev xs @ x # ys)" "\<forall>a. a \<notin> set xs \<longrightarrow> nx' a = ?nx a"
    using Cons.IH [OF a b c] by blast
  then show ?case using step by (intro exI [of _ nx'] exI [of _ q]) simp
qed

lemma local_list_class: "k < CLASSES \<Longrightarrow> length (caches m t) = CLASSES \<Longrightarrow> local_list m t (int k) = Some (k, caches m t ! k)"
  by (simp add: local_list_def index_of_def rd_def)

lemma grow_limit_facts:
  assumes "1 \<le> tl_max_length l" and "tl_max_length l < 2 * MAXFETCHSIZE"
  shows "tl_objs (grow_limit j l) = tl_objs l" "tl_objlen (grow_limit j l) = tl_objlen l"
    "min MAXFETCHSIZE (tl_max_length l) \<le> tl_max_length (grow_limit j l)" "tl_max_length (grow_limit j l) < 2 * MAXFETCHSIZE"
    "1 \<le> tl_max_length (grow_limit j l)"
  using assms by (auto simp: grow_limit_def Let_def)

lemma cached_keep: "keeps R m R' m' Out \<Longrightarrow> X \<subseteq> Out \<Longrightarrow> X \<inter> class_objs R m k \<subseteq> class_objs R' m' k"
  unfolding keeps_def by blast

text \<open>The slot is empty, and its limit is set; it need not be one of the initialised slots.\<close>

lemma fetch_from_centralcache_from:
  assumes T: "tc_ok R m C S L" and i: "i < CLASSES"
    and e: "tl_objs (caches m t ! i) = 0" "tl_objlen (caches m t ! i) = 0" "1 \<le> tl_max_length (caches m t ! i)"
      "tl_max_length (caches m t ! i) < 2 * MAXFETCHSIZE" and C: "(t, i) \<in> S \<longrightarrow> C (t, i) = []"
  defines "m1 \<equiv> set_cache m t i (grow_limit (int i) (caches m t ! i))" and "n \<equiv> min MAXFETCHSIZE (tl_max_length (caches m t ! i))"
  assumes f: "fetch_objs m1 n (class_size i) = Some ((p, last xs, length xs), m2)" "length xs \<le> n"
      "free_list (link m2) p xs" "set xs \<inter> (cached C S \<union> L) = {}" "set xs \<subseteq> class_objs R2 m2 i"
      "heap_ok R2 m2 (cached C S \<union> L \<union> set xs)" "keeps R m1 R2 m2 (cached C S \<union> L)"
  shows "\<exists>m'. fetch_from_centralcache m t (int i) = Some m' \<and> tc_ok R2 m' (C((t, i) := rev xs)) (insert (t, i) S) L \<and>
    keeps_live R m R2 m' L \<and> brk m' = brk m2 \<and> spans m' = spans m2 \<and> central m' = central m2 \<and> (\<forall>u. u \<noteq> t \<longrightarrow> caches m' u = caches m u)"
proof -
  let ?Out = "cached C S \<union> L" and ?rest = "cached C (S - {(t, i)})" and ?l = "grow_limit (int i) (caches m t ! i)"
  note g = grow_limit_facts [OF e(3,4), of "int i"]
  have len: "length (caches m t) = CLASSES" using tc_okD(2) [OF T] .
  have rest: "?rest = cached C S" using C by (force simp: cached_def)
  have c2: "caches m2 = (caches m)(t := (caches m t)[i := ?l])" using f(7) by (simp add: keeps_def set_cache_def m1_def)
  obtain nx q where q: "insert_loop (link m2) ?l p = Some (nx, ?l\<lparr>tl_objs := q, tl_objlen := tl_objlen ?l + length xs\<rparr>)"
      "free_list nx q (rev xs @ [])" "\<forall>a. a \<notin> set xs \<longrightarrow> nx a = link m2 a"
    using insert_loop_closed [OF f(3), of ?l "[]"] e(1) g(1) by auto
  let ?l2 = "?l\<lparr>tl_objs := q, tl_objlen := length xs\<rparr>"
  let ?m3 = "set_cache (m2\<lparr>link := nx\<rparr>) t i ?l2"
  have c3: "caches ?m3 = (caches m)(t := (caches m t)[i := ?l2])" using c2 by (simp add: set_cache_def)
  have "insert_to_threadcache m2 t p (class_size i) = Some ?m3"
    using q(1) local_list_class [OF i, of m2 t] class_index [OF i] c2 len e(2) g(2) i by (simp add: insert_to_threadcache_def)
  then have run: "fetch_from_centralcache m t (int i) = Some ?m3"
    using f(1) local_list_class [OF i len] index_to_size_nat [OF i]
    by (simp add: fetch_from_centralcache_def Let_def m1_def n_def)
  have H3: "heap_ok R2 ?m3 (?Out \<union> set xs)"
  proof -
    have "nx a = link m2 a" if "a \<notin> ?Out \<union> set xs" for a using q(3) that by blast
    from heap_ok_out_links [OF f(6) this, of "caches ?m3"] show ?thesis by (simp add: set_cache_def)
  qed
  have cls: "class_objs R2 ?m3 k = class_objs R2 m2 k" for k by (rule class_objs_cong) (simp add: set_cache_def)
  have cls1: "class_objs R m1 k = class_objs R m k" for k by (rule class_objs_cong) (simp add: set_cache_def m1_def)
  have lk: "link ?m3 ob = link m ob" if "ob \<in> ?Out" for ob
    using f(4,7) q(3) that by (auto simp: keeps_def set_cache_def m1_def)
  have "tc_ok R2 ?m3 (C((t, i) := rev xs)) (insert (t, i) S) L"
  proof (rule tc_ok_step [OF T i _ c3])
    have "?rest \<union> set (rev xs) \<union> L = ?Out \<union> set xs" using rest by auto
    then show "heap_ok R2 ?m3 (?rest \<union> set (rev xs) \<union> L)" using H3 by simp
    show "cache_ok R2 ?m3 i ?l2 (rev xs)"
      using q(2) f(5) order_trans [OF f(2) [unfolded n_def] g(3)] g(4,5) cls [of i] by (simp add: cache_ok_def set_cache_def)
    show "link ?m3 ob = link m ob" if "ob \<in> ?rest" for ob using that rest lk by simp
    show "?rest \<inter> class_objs R m k \<subseteq> class_objs R2 ?m3 k" for k
      using cached_keep [OF f(7), of ?rest k] rest cls cls1 by simp
    show "L \<inter> ?rest = {}" using tc_okD(5) [OF T] by (fastforce simp: cached_def)
  qed (use f(4) rest in auto)
  moreover have "keeps_live R m R2 ?m3 L"
  proof -
    have "L \<inter> class_objs R m k \<subseteq> class_objs R2 ?m3 k" for k using cached_keep [OF f(7), of L k] cls cls1 by simp
    moreover have "ini_brk_addr ?m3 = ini_brk_addr m \<and> brk_max ?m3 = brk_max m \<and>
        (\<forall>a. R a = Held \<longrightarrow> R2 a = Held \<and> spans ?m3 a = spans m a)"
      using f(7) by (simp add: keeps_def set_cache_def m1_def)
    ultimately show ?thesis using lk by (simp add: keeps_live_def')
  qed
  moreover have "brk ?m3 = brk m2 \<and> spans ?m3 = spans m2 \<and> central ?m3 = central m2" by (simp add: set_cache_def)
  moreover have "\<forall>u. u \<noteq> t \<longrightarrow> caches ?m3 u = caches m u" using c3 by simp
  ultimately show ?thesis using run by (intro exI [of _ ?m3]) simp
qed

lemma set_cache_heap: "tc_ok R m C S L \<Longrightarrow> heap_ok R (set_cache m t i l) (cached C S \<union> L)"
  using heap_ok_out_links [OF tc_okD(1), of R m C S L "link m"] by (simp add: set_cache_def)

lemma fetch_from_centralcache_ok:
  assumes T: "tc_ok R m C S L" and i: "i < CLASSES" and sup: "stocked m g f"
    and e: "tl_objs (caches m t ! i) = 0" "tl_objlen (caches m t ! i) = 0" "1 \<le> tl_max_length (caches m t ! i)"
      "tl_max_length (caches m t ! i) < 2 * MAXFETCHSIZE" and C: "(t, i) \<in> S \<Longrightarrow> C (t, i) = []"
  shows "\<exists>m' R' ys. fetch_from_centralcache m t (int i) = Some m' \<and> tc_ok R' m' (C((t, i) := ys)) (insert (t, i) S) L \<and>
    ys \<noteq> [] \<and> keeps_live R m R' m' L \<and> brk m' \<le> brk m + g"
proof -
  let ?m1 = "set_cache m t i (grow_limit (int i) (caches m t ! i))" and ?n = "min MAXFETCHSIZE (tl_max_length (caches m t ! i))"
  have "stocked ?m1 g f" using sup by (simp add: stocked_def room_def avail_def set_cache_def)
  moreover have "0 < ?n" using e(3) by (simp add: MAXFETCHSIZE_def)
  ultimately obtain xs p m2 R2 where f: "fetch_objs ?m1 ?n (class_size i) = Some ((p, last xs, length xs), m2)"
      "length xs \<le> ?n" "free_list (link m2) p xs" "set xs \<inter> (cached C S \<union> L) = {}" "set xs \<subseteq> class_objs R2 m2 i"
      "heap_ok R2 m2 (cached C S \<union> L \<union> set xs)" "keeps R ?m1 R2 m2 (cached C S \<union> L)" and b: "xs \<noteq> []" "brk m2 \<le> brk ?m1 + g"
    using fetch_objs_ok [OF set_cache_heap [OF T] i] by blast
  have C': "(t, i) \<in> S \<longrightarrow> C (t, i) = []" using C by blast
  obtain m' where "fetch_from_centralcache m t (int i) = Some m'" "tc_ok R2 m' (C((t, i) := rev xs)) (insert (t, i) S) L"
      "keeps_live R m R2 m' L" "brk m' = brk m2"
    using fetch_from_centralcache_from [OF T i e C' f] by blast
  then show ?thesis using b by (intro exI [of _ m'] exI [of _ R2] exI [of _ "rev xs"]) (simp add: set_cache_def)
qed

text \<open>The first fetch of a slot, which takes one object, from a class that has more than one left.\<close>

lemma fetch_from_centralcache_spare:
  assumes T: "tc_ok R m C S L" and i: "i < CLASSES" and sp: "spare m i n" "1 < n"
    and e: "tl_objs (caches m t ! i) = 0" "tl_objlen (caches m t ! i) = 0" "tl_max_length (caches m t ! i) = 1" and C: "(t, i) \<notin> S"
  shows "\<exists>m' R' ob. fetch_from_centralcache m t (int i) = Some m' \<and> tc_ok R' m' (C((t, i) := [ob])) (insert (t, i) S) L \<and>
    keeps_live R m R' m' L \<and> brk m' = brk m \<and> spare m' i (n - 1) \<and> (\<forall>j<CLASSES. \<forall>l. j \<noteq> i \<and> spare m j l \<longrightarrow> spare m' j l) \<and>
    (\<forall>u. u \<noteq> t \<longrightarrow> caches m' u = caches m u)"
proof -
  let ?m1 = "set_cache m t i (grow_limit (int i) (caches m t ! i))"
  have one: "min MAXFETCHSIZE (tl_max_length (caches m t ! i)) = 1" using e(3) by (simp add: MAXFETCHSIZE_def)
  have le: "1 \<le> tl_max_length (caches m t ! i)" "tl_max_length (caches m t ! i) < 2 * MAXFETCHSIZE" using e(3) by (simp_all add: MAXFETCHSIZE_def)
  have spm: "spare ?m1 j l = spare m j l" for j l by (simp add: spare_def set_cache_def)
  obtain xs p m2 R2 where f: "fetch_objs ?m1 1 (class_size i) = Some ((p, last xs, length xs), m2)"
      "length xs \<le> 1" "free_list (link m2) p xs" "set xs \<inter> (cached C S \<union> L) = {}" "set xs \<subseteq> class_objs R2 m2 i"
      "heap_ok R2 m2 (cached C S \<union> L \<union> set xs)" "keeps R ?m1 R2 m2 (cached C S \<union> L)" and b: "xs \<noteq> []" "brk m2 = brk ?m1"
      "spare m2 i (n - 1)" "\<forall>j<CLASSES. \<forall>l. j \<noteq> i \<and> spare m j l \<longrightarrow> spare m2 j l"
    using fetch_objs_spare [OF set_cache_heap [OF T] i, of t i "grow_limit (int i) (caches m t ! i)" n 1] sp unfolding spm by auto
  obtain ob where ob: "xs = [ob]" using f(2) b(1) by (cases xs) auto
  have C': "(t, i) \<in> S \<longrightarrow> C (t, i) = []" using C by blast
  obtain m' where m': "fetch_from_centralcache m t (int i) = Some m'" "tc_ok R2 m' (C((t, i) := rev xs)) (insert (t, i) S) L"
      "keeps_live R m R2 m' L" "brk m' = brk m2" "spans m' = spans m2" "central m' = central m2" "\<forall>u. u \<noteq> t \<longrightarrow> caches m' u = caches m u"
    using fetch_from_centralcache_from [OF T i e(1,2) le C' f [folded one]] by blast
  have "spare m' j l = spare m2 j l" for j l using m'(5,6) by (simp add: spare_def)
  then show ?thesis using m'(1-4,7) b(2-4) ob by (intro exI [of _ m'] exI [of _ R2] exI [of _ ob]) (simp add: set_cache_def)
qed

subsection \<open>allocate and deallocate\<close>

text \<open>Taking the first object of a slot.\<close>

lemma pop_ok:
  assumes T: "tc_ok R m C S L" and p: "(t, i) \<in> S" and ne: "C (t, i) = ob # xs"
  shows "\<exists>l. freelist_pop (link m) (caches m t ! i) = Some (ob, l) \<and>
    tc_ok R (set_cache m t i l) (C((t, i) := xs)) S (insert ob L) \<and> tl_objlen l < tl_max_length l"
proof -
  have i: "i < CLASSES" and c: "cache_ok R m i (caches m t ! i) (C (t, i))" using tc_okD(3,4) [OF T p] by simp_all
  have len: "length (caches m t) = CLASSES" using tc_okD(2) [OF T] .
  let ?old = "caches m t ! i"
  have l0: "tl_objs ?old = ob" "ob \<noteq> 0" "free_list (link m) (link m ob) xs" "tl_objlen ?old = Suc (length xs)"
      "length xs < tl_max_length ?old" "tl_max_length ?old < 64"
    using c ne by (auto simp: cache_ok_def MAXFETCHSIZE_def)
  let ?l = "?old\<lparr>tl_objs := link m ob, tl_objlen := length xs\<rparr>" and ?rest = "cached C (S - {(t, i)})"
  have "Suc (length xs) < 64" using l0(5,6) by linarith
  then have "tl_objlen ?old < 2 ^ 64" "1 \<le> tl_objlen ?old" using l0(4) by simp_all
  then have "size_sub (tl_objlen ?old) 1 = length xs" using size_sub_le [of 1 "tl_objlen ?old"] l0(4) by linarith
  then have "freelist_pop (link m) ?old = Some (ob, ?l)" using l0(1,2) by (simp add: freelist_pop_def)
  moreover have "tc_ok R (set_cache m t i ?l) (C((t, i) := xs)) (insert (t, i) S) (insert ob L)"
  proof (rule tc_ok_step [OF T i, of _ _ t xs _ ?l])
    note sa = slot_apart [OF T p]
    have "?rest \<union> set xs \<union> insert ob L = cached C S \<union> L" using sa(1) ne by auto
    then show "heap_ok R (set_cache m t i ?l) (?rest \<union> set xs \<union> insert ob L)"
      using heap_ok_out_links [OF tc_okD(1) [OF T], of "link m"] by (simp add: set_cache_def)
    show "cache_ok R (set_cache m t i ?l) i ?l xs"
      using c ne l0 class_objs_cong [of "set_cache m t i ?l" m R i] by (auto simp: cache_ok_def set_cache_def)
    show "set xs \<inter> ?rest = {}" "insert ob L \<inter> ?rest = {}" using sa(2,3) ne by auto
    show "set xs \<inter> insert ob L = {}"
      using tc_okD(5) [OF T p] ne linked_distinct [of "\<lambda>a. Some (link m a)" "tl_objs ?old" "C (t, i)"] c by (auto simp: cache_ok_def)
    show "?rest \<inter> class_objs R m k \<subseteq> class_objs R (set_cache m t i ?l) k" for k
      using class_objs_cong [of "set_cache m t i ?l" m R k] by (simp add: set_cache_def)
  qed (simp_all add: set_cache_def)
  moreover have "tl_objlen ?l < tl_max_length ?l" using l0(5) by simp
  ultimately show ?thesis using slot_apart(4) [OF T p] by auto
qed

lemma keeps_live_set_cache: "keeps_live R m R (set_cache m t i l) L"
  using class_objs_cong [of "set_cache m t i l" m R] by (simp add: keeps_live_def' set_cache_def)

lemma allocate_ok:
  assumes T: "tc_ok R m C S L" and p: "(t, k) \<in> S" and sz: "get_index sz = int k" and room: "C (t, k) \<noteq> [] \<or> room m GROWTH"
  shows "\<exists>ob m' R' C'. allocate m t sz = Some (ob, m') \<and> tc_ok R' m' C' S (insert ob L) \<and> ob \<notin> L \<and>
    ob \<in> class_objs R' m' k \<and> keeps_live R m R' m' L \<and> brk m' \<le> brk m + GROWTH \<and>
    tl_objlen (caches m' t ! k) < tl_max_length (caches m' t ! k) \<and> (C (t, k) \<noteq> [] \<longrightarrow> C' = C((t, k) := tl (C (t, k))) \<and> (\<exists>l. m' = set_cache m t k l))"
proof -
  have k: "k < CLASSES" and c: "cache_ok R m k (caches m t ! k) (C (t, k))" using tc_okD(3,4) [OF T p] by simp_all
  have ll: "local_list m t (int k) = Some (k, caches m t ! k)" using local_list_class [OF k tc_okD(2) [OF T]] .
  have "\<exists>m1 R1 C1. (if tl_objs (caches m t ! k) \<noteq> 0 then Some m else fetch_from_centralcache m t (int k)) = Some m1 \<and>
      tc_ok R1 m1 C1 S L \<and> C1 (t, k) \<noteq> [] \<and> keeps_live R m R1 m1 L \<and> brk m1 \<le> brk m + GROWTH \<and>
      (C (t, k) \<noteq> [] \<longrightarrow> C1 = C \<and> m1 = m)"
  proof (cases "tl_objs (caches m t ! k) = 0")
    case False
    then have "C (t, k) \<noteq> []" using c by (auto simp: cache_ok_def)
    then show ?thesis using False T keeps_imp_live [OF keeps_refl] by (intro exI [of _ m] exI [of _ R] exI [of _ C]) simp
  next
    case True
    then have C0: "C (t, k) = []" using c by (auto simp: cache_ok_def)
    have z: "tl_objlen (caches m t ! k) = 0" "1 \<le> tl_max_length (caches m t ! k)" "tl_max_length (caches m t ! k) < 2 * MAXFETCHSIZE"
      using c C0 by (auto simp: cache_ok_def)
    have kS: "insert (t, k) S = S" using p by auto
    have sup: "stocked m GROWTH 0" using room C0 by (simp add: stocked_def)
    obtain m1 R1 ys where "fetch_from_centralcache m t (int k) = Some m1" "tc_ok R1 m1 (C((t, k) := ys)) S L"
        "ys \<noteq> []" "keeps_live R m R1 m1 L" "brk m1 \<le> brk m + GROWTH"
      using fetch_from_centralcache_ok [OF T k sup True z C0] unfolding kS by blast
    then show ?thesis using True C0 by (intro exI [of _ m1] exI [of _ R1] exI [of _ "C((t, k) := ys)"]) simp
  qed
  then obtain m1 R1 C1 where a: "(if tl_objs (caches m t ! k) \<noteq> 0 then Some m else fetch_from_centralcache m t (int k)) = Some m1"
      "tc_ok R1 m1 C1 S L" "C1 (t, k) \<noteq> []" "keeps_live R m R1 m1 L" "brk m1 \<le> brk m + GROWTH"
      "C (t, k) \<noteq> [] \<longrightarrow> C1 = C \<and> m1 = m"
    by blast
  obtain ob xs where ob: "C1 (t, k) = ob # xs" using a(3) by (cases "C1 (t, k)") auto
  obtain l where l: "freelist_pop (link m1) (caches m1 t ! k) = Some (ob, l)"
      "tc_ok R1 (set_cache m1 t k l) (C1((t, k) := xs)) S (insert ob L)" "tl_objlen l < tl_max_length l"
    using pop_ok [OF a(2) p ob] by blast
  have "rd (caches m1 t) k = Some (caches m1 t ! k)" using tc_okD(2) [OF a(2), of t] k by (simp add: rd_def)
  then have "allocate m t sz = Some (ob, set_cache m1 t k l)"
    unfolding allocate_def sz Let_def ll Option.bind.simps split a(1) using l(1) by simp
  moreover have "ob \<notin> L" using tc_okD(5) [OF a(2) p] ob by auto
  moreover have "ob \<in> class_objs R1 (set_cache m1 t k l) k"
  proof -
    have "ob \<in> class_objs R1 m1 k" using tc_okD(4) [OF a(2) p] ob by (simp add: cache_ok_def)
    then show ?thesis using class_objs_cong [of "set_cache m1 t k l" m1 R1 k] by (simp add: set_cache_def)
  qed
  moreover have "keeps_live R m R1 (set_cache m1 t k l) L" by (rule keeps_live_trans [OF a(4) keeps_live_set_cache])
  moreover have "brk (set_cache m1 t k l) \<le> brk m + GROWTH" using a(5) by (simp add: set_cache_def)
  moreover have "caches (set_cache m1 t k l) t ! k = l" using tc_okD(2) [OF a(2), of t] k by (simp add: set_cache_def)
  moreover have "C (t, k) \<noteq> [] \<longrightarrow> C1((t, k) := xs) = C((t, k) := tl (C (t, k))) \<and> (\<exists>l'. set_cache m1 t k l = set_cache m t k l')"
    using a(6) ob by auto
  ultimately show ?thesis using l(2,3)
    by (intro exI [of _ ob] exI [of _ "set_cache m1 t k l"] exI [of _ R1] exI [of _ "C1((t, k) := xs)"]) simp
qed

text \<open>The object is linked in front of the list of its slot.\<close>

lemma dealloc_link:
  assumes T: "tc_ok R m C S L" and p: "(t, k) \<in> S" and ob: "ob \<in> L" "ob \<noteq> 0"
    and m1: "m1 = m\<lparr>link := (link m)(ob := tl_objs (caches m t ! k)), caches := cc\<rparr>"
  shows "heap_ok R m1 (cached C S \<union> L)" and "class_objs R m1 j = class_objs R m j"
    and "free_list (link m1) ob (ob # C (t, k))"
    and "cached C S \<union> L = cached C (S - {(t, k)}) \<union> set (ob # C (t, k)) \<union> (L - {ob})"
    and "set (ob # C (t, k)) \<inter> cached C (S - {(t, k)}) = {}" and "set (ob # C (t, k)) \<inter> (L - {ob}) = {}"
    and "(L - {ob}) \<inter> cached C (S - {(t, k)}) = {}"
    and "\<And>a. a \<in> cached C (S - {(t, k)}) \<union> (L - {ob}) \<Longrightarrow> link m1 a = link m a"
proof -
  have c: "cache_ok R m k (caches m t ! k) (C (t, k))" using tc_okD(4) [OF T p] .
  note sa = slot_apart [OF T p]
  have dx: "ob \<notin> set (C (t, k))" "ob \<notin> cached C (S - {(t, k)})" using tc_okD(5) [OF T p] sa(3) ob(1) by auto
  show "heap_ok R m1 (cached C S \<union> L)" unfolding m1 using ob(1) by (intro heap_ok_out_links [OF tc_okD(1) [OF T]]) auto
  show "class_objs R m1 j = class_objs R m j" by (rule class_objs_cong) (simp add: m1)
  show "free_list (link m1) ob (ob # C (t, k))"
    using free_list_push [of "link m" "tl_objs (caches m t ! k)" "C (t, k)" ob] ob(2) dx(1) c by (simp add: cache_ok_def m1)
  show "cached C S \<union> L = cached C (S - {(t, k)}) \<union> set (ob # C (t, k)) \<union> (L - {ob})" using sa(1) ob(1) by auto
  show "set (ob # C (t, k)) \<inter> cached C (S - {(t, k)}) = {}" "set (ob # C (t, k)) \<inter> (L - {ob}) = {}"
    "(L - {ob}) \<inter> cached C (S - {(t, k)}) = {}"
    using sa(2,3) dx tc_okD(5) [OF T p] by auto
  show "link m1 a = link m a" if "a \<in> cached C (S - {(t, k)}) \<union> (L - {ob})" for a using that dx by (auto simp: m1)
qed

lemma deallocate_push:
  assumes T: "tc_ok R m C S L" and p: "(t, k) \<in> S" and ob: "ob \<in> L" "ob \<in> class_objs R m k" "ob \<noteq> 0"
    and len: "tl_objlen (caches m t ! k) \<noteq> tl_max_length (caches m t ! k)"
  defines "m' \<equiv> set_cache (m\<lparr>link := (link m)(ob := tl_objs (caches m t ! k))\<rparr>) t k
      ((caches m t ! k)\<lparr>tl_objlen := tl_objlen (caches m t ! k) + 1, tl_objs := ob\<rparr>)"
  shows "deallocate m t ob (class_size k) = Some m'" and "tc_ok R m' (C((t, k) := ob # C (t, k))) S (L - {ob})"
    and "keeps_live R m R m' (L - {ob})"
proof -
  have k: "k < CLASSES" and c: "cache_ok R m k (caches m t ! k) (C (t, k))" using tc_okD(3,4) [OF T p] by simp_all
  let ?l = "caches m t ! k" and ?xs = "C (t, k)" and ?rest = "cached C (S - {(t, k)})"
  let ?l1 = "?l\<lparr>tl_objlen := tl_objlen ?l + 1, tl_objs := ob\<rparr>"
  have m': "m' = m\<lparr>link := (link m)(ob := tl_objs ?l), caches := (caches m)(t := (caches m t)[k := ?l1])\<rparr>"
    by (simp add: set_cache_def m'_def)
  note d = dealloc_link [OF T p ob(1,3) m']
  have "local_list m t (int k) = Some (k, ?l)" using local_list_class [OF k tc_okD(2) [OF T]] .
  then show "deallocate m t ob (class_size k) = Some m'"
    using len class_index [OF k] ob(3) by (simp add: deallocate_def Let_def m'_def)
  have "tc_ok R m' (C((t, k) := ob # ?xs)) (insert (t, k) S) (L - {ob})"
  proof (rule tc_ok_step [OF T k, of _ _ t "ob # ?xs" _ ?l1])
    show "heap_ok R m' (?rest \<union> set (ob # ?xs) \<union> (L - {ob}))" using d(1) unfolding d(4) .
    show "caches m' = (caches m)(t := (caches m t)[k := ?l1])" by (simp add: m')
    show "cache_ok R m' k ?l1 (ob # ?xs)" using c len ob(2) d(2,3) by (simp add: cache_ok_def)
    show "?rest \<inter> class_objs R m j \<subseteq> class_objs R m' j" for j using d(2) by simp
  qed (use d(5-8) in auto)
  then show "tc_ok R m' (C((t, k) := ob # C (t, k))) S (L - {ob})" using p by (simp add: insert_absorb)
  show "keeps_live R m R m' (L - {ob})" using d(2,8) by (simp add: keeps_live_def' m')
qed

lemma deallocate_ok:
  assumes T: "tc_ok R m C S L" and p: "(t, k) \<in> S" and ob: "ob \<in> L" "ob \<in> class_objs R m k" "ob \<noteq> 0"
  shows "\<exists>m' R' C'. deallocate m t ob (class_size k) = Some m' \<and> tc_ok R' m' C' S (L - {ob}) \<and>
    keeps_live R m R' m' (L - {ob}) \<and> brk m' = brk m"
proof -
  have k: "k < CLASSES" and c: "cache_ok R m k (caches m t ! k) (C (t, k))" using tc_okD(3,4) [OF T p] by simp_all
  have ll: "local_list m t (int k) = Some (k, caches m t ! k)" using local_list_class [OF k tc_okD(2) [OF T]] .
  let ?l = "caches m t ! k" and ?xs = "C (t, k)" and ?rest = "cached C (S - {(t, k)})"
  have kS: "insert (t, k) S = S" using p by auto
  show ?thesis
  proof (cases "tl_objlen ?l = tl_max_length ?l")
    case False
    note d = deallocate_push [OF T p ob False]
    have "brk (set_cache (m\<lparr>link := nx\<rparr>) t k l) = brk m" for nx l by (simp add: set_cache_def)
    then show ?thesis using d by blast
  next
    case True
    let ?l1 = "?l\<lparr>tl_objs := 0, tl_objlen := 0\<rparr>"
    let ?cc = "(caches m)(t := (caches m t)[k := ?l1])"
    let ?m1 = "m\<lparr>link := (link m)(ob := tl_objs ?l), caches := ?cc\<rparr>"
    have m1: "?m1 = ?m1" ..
    note d = dealloc_link [OF T p ob(1,3) m1]
    have "set (ob # ?xs) \<subseteq> class_objs R ?m1 k" using c ob(2) d(2) by (simp add: cache_ok_def)
    moreover have "last (ob # ?xs) \<in> set (ob # ?xs)" by (rule last_in_set) simp
    ultimately have "last (ob # ?xs) \<in> class_objs R ?m1 k" by blast
    moreover have "set (ob # ?xs) \<subseteq> cached C S \<union> L" unfolding d(4) by blast
    ultimately obtain m' R' where r: "return_objs_to_centralcache ?m1 ob (class_size k) = Some m'"
        "heap_ok R' m' (cached C S \<union> L - set (ob # ?xs))" "keeps R ?m1 R' m' (cached C S \<union> L - set (ob # ?xs))" "brk m' = brk ?m1"
      using return_objs_ok [OF d(1) k d(3)] by auto
    have left: "cached C S \<union> L - set (ob # ?xs) = ?rest \<union> (L - {ob})" using d(4-6) by blast
    note r' = r(2,3) [unfolded left]
    have run: "deallocate m t ob (class_size k) = Some m'"
      using True ll class_index [OF k] ob(3) r(1) by (simp add: deallocate_def Let_def set_cache_def)
    have lk: "link m' a = link m a" if "a \<in> ?rest \<union> (L - {ob})" for a using r'(2) that d(8) [OF that] by (simp add: keeps_def)
    have cls: "X \<inter> class_objs R m j \<subseteq> class_objs R' m' j" if "X \<subseteq> ?rest \<union> (L - {ob})" for X j
      using cached_keep [OF r'(2) that, of j] d(2) by simp
    have "tc_ok R' m' (C((t, k) := [])) (insert (t, k) S) (L - {ob})"
    proof (rule tc_ok_step [OF T k, of _ _ t "[]" _ ?l1])
      show "heap_ok R' m' (?rest \<union> set [] \<union> (L - {ob}))" using r'(1) by simp
      show "caches m' = ?cc" using r'(2) by (simp add: keeps_def)
      show "cache_ok R' m' k ?l1 []" using c by (simp add: cache_ok_def)
      show "?rest \<inter> class_objs R m j \<subseteq> class_objs R' m' j" for j by (rule cls) blast
    qed (use d(7) lk in auto)
    moreover have "keeps_live R m R' m' (L - {ob})" using r'(2) lk cls by (simp add: keeps_live_def' keeps_def)
    ultimately show ?thesis using run kS r(4) by (intro exI [of _ m'] exI [of _ R'] exI [of _ "C((t, k) := [])"]) simp
  qed
qed

subsection \<open>tc\_malloc and tc\_free\<close>

lemma tc_malloc_ok:
  assumes T: "tc_ok R m C S L" and p: "(t, class_of sz) \<in> S" and sz: "0 < sz" "sz \<le> THRESHALLOC"
    and room: "C (t, class_of sz) \<noteq> [] \<or> room m GROWTH"
  shows "\<exists>ob m' R' C'. tc_malloc m t sz = Some (ob, m') \<and> tc_ok R' m' C' S (insert ob L) \<and> ob \<notin> L \<and>
    ob \<in> class_objs R' m' (class_of sz) \<and> keeps_live R m R' m' L \<and> brk m' \<le> brk m + GROWTH \<and>
    tl_objlen (caches m' t ! class_of sz) < tl_max_length (caches m' t ! class_of sz) \<and>
    (C (t, class_of sz) \<noteq> [] \<longrightarrow> C' = C((t, class_of sz) := tl (C (t, class_of sz))) \<and> (\<exists>l. m' = set_cache m t (class_of sz) l))"
  using allocate_ok [where C = C, OF T p get_index_class_of [OF sz] room] sz(2) by (simp add: tc_malloc_def)

lemma class_obj_nonzero:
  assumes P: "pages_ok R m" and q: "q \<in> class_objs R m j"
  shows "q \<noteq> 0"
proof -
  obtain a c u where a: "R a = Class j c" "spans m a = Some u" "q \<in> objs_of j u" using q by (auto simp: class_objs_def)
  have "sp_start u = ini_brk_addr m + sp_pageId u * 4096" using role_span(2) [OF P _ a(2)] a(1) by simp
  then show ?thesis using objs_of_bytes(1) [OF a(3)] pages_okD(1) [OF P] by (auto simp: sys_ok_def)
qed

lemma tc_ok_nonzero: "tc_ok R m C S L \<Longrightarrow> q \<in> class_objs R m j \<Longrightarrow> q \<noteq> 0"
  using class_obj_nonzero [of R m q j] tc_okD(1) [of R m C S L] by (simp add: heap_ok_def)

lemma tc_free_small:
  assumes T: "tc_ok R m C S L" and ob: "ob \<in> class_objs R m k"
  shows "tc_free m t ob = deallocate m t ob (class_size k)"
proof -
  have P: "pages_ok R m" and Ce: "central_ok R m (cached C S \<union> L)" using tc_okD(1) [OF T] by (simp_all add: heap_ok_def)
  obtain x b s where x: "R x = Class k b" "spans m x = Some s" "ob \<in> objs_of k s" using ob by (auto simp: class_objs_def)
  have k: "k < CLASSES" and "class_span (link m) k (cached C S \<union> L) s" using central_ok_span [OF Ce x(1)] x(2) by auto
  then have "sp_objs_size s = class_size k" "0 < class_size k" "class_size k \<le> THRESHALLOC"
    using class_size_bounds [OF k] by (simp_all add: class_span_def)
  moreover have "map_addr_to_span m ob = Some x" using objs_of_bytes(3) [OF x(3)] x by (intro map_addr_to_span_ok [OF P]) auto
  ultimately show ?thesis using x(2) by (simp add: tc_free_def)
qed

lemma tc_free_ok:
  assumes T: "tc_ok R m C S L" and p: "\<And>k. k < CLASSES \<Longrightarrow> (t, k) \<in> S" and ob: "ob \<in> L"
  shows "\<exists>m' R' C'. tc_free m t ob = Some m' \<and> tc_ok R' m' C' S (L - {ob}) \<and>
    keeps_live R m R' m' (L - {ob}) \<and> brk m' = brk m"
proof -
  have H: "heap_ok R m (cached C S \<union> L)" using tc_okD(1) [OF T] .
  obtain x k b s where x: "R x = Class k b" "spans m x = Some s" "ob \<in> objs_of k s" using out_object [OF H, of ob] ob by blast
  have k: "k < CLASSES" using H central_ok_span [of R m "cached C S \<union> L" x k b] x(1) by (auto simp: heap_ok_def)
  have ob': "ob \<in> class_objs R m k" using x by (auto simp: class_objs_def)
  show ?thesis using deallocate_ok [OF T p [OF k] ob ob' tc_ok_nonzero [OF T ob']] tc_free_small [OF T ob'] by simp
qed

text \<open>A program may write to a block in use.\<close>

lemma tc_ok_write:
  assumes T: "tc_ok R m C S L" and ob: "ob \<in> L"
  shows "tc_ok R (m\<lparr>link := (link m)(ob := v)\<rparr>) C S L"
  unfolding tc_ok_def
proof (intro conjI allI ballI)
  show "heap_ok R (m\<lparr>link := (link m)(ob := v)\<rparr>) (cached C S \<union> L)"
  proof -
    have "((link m)(ob := v)) a = link m a" if "a \<notin> cached C S \<union> L" for a using ob that by auto
    from heap_ok_out_links [OF tc_okD(1) [OF T], of "(link m)(ob := v)" "caches m", OF this] show ?thesis by simp
  qed
  show "case p of (u, j) \<Rightarrow> j < CLASSES \<and> cache_ok R (m\<lparr>link := (link m)(ob := v)\<rparr>) j (caches (m\<lparr>link := (link m)(ob := v)\<rparr>) u ! j) (C (u, j))"
    if p: "p \<in> S" for p
  proof (cases p)
    case (Pair u j)
    have c: "j < CLASSES" "cache_ok R m j (caches m u ! j) (C (u, j))" using tc_okD(3,4) [OF T] p Pair by simp_all
    have "ob \<notin> set (C (u, j))" using tc_okD(5) [OF T p] ob Pair by auto
    then have "free_list ((link m)(ob := v)) q (C (u, j)) = free_list (link m) q (C (u, j))" for q
      by (intro free_list_cong) auto
    then show ?thesis using c Pair class_objs_cong [of "m\<lparr>link := (link m)(ob := v)\<rparr>" m R j] by (simp add: cache_ok_def)
  qed
qed (use tc_okD(2,5,6) [OF T] in auto)

text \<open>A small block from a list that is not empty.\<close>

lemma tc_malloc_cached:
  assumes T: "tc_ok R m C S L" and p: "(t, class_of sz) \<in> S" and sz: "0 < sz" "sz \<le> THRESHALLOC" and c: "C (t, class_of sz) \<noteq> []"
  shows "\<exists>ob l R'. tc_malloc m t sz = Some (ob, set_cache m t (class_of sz) l) \<and>
    tc_ok R' (set_cache m t (class_of sz) l) (C((t, class_of sz) := tl (C (t, class_of sz)))) S (insert ob L) \<and> ob \<notin> L \<and> ob \<noteq> 0 \<and>
    ob \<in> class_objs R' (set_cache m t (class_of sz) l) (class_of sz) \<and> keeps_live R m R' (set_cache m t (class_of sz) l) L"
proof -
  obtain ob m' R' C' where n: "tc_malloc m t sz = Some (ob, m')" "tc_ok R' m' C' S (insert ob L)" "ob \<notin> L"
      "ob \<in> class_objs R' m' (class_of sz)" "keeps_live R m R' m' L"
      "C (t, class_of sz) \<noteq> [] \<longrightarrow> C' = C((t, class_of sz) := tl (C (t, class_of sz))) \<and> (\<exists>l. m' = set_cache m t (class_of sz) l)"
    using tc_malloc_ok [OF T p sz disjI1 [OF c]] by blast
  obtain l where "m' = set_cache m t (class_of sz) l" "C' = C((t, class_of sz) := tl (C (t, class_of sz)))" using n(6) c by blast
  then show ?thesis using n(1-5) tc_ok_nonzero [OF n(2,4)] by blast
qed

text \<open>Different objects, of whatever classes, have no byte in common.\<close>

lemma class_objs_apart:
  assumes P: "pages_ok R m" and ob: "ob \<in> class_objs R m j" "ob' \<in> class_objs R m k" "ob \<noteq> ob'"
  shows "block ob (class_size j) \<inter> block ob' (class_size k) = {}"
proof -
  obtain a b s where a: "R a = Class j b" "spans m a = Some s" "ob \<in> objs_of j s" using ob(1) by (auto simp: class_objs_def)
  obtain a' b' s' where a': "R a' = Class k b'" "spans m a' = Some s'" "ob' \<in> objs_of k s'" using ob(2) by (auto simp: class_objs_def)
  show ?thesis
  proof (cases "a = a'")
    case True
    then have "s' = s" "k = j" using a a' by simp_all
    then have "ob + class_size j \<le> ob' \<or> ob' + class_size j \<le> ob"
      using objs_of_apart [of ob j s ob'] objs_of_apart [of ob' j s ob] a(3) a'(3) ob(3) by (cases "ob < ob'") auto
    then show ?thesis using \<open>k = j\<close> by (auto simp: block_def)
  next
    case False
    have "span_bytes s \<inter> span_bytes s' = {}" using used_spans_disjoint [OF P False _ _ a(2) a'(2)] a(1) a'(1) by simp
    moreover have "block ob (class_size j) \<subseteq> span_bytes s" "block ob' (class_size k) \<subseteq> span_bytes s'"
      using objs_of_bytes(1,2) [OF a(3)] objs_of_bytes(1,2) [OF a'(3)] by (auto simp: block_def span_bytes_def)
    ultimately show ?thesis by blast
  qed
qed

subsection \<open>The allocator as a block store\<close>

text \<open>
  What the allocator knows: the roles of the span records, the caches, the initialised slots. The threads \<open>T\<close> have initialised
  all their slots; a request that is served has a small size, at a time when the system has memory.
\<close>

definition store_ok :: "nat set \<Rightarrow> (addr \<Rightarrow> role) \<times> (slot \<Rightarrow> addr list) \<times> slot set \<Rightarrow> tcmem \<Rightarrow> addr set \<Rightarrow> bool" where
  "store_ok T = (\<lambda>(R, C, S) m L. tc_ok R m C S L \<and> T \<times> {..<CLASSES} \<subseteq> S)"

definition store_owns :: "(addr \<Rightarrow> role) \<times> (slot \<Rightarrow> addr list) \<times> slot set \<Rightarrow> tcmem \<Rightarrow> addr \<Rightarrow> nat \<Rightarrow> bool" where
  "store_owns = (\<lambda>(R, C, S) m p n. \<exists>k. p \<in> class_objs R m k \<and> n \<le> class_size k)"

definition small_request :: "tcmem \<Rightarrow> nat \<Rightarrow> bool" where
  "small_request m n \<longleftrightarrow> 0 < n \<and> n \<le> THRESHALLOC \<and> room m GROWTH"

lemma keeps_live_owns: "keeps_live R m R' m' L \<Longrightarrow> q \<in> L \<Longrightarrow> store_owns (R, x) m q k \<Longrightarrow> store_owns (R', y) m' q k"
  unfolding keeps_live_def' store_owns_def by (cases x; cases y) fastforce

interpretation tc: block_store "store_ok T" store_owns "\<lambda>t m n. tc_malloc m t n" "\<lambda>t m p. tc_free m t p" T small_request for T
proof
  fix g m L t n
  assume g: "store_ok T g m L" "t \<in> T" and n: "small_request m n"
  obtain R C S where I: "g = (R, C, S)" "tc_ok R m C S L" "T \<times> {..<CLASSES} \<subseteq> S" using g(1) by (cases g) (auto simp: store_ok_def)
  have sz: "0 < n" "n \<le> THRESHALLOC" "room m GROWTH" using n by (simp_all add: small_request_def)
  have cl: "class_of n < CLASSES" "n \<le> class_size (class_of n)" using class_of_fits [OF sz(1,2)] by simp_all
  then have "(t, class_of n) \<in> S" using I(3) g(2) by auto
  then obtain p m' R' C' where r: "tc_malloc m t n = Some (p, m')" "tc_ok R' m' C' S (insert p L)" "p \<notin> L"
      "p \<in> class_objs R' m' (class_of n)" "keeps_live R m R' m' L"
    using tc_malloc_ok [OF I(2) _ sz(1,2) disjI2 [OF sz(3)]] by blast
  have "store_ok T (R', C', S) m' (insert p L)" using r(2) I(3) by (simp add: store_ok_def)
  moreover have "store_owns (R', C', S) m' p n" using r(4) cl(2) by (auto simp: store_owns_def)
  moreover have "\<forall>q k. q \<in> L \<and> store_owns g m q k \<longrightarrow> store_owns (R', C', S) m' q k"
    using keeps_live_owns [OF r(5)] unfolding I(1) by blast
  ultimately show "\<exists>p m' g'. tc_malloc m t n = Some (p, m') \<and> p \<notin> L \<and> store_ok T g' m' (insert p L) \<and> store_owns g' m' p n \<and>
      (\<forall>q k. q \<in> L \<and> store_owns g m q k \<longrightarrow> store_owns g' m' q k)"
    using r(1,3) by (intro exI [of _ p] exI [of _ m'] exI [of _ "(R', C', S)"]) simp
next
  fix g m L t p
  assume g: "store_ok T g m L" "t \<in> T" "p \<in> L"
  obtain R C S where I: "g = (R, C, S)" "tc_ok R m C S L" "T \<times> {..<CLASSES} \<subseteq> S" using g(1) by (cases g) (auto simp: store_ok_def)
  have "(t, k) \<in> S" if "k < CLASSES" for k using I(3) g(2) that by auto
  then obtain m' R' C' where r: "tc_free m t p = Some m'" "tc_ok R' m' C' S (L - {p})" "keeps_live R m R' m' (L - {p})"
    using tc_free_ok [OF I(2) _ g(3)] by blast
  have "store_ok T (R', C', S) m' (L - {p})" using r(2) I(3) by (simp add: store_ok_def)
  moreover have "\<forall>q k. q \<in> L - {p} \<and> store_owns g m q k \<longrightarrow> store_owns (R', C', S) m' q k"
    using keeps_live_owns [OF r(3)] unfolding I(1) by blast
  ultimately show "\<exists>m' g'. tc_free m t p = Some m' \<and> store_ok T g' m' (L - {p}) \<and>
      (\<forall>q k. q \<in> L - {p} \<and> store_owns g m q k \<longrightarrow> store_owns g' m' q k)"
    using r(1) by (intro exI [of _ m'] exI [of _ "(R', C', S)"]) simp
next
  fix g m L p n q k
  assume a: "store_ok T g m L" "store_owns g m p n" "store_owns g m q k" "p \<noteq> q"
  obtain R C S where I: "g = (R, C, S)" "tc_ok R m C S L" using a(1) by (cases g) (auto simp: store_ok_def)
  have P: "pages_ok R m" using tc_okD(1) [OF I(2)] by (simp add: heap_ok_def)
  obtain i j where "p \<in> class_objs R m i" "n \<le> class_size i" "q \<in> class_objs R m j" "k \<le> class_size j"
    using a(2,3) by (auto simp: store_owns_def I(1))
  then show "block p n \<inter> block q k = {}" using class_objs_apart [OF P _ _ a(4)] block_mono by blast
qed

subsection \<open>Runs of the allocator\<close>

text \<open>
  Calls of the threads \<open>T\<close> in any order, each while the system has memory. \<open>B\<close> is the set of blocks in use, as the
  program sees them: an address and the size that was asked for.
\<close>

inductive alloc_step :: "nat set \<Rightarrow> tcmem \<times> (addr \<times> nat) set \<Rightarrow> tcmem \<times> (addr \<times> nat) set \<Rightarrow> bool" for T where
  step_malloc: "t \<in> T \<Longrightarrow> 0 < sz \<Longrightarrow> sz \<le> THRESHALLOC \<Longrightarrow> room m GROWTH \<Longrightarrow> tc_malloc m t sz = Some (p, m') \<Longrightarrow>
    alloc_step T (m, B) (m', insert (p, sz) B)"
| step_free: "t \<in> T \<Longrightarrow> (p, sz) \<in> B \<Longrightarrow> tc_free m t p = Some m' \<Longrightarrow> alloc_step T (m, B) (m', B - {(p, sz)})"

definition blocks_ok :: "nat set \<Rightarrow> tcmem \<times> (addr \<times> nat) set \<Rightarrow> bool" where
  "blocks_ok T = (\<lambda>(m, B). \<exists>R C S. tc_ok R m C S (fst ` B) \<and> T \<times> {..<CLASSES} \<subseteq> S \<and> inj_on fst B \<and>
     (\<forall>(p, sz)\<in>B. \<exists>k. p \<in> class_objs R m k \<and> sz \<le> class_size k))"

lemma blocks_ok_good: "blocks_ok T (m, B) \<longleftrightarrow> (\<exists>g. tc.good T g m B)"
  unfolding tc.good_def by (simp add: blocks_ok_def store_ok_def store_owns_def split_beta split_paired_Ex conj_ac)

lemma blocks_ok_step:
  assumes "alloc_step T x y" and "blocks_ok T x"
  shows "blocks_ok T y"
  using assms
proof (induction rule: alloc_step.induct)
  case (step_malloc t sz m p m' B)
  then obtain g where "tc.good T g m B" "small_request m sz" by (auto simp: blocks_ok_good small_request_def)
  then show ?case using tc.good_get [of T g m B t sz] step_malloc.hyps by (auto simp: blocks_ok_good)
next
  case (step_free t p sz B m m')
  then obtain g where "tc.good T g m B" by (auto simp: blocks_ok_good)
  then show ?case using tc.good_put [of T g m B t "(p, sz)"] step_free.hyps by (auto simp: blocks_ok_good)
qed

lemma blocks_ok_run: "(alloc_step T)\<^sup>*\<^sup>* x y \<Longrightarrow> blocks_ok T x \<Longrightarrow> blocks_ok T y"
  by (induction rule: rtranclp_induct) (auto intro: blocks_ok_step)

subsection \<open>A fresh heap\<close>

text \<open>
  The empty heap with the lists of thread 0 right after \<open>init_threadlist\<close>, before anything is fetched.
\<close>

definition ready_mem :: tcmem where
  "ready_mem = (start_mem 4096 (2 ^ 40))\<lparr>caches := (\<lambda>_. replicate CLASSES \<lparr>tl_objs = 0, tl_objlen = 0, tl_max_length = 1\<rparr>)\<rparr>"

lemma start_heap_ok:
  assumes "4096 dvd b" and "0 < b" and "b \<le> limit" and "limit < 2 ^ 63"
  shows "heap_ok (\<lambda>_. Unused) (start_mem b limit) {}"
  using start_mem_ok [OF assms] by (auto simp: heap_ok_def central_ok_def start_mem_def ring_ok_def ring_def class_objs_def)

lemma ready_mem_ok: "tc_ok (\<lambda>_. Unused) ready_mem (\<lambda>_. []) ({0} \<times> {..<CLASSES}) {}" "room ready_mem GROWTH"
proof -
  have "heap_ok (\<lambda>_. Unused) (start_mem 4096 (2 ^ 40)) {}" by (rule start_heap_ok) simp_all
  from heap_ok_out_links [OF this, of "link (start_mem 4096 (2 ^ 40))" "caches ready_mem"]
  have "heap_ok (\<lambda>_. Unused) ready_mem {}" by (simp add: ready_mem_def)
  then show "tc_ok (\<lambda>_. Unused) ready_mem (\<lambda>_. []) ({0} \<times> {..<CLASSES}) {}"
    by (auto simp: tc_ok_def cached_def ready_mem_def cache_ok_def MAXFETCHSIZE_def)
  show "room ready_mem GROWTH"
    by (simp add: room_def ready_mem_def start_mem_def GROWTH_def SYSFETCHSIZE_def pool_numbers)
qed

lemma ready_blocks_ok: "blocks_ok {0} (ready_mem, {})"
  using ready_mem_ok(1) by (auto simp: blocks_ok_def)

text \<open>What \<open>tc_free\<close> leaves in the block when the list of the class is not full.\<close>

lemma tc_free_pushes:
  assumes T: "tc_ok R m C S L" and p: "(t, k) \<in> S" and ob: "ob \<in> L" "ob \<in> class_objs R m k"
    and len: "tl_objlen (caches m t ! k) \<noteq> tl_max_length (caches m t ! k)"
  shows "\<exists>m'. tc_free m t ob = Some m' \<and> link m' ob = tl_objs (caches m t ! k) \<and> link m' ob \<notin> L \<and>
    (link m' ob = 0 \<longrightarrow> tc_free m' t (link m' ob) = None)"
proof -
  have P: "pages_ok R m" and Ce: "central_ok R m (cached C S \<union> L)" using tc_okD(1) [OF T] by (simp_all add: heap_ok_def)
  have ini: "0 < ini_brk_addr m" "ini_brk_addr m < 2 ^ 63" "4096 dvd ini_brk_addr m" using pages_okD(1) [OF P] by (simp_all add: sys_ok_def)
  let ?old = "caches m t ! k"
  let ?m' = "set_cache (m\<lparr>link := (link m)(ob := tl_objs ?old)\<rparr>) t k (?old\<lparr>tl_objlen := tl_objlen ?old + 1, tl_objs := ob\<rparr>)"
  have "tc_free m t ob = Some ?m'"
    using tc_free_small [OF T ob(2)] deallocate_push(1) [OF T p ob tc_ok_nonzero [OF T ob(2)] len] by simp
  moreover have "link ?m' ob = tl_objs ?old" by (simp add: set_cache_def)
  moreover have "tl_objs ?old \<notin> L"
  proof (cases "tl_objs ?old = 0")
    case True
    have "L \<subseteq> (\<Union>j. class_objs R m j)" using central_okD(6) [OF Ce] by blast
    then show ?thesis using True tc_ok_nonzero [OF T] by blast
  next
    case False
    then have "tl_objs ?old \<in> set (C (t, k))" using tc_okD(4) [OF T p] by (cases "C (t, k)") (auto simp: cache_ok_def)
    then show ?thesis using tc_okD(5) [OF T p] by blast
  qed
  moreover have "tc_free ?m' t 0 = None"
  proof -
    obtain q where q: "ini_brk_addr m = 4096 * q" using ini(3) by blast
    then have "0 < q" "q < 2 ^ 63" using ini(1,2) by simp_all
    then have "PAGEMAPSIZE \<le> size_sub 0 q" by (subst size_sub_wrap) (simp_all add: PAGEMAPSIZE_def)
    then have "map_addr_to_span ?m' 0 = None" using q by (simp add: map_addr_to_span_def addr_to_index_def set_cache_def)
    then show ?thesis by (simp add: tc_free_def)
  qed
  ultimately show ?thesis by metis
qed

subsection \<open>Properties\<close>

text \<open>C6. \<open>tc_malloc\<close> up to 32 KiB, while the system has memory: it returns a block of at least the size asked for that has no byte in
  common with any object in use or any span handed out whole; the objects in use keep their class and their contents, and
  the invariant of the allocator is kept.\<close>

theorem tc_malloc_no_overlap:
  assumes T: "tc_ok R m C S L" and p: "(t, class_of sz) \<in> S" and sz: "0 < sz" "sz \<le> THRESHALLOC" and room: "room m GROWTH"
  shows "\<exists>ob m' R' C'. tc_malloc m t sz = Some (ob, m') \<and> tc_ok R' m' C' S (insert ob L) \<and>
    (\<forall>ob'\<in>L. \<forall>k. ob' \<in> class_objs R m k \<longrightarrow>
      ob' \<in> class_objs R' m' k \<and> link m' ob' = link m ob' \<and> block ob sz \<inter> block ob' (class_size k) = {}) \<and>
    (\<forall>a s. R a = Held \<longrightarrow> spans m a = Some s \<longrightarrow> spans m' a = Some s \<and> block ob sz \<inter> span_bytes s = {})"
proof -
  obtain ob m' R' C' where n: "tc_malloc m t sz = Some (ob, m')" "tc_ok R' m' C' S (insert ob L)" "ob \<notin> L"
      "ob \<in> class_objs R' m' (class_of sz)" "keeps_live R m R' m' L"
    using tc_malloc_ok [OF T p sz disjI2 [OF room]] by blast
  have P: "pages_ok R' m'" using tc_okD(1) [OF n(2)] by (simp add: heap_ok_def)
  have fit: "sz \<le> class_size (class_of sz)" using class_of_fits [OF sz] by simp
  have "ob' \<in> class_objs R' m' k \<and> link m' ob' = link m ob' \<and> block ob sz \<inter> block ob' (class_size k) = {}"
    if o: "ob' \<in> L" "ob' \<in> class_objs R m k" for ob' k
  proof -
    have k: "ob' \<in> class_objs R' m' k" "link m' ob' = link m ob'" using n(5) o unfolding keeps_live_def' by blast+
    have "ob \<noteq> ob'" using o(1) n(3) by blast
    then show ?thesis using class_objs_apart [OF P n(4) k(1)] block_mono [OF fit, of ob] k by blast
  qed
  moreover have "spans m' a = Some s \<and> block ob sz \<inter> span_bytes s = {}" if a: "R a = Held" "spans m a = Some s" for a s
  proof -
    have a': "R' a = Held" "spans m' a = Some s" using n(5) a by (simp_all add: keeps_live_def')
    obtain x b u where x: "R' x = Class (class_of sz) b" "spans m' x = Some u" "ob \<in> objs_of (class_of sz) u"
      using n(4) by (auto simp: class_objs_def)
    have "x \<noteq> a" using x(1) a'(1) by auto
    then have "span_bytes u \<inter> span_bytes s = {}" using used_spans_disjoint [OF P _ _ _ x(2) a'(2)] x(1) a'(1) by simp
    moreover have "block ob sz \<subseteq> span_bytes u"
      using objs_of_bytes(1,2) [OF x(3)] fit by (auto simp: block_def span_bytes_def)
    ultimately show ?thesis using a'(2) by blast
  qed
  ultimately show ?thesis using n(1,2) by blast
qed

theorem tc_malloc_no_overlap_witness:
  "\<exists>ob m' R' C'. tc_malloc ready_mem 0 100 = Some (ob, m') \<and> tc_ok R' m' C' ({0} \<times> {..<CLASSES}) {ob}"
proof -
  have "class_of 100 < CLASSES" by (simp add: class_of_def CLASSES_def)
  then show ?thesis
    using tc_malloc_no_overlap [OF ready_mem_ok(1), of 0 100] ready_mem_ok(2) by (auto simp: THRESHALLOC_def)
qed

text \<open>C7. \<open>tc_free\<close> of an object in use, by any thread: it returns, the object is no longer in use and every other object and every
  span handed out whole is untouched; whether the object goes to the cache of the thread, or the cache is flushed to the spans, or a
  span goes back to the page heap, the invariant is kept.\<close>

theorem tc_free_keeps_heap:
  assumes T: "tc_ok R m C S L" and p: "\<And>k. k < CLASSES \<Longrightarrow> (t, k) \<in> S" and ob: "ob \<in> L"
  shows "\<exists>m' R' C'. tc_free m t ob = Some m' \<and> tc_ok R' m' C' S (L - {ob}) \<and> brk m' = brk m \<and>
    (\<forall>ob'\<in>L - {ob}. link m' ob' = link m ob' \<and> (\<forall>k. ob' \<in> class_objs R m k \<longrightarrow> ob' \<in> class_objs R' m' k)) \<and>
    (\<forall>a. R a = Held \<longrightarrow> R' a = Held \<and> spans m' a = spans m a)"
proof -
  obtain m' R' C' where f: "tc_free m t ob = Some m'" "tc_ok R' m' C' S (L - {ob})" "keeps_live R m R' m' (L - {ob})" "brk m' = brk m"
    using tc_free_ok [OF T p ob] by blast
  have "(L - {ob}) \<inter> class_objs R m k \<subseteq> class_objs R' m' k" for k using f(3) unfolding keeps_live_def' by blast
  then show ?thesis using f unfolding keeps_live_def' by blast
qed

theorem tc_free_keeps_heap_witness:
  "\<exists>ob m1 m2. tc_malloc ready_mem 0 100 = Some (ob, m1) \<and> tc_free m1 0 ob = Some m2 \<and> brk m2 = brk m1"
proof -
  have "class_of 100 < CLASSES" by (simp add: class_of_def CLASSES_def)
  then obtain ob m1 R C where "tc_malloc ready_mem 0 100 = Some (ob, m1)" "tc_ok R m1 C ({0} \<times> {..<CLASSES}) {ob}"
    using tc_malloc_ok [OF ready_mem_ok(1), of 0 100] ready_mem_ok(2) by (auto simp: THRESHALLOC_def)
  then show ?thesis using tc_free_keeps_heap [of R m1 C "{0} \<times> {..<CLASSES}" "{ob}" 0 ob] by auto
qed

text \<open>C4. However the threads interleave their calls of \<open>tc_malloc\<close> and \<open>tc_free\<close>, blocks in use never overlap; every
  further request up to 32 KiB is served, while the system has memory, with a block that overlaps none of them; and every block in
  use can be freed by any thread.\<close>

theorem alloc_runs_safe:
  assumes "blocks_ok T (m, {})" and "(alloc_step T)\<^sup>*\<^sup>* (m, {}) (m', B)"
  shows "(\<forall>x\<in>B. \<forall>y\<in>B. x \<noteq> y \<longrightarrow> block (fst x) (snd x) \<inter> block (fst y) (snd y) = {}) \<and>
    (\<forall>t\<in>T. \<forall>sz. 0 < sz \<and> sz \<le> THRESHALLOC \<and> room m' GROWTH \<longrightarrow>
      (\<exists>p m2. tc_malloc m' t sz = Some (p, m2) \<and> (\<forall>y\<in>B. block p sz \<inter> block (fst y) (snd y) = {}))) \<and>
    (\<forall>t\<in>T. \<forall>x\<in>B. tc_free m' t (fst x) \<noteq> None)"
proof -
  obtain g where g: "tc.good T g m' B" using blocks_ok_run [OF assms(2,1)] by (auto simp: blocks_ok_good)
  have "\<exists>p m2. tc_malloc m' t sz = Some (p, m2) \<and> (\<forall>y\<in>B. block p sz \<inter> block (fst y) (snd y) = {})"
    if "t \<in> T" "0 < sz \<and> sz \<le> THRESHALLOC \<and> room m' GROWTH" for t sz
    using tc.good_fresh [OF g that(1)] that(2) by (simp add: small_request_def)
  moreover have "tc_free m' t (fst x) \<noteq> None" if "t \<in> T" "x \<in> B" for t x
    using tc.good_put [OF g that] by auto
  ultimately show ?thesis using tc.good_apart [OF g] by blast
qed

theorem alloc_runs_safe_witness:
  "\<exists>p m1. tc_malloc ready_mem 0 100 = Some (p, m1) \<and> (alloc_step {0})\<^sup>*\<^sup>* (ready_mem, {}) (m1, {(p, 100)}) \<and>
    (\<forall>t\<in>{0}. tc_free m1 t p \<noteq> None)"
proof -
  have "class_of 100 < CLASSES" by (simp add: class_of_def CLASSES_def)
  then obtain p m1 where p: "tc_malloc ready_mem 0 100 = Some (p, m1)"
    using tc_malloc_ok [OF ready_mem_ok(1), of 0 100] ready_mem_ok(2) by (auto simp: THRESHALLOC_def)
  then have "alloc_step {0} (ready_mem, {}) (m1, {(p, 100)})"
    using ready_mem_ok(2) by (intro alloc_step.step_malloc) (simp_all add: THRESHALLOC_def)
  then have run: "(alloc_step {0})\<^sup>*\<^sup>* (ready_mem, {}) (m1, {(p, 100)})" by (rule r_into_rtranclp)
  have "\<forall>t\<in>{0}. tc_free m1 t p \<noteq> None" using alloc_runs_safe [OF ready_blocks_ok run] by simp
  then show ?thesis using p run by (intro exI conjI)
qed

text \<open>C25. Above 32 KiB the size is rounded down to whole pages: the span behind a block whose size is not a multiple of the page
  size is too short for it. The size 0 selects a list before the first one.\<close>

theorem tc_malloc_large_short:
  assumes "pages_ok R m" and "room m GROWTH" and "THRESHALLOC < sz" and "sz < PAGEHEAPSIZE * 4096" and "\<not> 4096 dvd sz"
  shows "(\<exists>p m' R' x s. tc_malloc m t sz = Some (p, m') \<and> pages_ok R' m' \<and> R' x = Held \<and> spans m' x = Some s \<and>
    sp_start s = p \<and> span_bytes s \<subset> block p sz) \<and> tc_malloc m t 0 = None"
proof -
  have n: "0 < sz div 4096" "sz div 4096 < PAGEHEAPSIZE"
    using assms(3,4) by (simp_all add: THRESHALLOC_def div_greater_zero_iff less_mult_imp_div_less)
  obtain x m' R' where f: "fetch_span m (sz div 4096) = Some (x, m')" "pages_ok R' m'" "hands_out R m R' m' x (sz div 4096)"
    using fetch_span_ok [OF assms(1,2) n] by blast
  obtain s where s: "spans m' x = Some s" "sp_pageSize s = sz div 4096" "R' x = Held" using f(3) by (auto simp: hands_out_def)
  have "sz div 4096 * 4096 < sz" using assms(5) by (metis div_times_less_eq_dividend dvd_triv_right le_neq_implies_less)
  then have "span_bytes s \<subset> block (sp_start s) sz" using s(2) by (auto simp: span_bytes_def block_def)
  moreover have "tc_malloc m t sz = Some (sp_start s, m')" using assms(3) f(1) s(1) by (simp add: tc_malloc_def)
  moreover have "get_index 0 = -1" by (simp add: get_index_def size_sub_def to_int_def)
  then have "tc_malloc m t 0 = None" by (simp add: tc_malloc_def allocate_def local_list_def index_of_def THRESHALLOC_def)
  ultimately show ?thesis using f(2) s(1,3) by blast
qed

theorem tc_malloc_large_short_witness:
  "(\<exists>p m' x s. tc_malloc (start_mem 4096 (2 ^ 40)) 0 36000 = Some (p, m') \<and> spans m' x = Some s \<and> sp_start s = p \<and>
    span_bytes s \<subset> block p 36000) \<and> tc_malloc (start_mem 4096 (2 ^ 40)) 0 0 = None"
proof -
  have "pages_ok (\<lambda>_. Unused) (start_mem 4096 (2 ^ 40))" by (rule start_mem_ok) simp_all
  moreover have "room (start_mem 4096 (2 ^ 40)) GROWTH"
    by (simp add: room_def start_mem_def GROWTH_def SYSFETCHSIZE_def pool_numbers)
  moreover have "\<not> 4096 dvd (36000 :: nat)" by simp
  ultimately show ?thesis
    using tc_malloc_large_short [of "\<lambda>_. Unused" "start_mem 4096 (2 ^ 40)" 36000 0]
    by (simp add: THRESHALLOC_def PAGEHEAPSIZE_def) blast
qed

text \<open>A pointer read from a block after \<open>tc_free\<close> is the head of the list the block went to, since the list is linked through
  the blocks: it is NULL or a block that is not in use, whatever the block held before; freeing NULL reads before the page map.\<close>

theorem tc_free_clobbers_block:
  assumes T: "tc_ok R m C S L" and p: "(t, k) \<in> S" and ob: "ob \<in> L" "ob \<in> class_objs R m k"
    and len: "tl_objlen (caches m t ! k) \<noteq> tl_max_length (caches m t ! k)"
  shows "\<exists>m'. tc_free m t ob = Some m' \<and> link m' ob = tl_objs (caches m t ! k) \<and> link m' ob \<notin> L \<and>
    (link m' ob = 0 \<longrightarrow> tc_free m' t (link m' ob) = None)"
  using tc_free_pushes [OF T p ob len] .

theorem tc_free_clobbers_block_witness:
  "\<exists>ob m1 m2. tc_malloc ready_mem 0 8 = Some (ob, m1) \<and> tc_free m1 0 ob = Some m2 \<and> link m2 ob = tl_objs (caches m1 0 ! 0)"
proof -
  have c: "class_of 8 = 0" by (simp add: class_of_def)
  have "(0, 0) \<in> {0 :: nat} \<times> {..<CLASSES}" by (simp add: CLASSES_def)
  then obtain ob m1 R C where n: "tc_malloc ready_mem 0 8 = Some (ob, m1)" "tc_ok R m1 C ({0} \<times> {..<CLASSES}) {ob}"
      "ob \<in> class_objs R m1 0" "tl_objlen (caches m1 0 ! 0) < tl_max_length (caches m1 0 ! 0)"
    using tc_malloc_ok [OF ready_mem_ok(1), of 0 8] ready_mem_ok(2) c by (auto simp: THRESHALLOC_def)
  then show ?thesis using tc_free_clobbers_block [OF n(2), of 0 0 ob] by (auto simp: CLASSES_def)
qed

end
