(* ===== verification/Allocator_Start.thy ===== *)
theory Allocator_Start
  imports Thread_Cache
begin

text \<open>
  Start-up of the allocator: \<open>tc_central_init\<close> and \<open>tc_thread_init\<close> of src/tc_malloc.c (modelled in \<open>Thread_Cache\<close>) bring the
  cleared globals of a new process into the invariant \<open>tc_ok\<close> on which every later call rests. One \<open>sbrk\<close> of 65536 pages
  carries the \<open>CLASSES\<close> spans of 128 pages that \<open>tc_central_init\<close> asks for; \<open>START_BYTES\<close> is the room for that and for
  the chunks of span records. Every span is cut into at least \<open>FIRST_OBJS\<close> objects, from which the threads take their
  first ones: up to \<open>FIRST_OBJS - 1\<close> threads start without asking the system again.
\<close>

definition START_BYTES :: nat where
  "START_BYTES = GROWTH + CLASSES * POOL_BYTES"

definition FIRST_OBJS :: nat where
  "FIRST_OBJS = 16"

lemma first_objs: "k < CLASSES \<Longrightarrow> FIRST_OBJS \<le> BATCH * 4096 div class_size k"
proof -
  assume "k < CLASSES"
  then have "0 < class_size k" "class_size k \<le> THRESHALLOC" using class_size_bounds [of k] by simp_all
  then have "BATCH * 4096 div THRESHALLOC \<le> BATCH * 4096 div class_size k" by (intro div_le_mono2)
  then show ?thesis by (simp add: FIRST_OBJS_def THRESHALLOC_def BATCH_def)
qed

subsection \<open>The central lists\<close>

lemma fresh_heap_ok:
  assumes e: "spans m = Map.empty" and b: "4096 dvd brk m" "0 < brk m" "brk m \<le> brk_max m" "brk_max m < 2 ^ 63"
  shows "heap_ok (\<lambda>_. Unused) ((init_globals m)\<lparr>ini_brk_addr := brk m\<rparr>) {}"
proof -
  let ?m = "(init_globals m)\<lparr>ini_brk_addr := brk m\<rparr>"
  have "free_set (\<lambda>_. Unused) sp i = {}" for sp i by (simp add: free_set_def)
  then have "pages_ok (\<lambda>_. Unused) ?m"
    using assms by (auto simp: pages_ok_def sys_ok_def pool_ok_def own_ok_def clean_ok_def lists_ok_def init_globals_def
        ring_ok_def ring_def intro: exI [of _ 0])
  moreover have "central_ok (\<lambda>_. Unused) ?m {}"
    by (auto simp: central_ok_def init_globals_def ring_ok_def ring_def class_objs_def)
  ultimately show ?thesis by (simp add: heap_ok_def)
qed

text \<open>The loop of \<open>tc_central_init\<close> once a big free span is there.\<close>

abbreviation central_step :: "tcmem \<Rightarrow> nat \<Rightarrow> tcmem option" where
  "central_step \<equiv> \<lambda>m i. map_option snd (get_span_central m (int_to_size (index_to_size (int i))))"

lemma room_after:
  assumes "room m (g + r)" and "brk m' \<le> brk m + g" and "brk_max m' = brk_max m" and "ini_brk_addr m' = ini_brk_addr m"
  shows "room m' r"
  using assms by (auto simp: room_def)

lemma central_loop_ok:
  assumes "heap_ok R m Out" and "distinct ks" and "set ks \<subseteq> {..<CLASSES}" and "avail m (q + length ks * BATCH)" and "0 < q"
    and "room m (length ks * POOL_BYTES + r)"
    and "\<forall>k<CLASSES. if k \<in> set ks then central m ! k = 0 else spare m k FIRST_OBJS"
  shows "\<exists>m' R'. fold_option central_step m ks = Some m' \<and> heap_ok R' m' Out \<and> room m' r \<and> keeps R m R' m' Out \<and>
    (\<forall>k<CLASSES. spare m' k FIRST_OBJS)"
  using assms
proof (induction ks arbitrary: R m)
  case Nil
  then show ?case by (intro exI [of _ m] exI [of _ R]) simp
next
  case (Cons k ks)
  have k: "k < CLASSES" "k \<notin> set ks" using Cons.prems(2,3) by simp_all
  have z: "central m ! k = 0" using Cons.prems(7) k(1) by simp
  let ?q = "q + length (k # ks) * BATCH"
  have q: "BATCH < ?q" "?q - BATCH = q + length ks * BATCH" using Cons.prems(5) by (simp_all add: BATCH_def)
  have rm: "room m (POOL_BYTES + (length ks * POOL_BYTES + r))" using Cons.prems(6) by (simp add: add.assoc)
  then have "stocked m POOL_BYTES ?q" using Cons.prems(4) q(1) by (auto simp: stocked_def room_def)
  then obtain x m1 R1 where g: "get_span_central m (class_size k) = Some (x, m1)" "heap_ok R1 m1 Out" "keeps R m R1 m1 Out"
      "brk m1 \<le> brk m + POOL_BYTES" "avail m1 (?q - BATCH)"
      "\<forall>j<CLASSES. j \<noteq> k \<longrightarrow> central m1 ! j = central m ! j \<and> (\<forall>n. spare m j n \<longrightarrow> spare m1 j n)"
      "spare m1 k (BATCH * 4096 div class_size k)"
    using get_span_central_ok [OF Cons.prems(1) k(1), of POOL_BYTES ?q] q(1) z by auto
  have "room m1 (length ks * POOL_BYTES + r)"
    using g(3) by (intro room_after [OF rm g(4)]) (simp_all add: keeps_def)
  moreover have "if j \<in> set ks then central m1 ! j = 0 else spare m1 j FIRST_OBJS" if "j < CLASSES" for j
    using Cons.prems(7) g(6) spare_mono [OF g(7) first_objs [OF k(1)]] k(2) that by (cases "j = k") auto
  moreover have "distinct ks" "set ks \<subseteq> {..<CLASSES}" using Cons.prems(2,3) by simp_all
  ultimately obtain m' R' where i: "fold_option central_step m1 ks = Some m'" "heap_ok R' m' Out" "room m' r" "keeps R1 m1 R' m' Out"
      "\<forall>k<CLASSES. spare m' k FIRST_OBJS"
    using Cons.IH [OF g(2) _ _ _ Cons.prems(5)] g(5) unfolding q(2) by blast
  have "fold_option central_step m (k # ks) = Some m'" using g(1) i(1) by (simp add: index_to_size_nat [OF k(1)])
  then show ?case using i(2,3,5) keeps_trans [OF g(3) i(4)] by blast
qed

lemma classes_upt: "[0..<CLASSES] = 0 # [1..<CLASSES]"
  by (simp add: CLASSES_def upt_rec)

lemma tc_central_init_ok:
  assumes e: "spans m = Map.empty" and b: "4096 dvd brk m" "0 < brk m" "brk_max m < 2 ^ 63" and r: "brk m + START_BYTES \<le> brk_max m"
  shows "\<exists>m' R'. tc_central_init m = Some m' \<and> heap_ok R' m' {} \<and> room m' POOL_BYTES \<and> caches m' = caches m \<and>
    (\<forall>k<CLASSES. spare m' k FIRST_OBJS)"
proof -
  let ?m = "(init_globals m)\<lparr>ini_brk_addr := brk m\<rparr>" and ?ks = "[1..<CLASSES]"
  have br: "brk m \<le> brk_max m" using r by simp
  have H: "heap_ok (\<lambda>_. Unused) ?m {}" by (rule fresh_heap_ok [OF e b(1,2) br b(3)])
  have m2: "(init_globals m)\<lparr>ini_brk_addr := fst (sbrk (init_globals m) 0)\<rparr> = ?m"
    using br by (simp add: sbrk_def init_globals_def)
  have rm: "room ?m (GROWTH + (length ?ks * POOL_BYTES + POOL_BYTES))"
    using r by (simp add: room_def init_globals_def START_BYTES_def GROWTH_def SYSFETCHSIZE_def pool_numbers CLASSES_def)
  then have "stocked ?m GROWTH 0" by (simp add: stocked_def room_def)
  moreover have c0: "0 < CLASSES" by (simp add: CLASSES_def)
  moreover have "(\<forall>i<PAGEHEAPSIZE. pg_list ?m ! i = 0) \<and> (\<forall>k<CLASSES. central ?m ! k = 0)"
    by (simp add: init_globals_def)
  ultimately obtain x m1 R1 where g: "get_span_central ?m (class_size 0) = Some (x, m1)" "heap_ok R1 m1 {}"
      "keeps (\<lambda>_. Unused) ?m R1 m1 {}" "brk m1 \<le> brk ?m + GROWTH" "avail m1 (65536 - BATCH)"
      "\<forall>j<CLASSES. j \<noteq> 0 \<longrightarrow> central m1 ! j = 0" "spare m1 0 (BATCH * 4096 div class_size 0)"
    using get_span_central_ok [OF H, of 0 GROWTH 0] by auto
  have rm1: "room m1 (length ?ks * POOL_BYTES + POOL_BYTES)"
    using g(3) by (intro room_after [OF rm g(4)]) (simp_all add: keeps_def)
  have "65536 - BATCH = 65536 - CLASSES * BATCH + length ?ks * BATCH" by (simp add: CLASSES_def BATCH_def)
  then have "avail m1 (65536 - CLASSES * BATCH + length ?ks * BATCH)" using g(5) by simp
  moreover have "distinct ?ks" "set ?ks \<subseteq> {..<CLASSES}" by auto
  moreover have "0 < 65536 - CLASSES * BATCH" by (simp add: CLASSES_def BATCH_def)
  moreover have "if k \<in> set ?ks then central m1 ! k = 0 else spare m1 k FIRST_OBJS" if "k < CLASSES" for k
    using g(6) spare_mono [OF g(7) first_objs [OF c0]] that by (cases "k = 0") simp_all
  ultimately obtain m' R' where l: "fold_option central_step m1 ?ks = Some m'" "heap_ok R' m' {}" "room m' POOL_BYTES"
      "keeps R1 m1 R' m' {}" "\<forall>k<CLASSES. spare m' k FIRST_OBJS"
    using central_loop_ok [OF g(2) _ _ _ _ rm1] by blast
  have "tc_central_init m = Some m'"
    unfolding tc_central_init_def Let_def m2 classes_upt fold_option.simps
    using g(1) l(1) index_to_size_nat [of 0] by (simp add: CLASSES_def)
  moreover have "caches m' = caches m" using keeps_trans [OF g(3) l(4)] by (simp add: keeps_def init_globals_def)
  ultimately show ?thesis using l(2,3,5) by blast
qed

subsection \<open>The lists of a thread\<close>

text \<open>A slot that is not initialised yet can be overwritten.\<close>

lemma tc_ok_set_other:
  assumes T: "tc_ok R m C S L" and n: "(t, i) \<notin> S"
  shows "tc_ok R (set_cache m t i l) C S L"
  unfolding tc_ok_def
proof (intro conjI allI ballI)
  show "heap_ok R (set_cache m t i l) (cached C S \<union> L)"
    using heap_ok_out_links [OF tc_okD(1) [OF T], of "link m"] by (simp add: set_cache_def)
  show "length (caches (set_cache m t i l) u) = CLASSES" for u
    using tc_okD(2) [OF T, of u] tc_okD(2) [OF T, of t] by (simp add: set_cache_def)
  show "case p of (u, j) \<Rightarrow> j < CLASSES \<and> cache_ok R (set_cache m t i l) j (caches (set_cache m t i l) u ! j) (C (u, j))"
    if p: "p \<in> S" for p
  proof (cases p)
    case (Pair u j)
    have pS: "(u, j) \<in> S" using p Pair by simp
    have "caches (set_cache m t i l) u ! j = caches m u ! j" using pS n by (cases "u = t"; cases "j = i") (simp_all add: set_cache_def)
    moreover have "cache_ok R (set_cache m t i l) j a xs = cache_ok R m j a xs" for a xs
      using class_objs_cong [of "set_cache m t i l" m R j] by (simp add: cache_ok_def set_cache_def)
    ultimately show ?thesis using tc_okD(3,4) [OF T pS] Pair by simp
  qed
qed (use tc_okD(5,6) [OF T] in auto)

abbreviation thread_step :: "nat \<Rightarrow> tcmem \<Rightarrow> nat \<Rightarrow> tcmem option" where
  "thread_step t \<equiv> \<lambda>m i. do {
     l \<leftarrow> rd (caches m t) i;
     fetch_from_centralcache (set_cache m t i (init_threadlist l)) t (int i)
   }"

lemma thread_loop_ok:
  assumes "tc_ok R m C S L" and "distinct ks" and "set ks \<subseteq> {..<CLASSES}" and "({t} \<times> set ks) \<inter> S = {}"
    and "\<forall>k<CLASSES. spare m k (if k \<in> set ks then Suc n else n)" and "0 < n"
  shows "\<exists>m' R' C'. fold_option (thread_step t) m ks = Some m' \<and> tc_ok R' m' C' (S \<union> {t} \<times> set ks) L \<and>
    keeps_live R m R' m' L \<and> brk m' = brk m \<and> (\<forall>k<CLASSES. spare m' k n) \<and> (\<forall>k\<in>set ks. length (C' (t, k)) = 1) \<and>
    (\<forall>p. p \<notin> {t} \<times> set ks \<longrightarrow> C' p = C p) \<and> (\<forall>u. u \<noteq> t \<longrightarrow> caches m' u = caches m u)"
  using assms
proof (induction ks arbitrary: R m C S)
  case Nil
  then show ?case using keeps_imp_live [OF keeps_refl] by (intro exI [of _ m] exI [of _ R] exI [of _ C]) simp
next
  case (Cons k ks)
  have k: "k < CLASSES" "(t, k) \<notin> S" "k \<notin> set ks" using Cons.prems(2-4) by auto
  have len: "length (caches m t) = CLASSES" using tc_okD(2) [OF Cons.prems(1)] .
  let ?m = "set_cache m t k (init_threadlist (caches m t ! k))"
  have T: "tc_ok R ?m C S L" by (rule tc_ok_set_other [OF Cons.prems(1) k(2)])
  have sp: "spare ?m j l = spare m j l" for j l by (simp add: spare_def set_cache_def)
  have z: "tl_objs (caches ?m t ! k) = 0" "tl_objlen (caches ?m t ! k) = 0" "tl_max_length (caches ?m t ! k) = 1"
    using len k(1) by (simp_all add: set_cache_def init_threadlist_def)
  have "spare m k (if k \<in> set (k # ks) then Suc n else n)" using Cons.prems(5) k(1) by blast
  then have spk: "spare ?m k (Suc n)" "1 < Suc n" using Cons.prems(6) unfolding sp by simp_all
  obtain m1 R1 ob where f: "fetch_from_centralcache ?m t (int k) = Some m1" "tc_ok R1 m1 (C((t, k) := [ob])) (insert (t, k) S) L"
      "keeps_live R ?m R1 m1 L" "brk m1 = brk ?m" "spare m1 k (Suc n - 1)"
      "\<forall>j<CLASSES. \<forall>l. j \<noteq> k \<and> spare m j l \<longrightarrow> spare m1 j l" "\<forall>u. u \<noteq> t \<longrightarrow> caches m1 u = caches ?m u"
    using fetch_from_centralcache_spare [OF T k(1) spk z k(2)] unfolding sp by (elim exE conjE) (rule that)
  have kp: "keeps_live R m R1 m1 L" by (rule keeps_live_trans [OF keeps_live_set_cache f(3)])
  have c1: "\<forall>u. u \<noteq> t \<longrightarrow> caches m1 u = caches m u" using f(7) by (simp add: set_cache_def)
  have sp1: "\<forall>j<CLASSES. spare m1 j (if j \<in> set ks then Suc n else n)"
  proof (intro allI impI)
    fix j assume j: "j < CLASSES"
    show "spare m1 j (if j \<in> set ks then Suc n else n)"
    proof (cases "j = k")
      case True
      then show ?thesis using f(5) k(3) by simp
    next
      case False
      then have "spare m j (if j \<in> set ks then Suc n else n)" using Cons.prems(5) j by (auto split: if_splits)
      then show ?thesis using f(6) j False by blast
    qed
  qed
  have ks: "distinct ks" "set ks \<subseteq> {..<CLASSES}" "({t} \<times> set ks) \<inter> insert (t, k) S = {}" using Cons.prems(2-4) by auto
  obtain m' R' C' where i: "fold_option (thread_step t) m1 ks = Some m'" "tc_ok R' m' C' (insert (t, k) S \<union> {t} \<times> set ks) L"
      "keeps_live R1 m1 R' m' L" "brk m' = brk m1" "\<forall>k<CLASSES. spare m' k n"
      "\<forall>j\<in>set ks. length (C' (t, j)) = 1" "\<forall>p. p \<notin> {t} \<times> set ks \<longrightarrow> C' p = (C((t, k) := [ob])) p"
      "\<forall>u. u \<noteq> t \<longrightarrow> caches m' u = caches m1 u"
    using Cons.IH [OF f(2) ks sp1 Cons.prems(6)] by (elim exE conjE) (rule that)
  have "fold_option (thread_step t) m (k # ks) = Some m'" using f(1) i(1) len k(1) by (simp add: rd_def)
  moreover have "insert (t, k) S \<union> {t} \<times> set ks = S \<union> {t} \<times> set (k # ks)" by auto
  moreover have "\<forall>j\<in>set (k # ks). length (C' (t, j)) = 1" using i(6,7) k(3) by auto
  moreover have "\<forall>p. p \<notin> {t} \<times> set (k # ks) \<longrightarrow> C' p = C p" using i(7) by auto
  moreover have "brk m' = brk m" using i(4) f(4) by (simp add: set_cache_def)
  ultimately show ?case using i(2,5,8) c1 keeps_live_trans [OF kp i(3)]
    by (intro exI [of _ m'] exI [of _ R'] exI [of _ C']) simp
qed

lemma tc_thread_init_ok:
  assumes T: "tc_ok R m C S L" and n: "({t} \<times> {..<CLASSES}) \<inter> S = {}" and sp: "\<forall>k<CLASSES. spare m k (Suc n)" "0 < n"
  shows "\<exists>m' R' C'. tc_thread_init m t = Some m' \<and> tc_ok R' m' C' (S \<union> {t} \<times> {..<CLASSES}) L \<and> keeps_live R m R' m' L \<and>
    brk m' = brk m \<and> (\<forall>k<CLASSES. spare m' k n) \<and> (\<forall>k<CLASSES. length (C' (t, k)) = 1) \<and>
    (\<forall>u k. u \<noteq> t \<longrightarrow> C' (u, k) = C (u, k)) \<and> (\<forall>u. u \<noteq> t \<longrightarrow> caches m' u = caches m u)"
proof -
  have ks: "set [0..<CLASSES] = {..<CLASSES}" by auto
  have "\<forall>k<CLASSES. spare m k (if k \<in> set [0..<CLASSES] then Suc n else n)" using sp(1) by simp
  then obtain m' R' C' where "fold_option (thread_step t) m [0..<CLASSES] = Some m'" "tc_ok R' m' C' (S \<union> {t} \<times> {..<CLASSES}) L"
      "keeps_live R m R' m' L" "brk m' = brk m" "\<forall>k<CLASSES. spare m' k n" "\<forall>k\<in>{..<CLASSES}. length (C' (t, k)) = 1"
      "\<forall>p. p \<notin> {t} \<times> {..<CLASSES} \<longrightarrow> C' p = C p" "\<forall>u. u \<noteq> t \<longrightarrow> caches m' u = caches m u"
    using thread_loop_ok [OF T distinct_upt, of 0 CLASSES t n] n sp(2) unfolding ks by blast
  then show ?thesis unfolding tc_thread_init_def by (intro exI [of _ m'] exI [of _ R'] exI [of _ C']) simp
qed

text \<open>The threads start one after the other.\<close>

lemma threads_init_ok:
  assumes "tc_ok R m C S L" and "distinct ts" and "\<forall>t\<in>set ts. ({t} \<times> {..<CLASSES}) \<inter> S = {}"
    and "\<forall>k<CLASSES. spare m k (length ts + n)" and "0 < n"
  shows "\<exists>m' R' C'. fold_option tc_thread_init m ts = Some m' \<and> tc_ok R' m' C' (S \<union> set ts \<times> {..<CLASSES}) L \<and>
    brk m' = brk m \<and> brk_max m' = brk_max m \<and> ini_brk_addr m' = ini_brk_addr m"
  using assms
proof (induction ts arbitrary: R m C S)
  case Nil
  then show ?case by (intro exI [of _ m] exI [of _ R] exI [of _ C]) simp
next
  case (Cons t ts)
  have sp: "\<forall>k<CLASSES. spare m k (Suc (length ts + n))" "0 < length ts + n" using Cons.prems(4,5) by simp_all
  have tS: "({t} \<times> {..<CLASSES}) \<inter> S = {}" using Cons.prems(3) by simp
  obtain m1 R1 C1 where i: "tc_thread_init m t = Some m1" "tc_ok R1 m1 C1 (S \<union> {t} \<times> {..<CLASSES}) L" "keeps_live R m R1 m1 L"
      "brk m1 = brk m" "\<forall>k<CLASSES. spare m1 k (length ts + n)"
    using tc_thread_init_ok [OF Cons.prems(1) tS sp] by (elim exE conjE) (rule that)
  have ts: "distinct ts" "\<forall>u\<in>set ts. ({u} \<times> {..<CLASSES}) \<inter> (S \<union> {t} \<times> {..<CLASSES}) = {}" using Cons.prems(2,3) by auto
  have S: "S \<union> {t} \<times> {..<CLASSES} \<union> set ts \<times> {..<CLASSES} = S \<union> set (t # ts) \<times> {..<CLASSES}" by auto
  show ?case using Cons.IH [OF i(2) ts i(5) Cons.prems(5)] i(1,3,4) unfolding S by (auto simp: keeps_live_def')
qed

text \<open>Start-up in a new process with one thread: afterwards every list of the thread holds one object.\<close>

lemma start_up_ok:
  assumes "spans m = Map.empty" and "4096 dvd brk m" and "0 < brk m" and "brk_max m < 2 ^ 63"
    and "\<forall>u. length (caches m u) = CLASSES" and "brk m + START_BYTES \<le> brk_max m"
  shows "\<exists>m1 m2 R C. tc_central_init m = Some m1 \<and> tc_thread_init m1 t = Some m2 \<and> tc_ok R m2 C ({t} \<times> {..<CLASSES}) {} \<and>
    (\<forall>k<CLASSES. length (C (t, k)) = 1) \<and> (\<forall>k<CLASSES. spare m2 k (FIRST_OBJS - 1))"
proof -
  obtain m1 R1 where c: "tc_central_init m = Some m1" "heap_ok R1 m1 {}" "caches m1 = caches m" "\<forall>k<CLASSES. spare m1 k FIRST_OBJS"
    using tc_central_init_ok [OF assms(1-4,6)] by blast
  have T: "tc_ok R1 m1 (\<lambda>_. []) {} {}" using c(2,3) assms(5) by (simp add: tc_ok_def cached_def)
  have "\<forall>k<CLASSES. spare m1 k (Suc (FIRST_OBJS - 1))" "0 < FIRST_OBJS - 1" using c(4) by (simp_all add: FIRST_OBJS_def)
  then obtain m2 R C where "tc_thread_init m1 t = Some m2" "tc_ok R m2 C ({} \<union> {t} \<times> {..<CLASSES}) {}"
      "\<forall>k<CLASSES. length (C (t, k)) = 1" "\<forall>k<CLASSES. spare m2 k (FIRST_OBJS - 1)"
    using tc_thread_init_ok [OF T, of t "FIRST_OBJS - 1"] by blast
  then show ?thesis using c(1) by (intro exI [of _ m1] exI [of _ m2] exI [of _ R] exI [of _ C]) simp
qed

subsection \<open>Properties\<close>

text \<open>C5. Start-up establishes the invariant: in a process that has no spans yet and can move its break by \<open>START_BYTES\<close>,
  \<open>tc_central_init\<close> succeeds, and so does \<open>tc_thread_init\<close> in each of up to 15 threads; the memory they leave satisfies the
  invariant \<open>blocks_ok\<close> of the runs of \<open>tc_malloc\<close> and \<open>tc_free\<close> of these threads, with no block in use and room for a chunk of span
  records.\<close>

theorem tc_init_ready:
  assumes "spans m = Map.empty" and "4096 dvd brk m" and "0 < brk m" and "brk_max m < 2 ^ 63"
    and "brk m + START_BYTES \<le> brk_max m" and "\<forall>u. length (caches m u) = CLASSES"
    and "distinct ts" and "length ts < FIRST_OBJS"
  shows "\<exists>m1 m2. tc_central_init m = Some m1 \<and> fold_option tc_thread_init m1 ts = Some m2 \<and> blocks_ok (set ts) (m2, {}) \<and>
    room m2 POOL_BYTES"
proof -
  obtain m1 R1 where c: "tc_central_init m = Some m1" "heap_ok R1 m1 {}" "room m1 POOL_BYTES" "caches m1 = caches m"
      "\<forall>k<CLASSES. spare m1 k FIRST_OBJS"
    using tc_central_init_ok [OF assms(1-5)] by blast
  have T: "tc_ok R1 m1 (\<lambda>_. []) {} {}" using c(2,4) assms(6) by (simp add: tc_ok_def cached_def)
  have "\<forall>k<CLASSES. spare m1 k (length ts + (FIRST_OBJS - length ts))" "0 < FIRST_OBJS - length ts" using c(5) assms(8) by simp_all
  then obtain m2 R C where s: "fold_option tc_thread_init m1 ts = Some m2" "tc_ok R m2 C (set ts \<times> {..<CLASSES}) {}"
      "brk m2 = brk m1" "brk_max m2 = brk_max m1" "ini_brk_addr m2 = ini_brk_addr m1"
    using threads_init_ok [OF T assms(7), of "FIRST_OBJS - length ts"] by auto
  have "blocks_ok (set ts) (m2, {})" using s(2) by (auto simp: blocks_ok_def)
  then show ?thesis using c(1,3) s by (auto simp: room_def)
qed

theorem tc_init_ready_witness:
  "\<exists>m1 m2. tc_central_init ((start_mem 4096 (2 ^ 40))\<lparr>ini_brk_addr := 0\<rparr>) = Some m1 \<and> fold_option tc_thread_init m1 [0, 7, 3] = Some m2 \<and>
    blocks_ok (set [0, 7, 3]) (m2, {}) \<and> room m2 POOL_BYTES"
  by (rule tc_init_ready) (simp_all add: start_mem_def START_BYTES_def FIRST_OBJS_def GROWTH_def SYSFETCHSIZE_def pool_numbers CLASSES_def)

end
