(* ===== verification/Client_Threads.thy ===== *)
theory Client_Threads
  imports Allocator_Start Wire
begin

section \<open>The threads of client1 and the allocator (client1.c)\<close>

text \<open>
  What \<open>request_server\<close> of \<open>client1.c\<close> does to the memory of the allocator: a thread starts its caches, allocates and fills the
  header of its packets, and frees it after its last request. A turn of a thread is one call of the allocator; a schedule gives the order
  of the turns. The lemmas show that up to 14 threads run to their end under every schedule, that the calls keep the invariant of the
  allocator, and that they leave alone the blocks of the main thread and its caches.
\<close>

subsection \<open>A thread\<close>

datatype client_pc = C_Init | C_Header | C_Requests addr | C_Ended

text \<open>The first eight bytes of a block, as the allocator's model has them: one little-endian word.\<close>

definition first_word :: "bytes \<Rightarrow> nat" where
  "first_word bs = foldr (\<lambda>b n. unat b + 256 * n) (take 8 bs) 0"

definition create_hdr :: "tcmem \<Rightarrow> nat \<Rightarrow> nat \<Rightarrow> (addr \<times> tcmem) option" where
  "create_hdr m t len = do {
     (header, m1) \<leftarrow> tc_malloc m t HDR_LEN;
     Some (header, if header = 0 then m1 else m1\<lparr>link := (link m1)(header :=
       first_word (hdr_bytes \<lparr>tot_len = htonl (of_nat (len + HDR_LEN)), msg_type = htonl (msg_code REQUEST)\<rparr>))\<rparr>)
   }"

text \<open>
  The next call of thread \<open>t\<close>. \<open>served t\<close> says whether the thread serves its last request; otherwise it returns from the loop, and
  the header is not freed.
\<close>

definition client_turn :: "nat \<Rightarrow> (nat \<Rightarrow> bool) \<Rightarrow> tcmem \<times> (nat \<Rightarrow> client_pc) \<Rightarrow> nat \<Rightarrow> (tcmem \<times> (nat \<Rightarrow> client_pc)) option" where
  "client_turn word_len served = (\<lambda>(m, pc) t.
     case pc t of
       C_Init \<Rightarrow> do { m1 \<leftarrow> tc_thread_init m t; Some (m1, pc(t := C_Header)) }
     | C_Header \<Rightarrow> do { (header, m1) \<leftarrow> create_hdr m t word_len; Some (m1, pc(t := C_Requests header)) }
     | C_Requests header \<Rightarrow>
         if served t then do { m1 \<leftarrow> tc_free m t header; Some (m1, pc(t := C_Ended)) } else Some (m, pc(t := C_Ended))
     | C_Ended \<Rightarrow> Some (m, pc))"

text \<open>The threads 1 to \<open>n\<close>, in the order of a schedule. A schedule that does not bring each to its end has no result.\<close>

definition run_clients :: "nat \<Rightarrow> nat \<Rightarrow> (nat \<Rightarrow> bool) \<Rightarrow> nat list \<Rightarrow> tcmem \<Rightarrow> tcmem option" where
  "run_clients n word_len served sched m = do {
     (m1, pc) \<leftarrow> fold_option (client_turn word_len served) (m, \<lambda>_. C_Init) sched;
     if list_all (\<lambda>t. pc t = C_Ended) [1..<Suc n] then Some m1 else None
   }"

fun stage :: "client_pc \<Rightarrow> nat" where
  "stage C_Init = 0"
| "stage C_Header = 1"
| "stage (C_Requests header) = 2"
| "stage C_Ended = 3"

lemma stage_Ended: "stage c = 3 \<longleftrightarrow> c = C_Ended"
  by (cases c) simp_all

subsection \<open>The invariant\<close>

text \<open>
  \<open>L0\<close> are the blocks of the main thread, \<open>m0\<close> and \<open>R0\<close> the memory when the threads are created.
\<close>

definition threads_ok :: "nat \<Rightarrow> (addr \<Rightarrow> role) \<Rightarrow> tcmem \<Rightarrow> addr set \<Rightarrow> (addr \<Rightarrow> role) \<Rightarrow> (slot \<Rightarrow> addr list) \<Rightarrow> addr set \<Rightarrow>
    tcmem \<times> (nat \<Rightarrow> client_pc) \<Rightarrow> bool" where
  "threads_ok n R0 m0 L0 R C L = (\<lambda>(m, pc).
     tc_ok R m C (insert 0 {t. pc t \<noteq> C_Init} \<times> {..<CLASSES}) L \<and> {t. pc t \<noteq> C_Init} \<subseteq> {1..n} \<and>
     (\<forall>k<CLASSES. spare m k (FIRST_OBJS - 1 - card {t. pc t \<noteq> C_Init})) \<and>
     keeps_live R0 m0 R m L0 \<and> L0 \<subseteq> L \<and> caches m 0 = caches m0 0 \<and>
     (\<forall>t. pc t = C_Header \<longrightarrow> length (C (t, 0)) = 1) \<and>
     (\<forall>t p. pc t = C_Requests p \<longrightarrow> C (t, 0) = [] \<and> p \<in> L - L0 \<and> p \<in> class_objs R m 0) \<and>
     (\<forall>t u p. pc t = C_Requests p \<and> pc u = C_Requests p \<longrightarrow> t = u))"

lemma threads_okD:
  assumes "threads_ok n R0 m0 L0 R C L (m, pc)"
  shows "tc_ok R m C (insert 0 {t. pc t \<noteq> C_Init} \<times> {..<CLASSES}) L" and "{t. pc t \<noteq> C_Init} \<subseteq> {1..n}"
    and "\<forall>k<CLASSES. spare m k (FIRST_OBJS - 1 - card {t. pc t \<noteq> C_Init})"
    and "keeps_live R0 m0 R m L0" and "L0 \<subseteq> L" and "caches m 0 = caches m0 0"
    and "pc t = C_Header \<Longrightarrow> length (C (t, 0)) = 1"
    and "pc t = C_Requests p \<Longrightarrow> C (t, 0) = []" and "pc t = C_Requests p \<Longrightarrow> p \<in> L - L0"
    and "pc t = C_Requests p \<Longrightarrow> p \<in> class_objs R m 0"
    and "pc t = C_Requests p \<Longrightarrow> pc u = C_Requests p \<Longrightarrow> t = u"
  using assms by (simp_all add: threads_ok_def)

text \<open>A step of thread \<open>t\<close> that keeps the blocks of the others.\<close>

lemma threads_ok_step:
  assumes I: "threads_ok n R0 m0 L0 R C L (m, pc)" and t: "t \<in> {1..n}" and c: "c \<noteq> C_Init"
    and T: "tc_ok R' m' C' (insert 0 (insert t {t. pc t \<noteq> C_Init}) \<times> {..<CLASSES}) L'"
    and sp: "\<forall>k<CLASSES. spare m' k (FIRST_OBJS - 1 - card (insert t {t. pc t \<noteq> C_Init}))"
    and kl: "keeps_live R m R' m' (L - K)" "K \<inter> L0 = {}" "L - K \<subseteq> L'" "\<forall>u p. u \<noteq> t \<and> pc u = C_Requests p \<longrightarrow> p \<notin> K"
    and fr: "\<forall>u. u \<noteq> t \<longrightarrow> C' (u, 0) = C (u, 0)" "\<forall>u. u \<noteq> t \<longrightarrow> caches m' u = caches m u"
    and new: "c = C_Header \<longrightarrow> length (C' (t, 0)) = 1"
      "\<forall>p. c = C_Requests p \<longrightarrow> C' (t, 0) = [] \<and> p \<in> L' - L \<and> p \<in> class_objs R' m' 0"
  shows "threads_ok n R0 m0 L0 R' C' L' (m', pc(t := c))"
proof -
  note I' = threads_okD [OF I]
  have st: "{u. (pc(t := c)) u \<noteq> C_Init} = insert t {u. pc u \<noteq> C_Init}" using c by auto
  have L0: "L0 \<subseteq> L - K" using I'(5) kl(2) by blast
  have keep: "keeps_live R0 m0 R' m' L0" by (rule keeps_live_trans [OF I'(4) keeps_live_subset [OF kl(1) L0]])
  have req: "C' (u, 0) = [] \<and> p \<in> L' - L0 \<and> p \<in> class_objs R' m' 0" if u: "(pc(t := c)) u = C_Requests p" for u p
  proof (cases "u = t")
    case True
    then show ?thesis using u new(2) I'(5) by auto
  next
    case False
    then have p: "C (u, 0) = []" "p \<in> L - L0" "p \<in> class_objs R m 0" "p \<notin> K" using u I'(8-10) [of u p] kl(4) by auto
    then have "p \<in> class_objs R' m' 0" using kl(1) by (auto simp: keeps_live_def')
    then show ?thesis using p fr(1) False kl(3) by auto
  qed
  have uniq: "u = v" if "(pc(t := c)) u = C_Requests p" "(pc(t := c)) v = C_Requests p" for u v p
    using that new(2) I'(9) [of u p] I'(9) [of v p] I'(11) [of u p v] by (auto split: if_splits)
  have hd: "length (C' (u, 0)) = 1" if "(pc(t := c)) u = C_Header" for u
    using that I'(7) [of u] fr(1) new(1) by (cases "u = t") simp_all
  have "\<forall>u. (pc(t := c)) u = C_Header \<longrightarrow> length (C' (u, 0)) = 1" using hd by blast
  moreover have "\<forall>u p. (pc(t := c)) u = C_Requests p \<longrightarrow> C' (u, 0) = [] \<and> p \<in> L' - L0 \<and> p \<in> class_objs R' m' 0" using req by blast
  moreover have "\<forall>u v p. (pc(t := c)) u = C_Requests p \<and> (pc(t := c)) v = C_Requests p \<longrightarrow> u = v" using uniq by blast
  moreover have "caches m' 0 = caches m0 0" using I'(6) fr(2) t by simp
  moreover have "L0 \<subseteq> L'" using L0 kl(3) by blast
  moreover have "insert t {t. pc t \<noteq> C_Init} \<subseteq> {1..n}" using I'(2) t by simp
  ultimately show ?thesis unfolding threads_ok_def split st using T sp keep by (intro conjI)
qed

subsection \<open>A turn\<close>

text \<open>The three calls of the allocator.\<close>

lemma turn_init:
  assumes I: "threads_ok n R0 m0 L0 R C L (m, pc)" and t: "t \<in> {1..n}" "n < FIRST_OBJS - 1" and pc: "pc t = C_Init"
  shows "\<exists>m' R' C'. client_turn len served (m, pc) t = Some (m', pc(t := C_Header)) \<and>
    threads_ok n R0 m0 L0 R' C' L (m', pc(t := C_Header))"
proof -
  note I' = threads_okD [OF I]
  let ?W = "{t. pc t \<noteq> C_Init}"
  have W: "t \<notin> ?W" "finite ?W" using pc finite_subset [OF I'(2)] by auto
  have "card (insert t ?W) \<le> card {1..n}" using I'(2) t(1) by (intro card_mono) auto
  then have n: "FIRST_OBJS - 1 - card ?W = Suc (FIRST_OBJS - 1 - card (insert t ?W))" "0 < FIRST_OBJS - 1 - card (insert t ?W)"
    using W t(2) by simp_all
  have S: "({t} \<times> {..<CLASSES}) \<inter> (insert 0 ?W \<times> {..<CLASSES}) = {}" using W(1) t(1) by auto
  obtain m' R' C' where i: "tc_thread_init m t = Some m'" "tc_ok R' m' C' (insert 0 ?W \<times> {..<CLASSES} \<union> {t} \<times> {..<CLASSES}) L"
      "keeps_live R m R' m' L" "\<forall>k<CLASSES. spare m' k (FIRST_OBJS - 1 - card (insert t ?W))" "\<forall>k<CLASSES. length (C' (t, k)) = 1"
      "\<forall>u k. u \<noteq> t \<longrightarrow> C' (u, k) = C (u, k)" "\<forall>u. u \<noteq> t \<longrightarrow> caches m' u = caches m u"
    using tc_thread_init_ok [OF I'(1) S I'(3) [unfolded n(1)] n(2)] by blast
  have "insert 0 ?W \<times> {..<CLASSES} \<union> {t} \<times> {..<CLASSES} = insert 0 (insert t ?W) \<times> {..<CLASSES}" by auto
  then have "threads_ok n R0 m0 L0 R' C' L (m', pc(t := C_Header))"
    using i(2-7) by (intro threads_ok_step [OF I t(1), of _ _ _ _ _ "{}"]) (simp_all add: CLASSES_def)
  then show ?thesis using i(1) pc by (auto simp: client_turn_def)
qed

lemma class_of_hdr: "class_of HDR_LEN = 0" "0 < HDR_LEN" "HDR_LEN \<le> THRESHALLOC"
  by (simp_all add: class_of_def HDR_LEN_def THRESHALLOC_def)

lemma turn_alloc:
  assumes I: "threads_ok n R0 m0 L0 R C L (m, pc)" and t: "t \<in> {1..n}" and pc: "pc t = C_Header"
  shows "\<exists>p m' R' C' L'. client_turn len served (m, pc) t = Some (m', pc(t := C_Requests p)) \<and>
    threads_ok n R0 m0 L0 R' C' L' (m', pc(t := C_Requests p))"
proof -
  note I' = threads_okD [OF I]
  let ?W = "{t. pc t \<noteq> C_Init}" and ?S = "insert 0 {t. pc t \<noteq> C_Init} \<times> {..<CLASSES}"
  have tW: "insert t ?W = ?W" using pc by auto
  have slot: "(t, 0) \<in> ?S" using pc by (simp add: CLASSES_def)
  have ne: "C (t, 0) \<noteq> []" "tl (C (t, 0)) = []" using I'(7) [OF pc] by (cases "C (t, 0)"; simp)+
  obtain p l R' where a: "tc_malloc m t HDR_LEN = Some (p, set_cache m t 0 l)"
      "tc_ok R' (set_cache m t 0 l) (C((t, 0) := [])) ?S (insert p L)" "p \<notin> L" "p \<noteq> 0" "p \<in> class_objs R' (set_cache m t 0 l) 0"
      "keeps_live R m R' (set_cache m t 0 l) L"
    using tc_malloc_cached [where sz = HDR_LEN, unfolded class_of_hdr(1), OF I'(1) slot class_of_hdr(2,3) ne(1)] unfolding ne(2) by blast
  let ?m1 = "set_cache m t 0 l"
  obtain v where run: "client_turn len served (m, pc) t = Some (?m1\<lparr>link := (link ?m1)(p := v)\<rparr>, pc(t := C_Requests p))"
    using a(1,4) pc by (simp add: client_turn_def create_hdr_def)
  let ?m' = "?m1\<lparr>link := (link ?m1)(p := v)\<rparr>"
  have T: "tc_ok R' ?m' (C((t, 0) := [])) ?S (insert p L)" by (rule tc_ok_write [OF a(2)]) simp
  have cls: "class_objs R' ?m' j = class_objs R' ?m1 j" for j by (rule class_objs_cong) simp
  have "keeps_live R m R' ?m' L" using a(3,6) cls by (auto simp: keeps_live_def')
  moreover have "spare ?m' k j = spare m k j" for k j by (simp add: spare_def set_cache_def)
  moreover have "caches ?m' u = caches m u" if "u \<noteq> t" for u using that by (simp add: set_cache_def)
  ultimately have "threads_ok n R0 m0 L0 R' (C((t, 0) := [])) (insert p L) (?m', pc(t := C_Requests p))"
    using T I'(3) a(3,5) cls by (intro threads_ok_step [OF I t, of _ _ _ _ _ "{}"]) (simp_all add: tW subset_insertI)
  then show ?thesis using run by blast
qed

lemma turn_free:
  assumes I: "threads_ok n R0 m0 L0 R C L (m, pc)" and t: "t \<in> {1..n}" and pc: "pc t = C_Requests p"
  shows "\<exists>m' C' L'. tc_free m t p = Some m' \<and> threads_ok n R0 m0 L0 R C' L' (m', pc(t := C_Ended))"
proof -
  note I' = threads_okD [OF I]
  let ?W = "{t. pc t \<noteq> C_Init}" and ?S = "insert 0 {t. pc t \<noteq> C_Init} \<times> {..<CLASSES}"
  have tW: "insert t ?W = ?W" using pc by auto
  have slot: "(t, 0) \<in> ?S" using pc by (simp add: CLASSES_def)
  have p: "p \<in> L" "p \<notin> L0" "p \<in> class_objs R m 0" using I'(9,10) [OF pc] by simp_all
  have "cache_ok R m 0 (caches m t ! 0) []" using tc_okD(4) [OF I'(1) slot] I'(8) [OF pc] by simp
  then have len: "tl_objlen (caches m t ! 0) \<noteq> tl_max_length (caches m t ! 0)" by (simp add: cache_ok_def)
  note d = deallocate_push [OF I'(1) slot p(1,3) tc_ok_nonzero [OF I'(1) p(3)] len]
  obtain nx l where run: "tc_free m t p = Some (set_cache (m\<lparr>link := nx\<rparr>) t 0 l)"
      "tc_ok R (set_cache (m\<lparr>link := nx\<rparr>) t 0 l) (C((t, 0) := [p])) ?S (L - {p})"
      "keeps_live R m R (set_cache (m\<lparr>link := nx\<rparr>) t 0 l) (L - {p})"
    using d tc_free_small [OF I'(1) p(3)] I'(8) [OF pc] by simp
  let ?m' = "set_cache (m\<lparr>link := nx\<rparr>) t 0 l"
  have "spare ?m' k j = spare m k j" for k j by (simp add: spare_def set_cache_def)
  moreover have "caches ?m' u = caches m u" if "u \<noteq> t" for u using that by (simp add: set_cache_def)
  moreover have "\<forall>u q. u \<noteq> t \<and> pc u = C_Requests q \<longrightarrow> q \<notin> {p}" using I'(11) [OF pc] by auto
  ultimately have "threads_ok n R0 m0 L0 R (C((t, 0) := [p])) (L - {p}) (?m', pc(t := C_Ended))"
    using run(2,3) I'(3) p(2) by (intro threads_ok_step [OF I t, of _ _ _ _ _ "{p}"]) (simp_all add: tW)
  then show ?thesis using run(1) by blast
qed

lemma client_turn_ok:
  assumes I: "threads_ok n R0 m0 L0 R C L (m, pc)" and t: "t \<in> {1..n}" "n < FIRST_OBJS - 1"
  shows "\<exists>m' c R' C' L'. client_turn len served (m, pc) t = Some (m', pc(t := c)) \<and> stage c = min 3 (Suc (stage (pc t))) \<and>
    threads_ok n R0 m0 L0 R' C' L' (m', pc(t := c))"
proof (cases "pc t")
  case C_Init
  then show ?thesis using turn_init [OF I t C_Init, of len served] by fastforce
next
  case C_Header
  then show ?thesis using turn_alloc [OF I t(1) C_Header, of len served] by fastforce
next
  case (C_Requests p)
  note I' = threads_okD [OF I]
  show ?thesis
  proof (cases "served t")
    case True
    then show ?thesis using turn_free [OF I t(1) C_Requests] C_Requests by (fastforce simp: client_turn_def)
  next
    case False
    have "insert t {t. pc t \<noteq> C_Init} = {t. pc t \<noteq> C_Init}" using C_Requests by auto
    then have "threads_ok n R0 m0 L0 R C L (m, pc(t := C_Ended))"
      using I'(1,3) keeps_imp_live [OF keeps_refl] by (intro threads_ok_step [OF I t(1), of _ _ _ _ _ "{}"]) simp_all
    then show ?thesis using False C_Requests by (fastforce simp: client_turn_def)
  qed
next
  case C_Ended
  then show ?thesis using I by (intro exI [of _ m] exI [of _ C_Ended] exI [of _ R] exI [of _ C] exI [of _ L])
    (simp add: client_turn_def fun_upd_idem)
qed

subsection \<open>A schedule\<close>

lemma client_turns_ok:
  assumes "threads_ok n R0 m0 L0 R C L s" and "set sched \<subseteq> {1..n}" and "n < FIRST_OBJS - 1"
  shows "\<exists>m' pc' R' C' L'. fold_option (client_turn len served) s sched = Some (m', pc') \<and> threads_ok n R0 m0 L0 R' C' L' (m', pc') \<and>
    (\<forall>t. stage (pc' t) = min 3 (stage (snd s t) + count_list sched t))"
  using assms(1,2)
proof (induction sched arbitrary: R C L s)
  case Nil
  have "stage c = min 3 (stage c)" for c by (cases c) simp_all
  then show ?case using Nil.prems(1) by (cases s) auto
next
  case (Cons t ts)
  obtain m pc where s: "s = (m, pc)" by (cases s)
  obtain m1 c R1 C1 L1 where i: "client_turn len served (m, pc) t = Some (m1, pc(t := c))" "stage c = min 3 (Suc (stage (pc t)))"
      "threads_ok n R0 m0 L0 R1 C1 L1 (m1, pc(t := c))"
    using client_turn_ok [where len = len and served = served and t = t, OF Cons.prems(1) [unfolded s] _ assms(3)] Cons.prems(2) by auto
  obtain m' pc' R' C' L' where r: "fold_option (client_turn len served) (m1, pc(t := c)) ts = Some (m', pc')"
      "threads_ok n R0 m0 L0 R' C' L' (m', pc')" "\<forall>u. stage (pc' u) = min 3 (stage ((pc(t := c)) u) + count_list ts u)"
    using Cons.IH [OF i(3)] Cons.prems(2) by auto
  have "stage (pc' u) = min 3 (stage (pc u) + count_list (t # ts) u)" for u using r(3) i(2) by (cases "u = t") simp_all
  then show ?case using i(1) r(1,2) unfolding s by auto
qed

text \<open>When every thread gets three turns, all of them end.\<close>

lemma run_clients_ok:
  assumes I: "threads_ok n R0 m L0 R0 C L0 (m, \<lambda>_. C_Init)" and n: "n < FIRST_OBJS - 1"
    and sched: "set sched \<subseteq> {1..n}" "\<forall>t\<in>{1..n}. 3 \<le> count_list sched t"
  shows "\<exists>m' R' C' S' L'. run_clients n len served sched m = Some m' \<and> tc_ok R' m' C' S' L' \<and> {0} \<times> {..<CLASSES} \<subseteq> S' \<and> L0 \<subseteq> L' \<and>
    keeps_live R0 m R' m' L0 \<and> caches m' 0 = caches m 0"
proof -
  obtain m' pc' R' C' L' where r: "fold_option (client_turn len served) (m, \<lambda>_. C_Init) sched = Some (m', pc')"
      "threads_ok n R0 m L0 R' C' L' (m', pc')" "\<forall>t. stage (pc' t) = min 3 (stage C_Init + count_list sched t)"
    using client_turns_ok [OF I sched(1) n, of len served] by auto
  have "pc' t = C_Ended" if "t \<in> {1..n}" for t using r(3) sched(2) that by (simp add: stage_Ended [symmetric])
  then have "list_all (\<lambda>t. pc' t = C_Ended) [1..<Suc n]" by (simp add: list_all_iff del: upt_Suc)
  then have "run_clients n len served sched m = Some m'" using r(1) by (simp add: run_clients_def)
  then show ?thesis using threads_okD(1,4-6) [OF r(2)]
    by (intro exI [of _ m'] exI [of _ R'] exI [of _ C'] exI [of _ "insert 0 {t. pc' t \<noteq> C_Init} \<times> {..<CLASSES}"] exI [of _ L']) auto
qed

end
