(* ===== verification/Client_Main.thy ===== *)
theory Client_Main
  imports Sockets Clients Client_Threads
begin

section \<open>The main functions of the clients (client1.c, client2.c)\<close>

text \<open>
  \<open>get_serveraddress\<close> and \<open>main\<close> of the two clients, on the memory of the allocator: the arguments are parsed, the block that the threads
  get is allocated and filled, the threads are created and joined, and \<open>client1\<close> frees its two blocks. What the threads do to the memory is a
  parameter \<open>run\<close>, which \<open>run_clients\<close> of \<open>Client_Threads\<close> instantiates for \<open>client1\<close>. The lemmas show that the address is the one that \<open>open_clientfd\<close> would use, and what the last two calls of
  \<open>client1\<close> free.
\<close>

subsection \<open>atoi\<close>

fun digits_value :: "int \<Rightarrow> bytes \<Rightarrow> int" where
  "digits_value v [] = v"
| "digits_value v (c # cs) = (if 48 \<le> c \<and> c \<le> 57 then digits_value (10 * v + uint (c - 48)) cs else v)"

definition int_range :: "int \<Rightarrow> bool" where
  "int_range i \<longleftrightarrow> - (2 ^ 31) \<le> i \<and> i < 2 ^ 31"

text \<open>A value that is not an \<open>int\<close> has no defined result.\<close>

definition atoi :: "bytes \<Rightarrow> int option" where
  "atoi s =
     (if \<not> terminated s then None
      else let t = dropWhile isspace (cstring s);
               v = (case t of
                      [] \<Rightarrow> 0
                    | c # cs \<Rightarrow> if c = 45 then - digits_value 0 cs else if c = 43 then digits_value 0 cs else digits_value 0 t)
           in if int_range v then Some v else None)"

definition int_text :: "int \<Rightarrow> bytes" where
  "int_text i = (if i < 0 then 45 # decimal (nat (- i)) else decimal (nat i))"

subsection \<open>get_serveraddress\<close>

definition sockaddr_bytes :: "struct_sockaddr_in \<Rightarrow> bytes" where
  "sockaddr_bytes s = [ucast (sin_family s), ucast (drop_bit 8 (sin_family s)), ucast (sin_port s), ucast (drop_bit 8 (sin_port s))] @
     sin_addr s @ sin_zero s"

text \<open>
  The result: the pointer that is returned, the contents of the block, and the memory. The result of \<open>tc_malloc\<close> is not tested
  before \<open>memset\<close>. When the name is not found the block is lost.
\<close>

definition get_serveraddress :: "resolver \<Rightarrow> tcmem \<Rightarrow> nat \<Rightarrow> bytes \<Rightarrow> int \<Rightarrow> ((addr \<times> struct_sockaddr_in) \<times> tcmem) option" where
  "get_serveraddress res m t hostname port = do {
     (p, m1) \<leftarrow> tc_malloc m t 16;
     if p = 0 then None
     else do {
       let sa = zero_sockaddr\<lparr>sin_family := AF_INET, sin_port := htons (of_int port)\<rparr>;
       (q, sa1) \<leftarrow> (case inet_pton res hostname of
           Some a \<Rightarrow> Some (p, sa\<lparr>sin_addr := a\<rparr>)
         | None \<Rightarrow>
             (case gethostbyname res hostname of
                Some a \<Rightarrow> if length a < 4 then None else Some (p, sa\<lparr>sin_addr := take 4 a, sin_zero := replicate 8 0\<rparr>)
              | None \<Rightarrow> Some (0, sa)));
       Some ((q, sa1), m1\<lparr>link := (link m1)(p := first_word (sockaddr_bytes sa1))\<rparr>)
     }
   }"

subsection \<open>main of client1\<close>

text \<open>
  Up to the last \<open>printf\<close>: the pointer \<open>args\<close>, what is printed, the memory. The number of threads is the length of an array on the stack,
  which must be positive. \<open>create_rc\<close> and \<open>join_rc\<close> are the results of \<open>pthread_create\<close> and \<open>pthread_join\<close>. The main thread is
  thread 0.
\<close>

definition client1_start ::
  "tcmem \<Rightarrow> bytes list \<Rightarrow> resolver \<Rightarrow> (nat \<Rightarrow> int) \<Rightarrow> (nat \<Rightarrow> int) \<Rightarrow> (tcmem \<Rightarrow> tcmem option) \<Rightarrow>
    (addr \<times> bytes \<times> tcmem) outcome option" where
  "client1_start m argv res create_rc join_rc run =
     (if length argv \<noteq> 6 then Some (Exited EXIT_FAILURE)
      else do {
        m1 \<leftarrow> tc_central_init m;
        m2 \<leftarrow> tc_thread_init m1 0;
        port \<leftarrow> atoi (argv ! 2);
        nthreads \<leftarrow> atoi (argv ! 3);
        req_per_thread \<leftarrow> atoi (argv ! 4);
        if nthreads \<le> 0 then None
        else do {
          (args, m3) \<leftarrow> tc_malloc m2 0 8;
          ((server_addr, sa), m4) \<leftarrow> get_serveraddress res m3 0 (cstring (argv ! 1)) port;
          if args = 0 then None
          else if list_ex (\<lambda>i. create_rc i \<noteq> 0) [0..<nat nthreads] then Some (Exited EXIT_FAILURE)
          else do {
            m6 \<leftarrow> run (m4\<lparr>link := (link m4)(args := server_addr)\<rparr>);
            if list_ex (\<lambda>i. join_rc i \<noteq> 0) [0..<nat nthreads] then Some (Exited EXIT_FAILURE)
            else if \<not> int_range (nthreads * req_per_thread) then None
            else Some (Returned (args, lit ''number of served client requests: '' @ int_text (nthreads * req_per_thread) @ [10], m6))
          }
        }
      })"

definition client1_main ::
  "tcmem \<Rightarrow> bytes list \<Rightarrow> resolver \<Rightarrow> (nat \<Rightarrow> int) \<Rightarrow> (nat \<Rightarrow> int) \<Rightarrow> (tcmem \<Rightarrow> tcmem option) \<Rightarrow>
    (bytes \<times> tcmem) outcome option" where
  "client1_main m argv res create_rc join_rc run = do {
     r \<leftarrow> client1_start m argv res create_rc join_rc run;
     (case r of
        Exited e \<Rightarrow> Some (Exited e)
      | Returned (args, out, m1) \<Rightarrow> do {
          m2 \<leftarrow> tc_free m1 0 args;
          m3 \<leftarrow> tc_free m2 0 (link m2 args);
          Some (Returned (out, m3))
        })
   }"

subsection \<open>main of client2\<close>

definition client2_main ::
  "tcmem \<Rightarrow> bytes list \<Rightarrow> resolver \<Rightarrow> int \<Rightarrow> int \<Rightarrow> (tcmem \<Rightarrow> tcmem option) \<Rightarrow> tcmem outcome option" where
  "client2_main m argv res create_rc join_rc run =
     (if length argv \<noteq> 3 then Some (Exited EXIT_FAILURE)
      else do {
        m1 \<leftarrow> tc_central_init m;
        m2 \<leftarrow> tc_thread_init m1 0;
        port \<leftarrow> atoi (argv ! 2);
        (args, m3) \<leftarrow> tc_malloc m2 0 8;
        ((server_addr, sa), m4) \<leftarrow> get_serveraddress res m3 0 (cstring (argv ! 1)) port;
        if args = 0 then None
        else if create_rc \<noteq> 0 then Some (Exited EXIT_FAILURE)
        else do {
          m6 \<leftarrow> run (m4\<lparr>link := (link m4)(args := server_addr)\<rparr>);
          if join_rc \<noteq> 0 then Some (Exited EXIT_FAILURE) else Some (Returned m6)
        }
      })"

subsection \<open>Lemmas\<close>

text \<open>The address: what is found for the name, and what \<open>open_clientfd\<close> connects to.\<close>

lemma get_serveraddress_ok:
  assumes "tc_malloc m t 16 = Some (p, m1)" and "p \<noteq> 0" and "resolver_ok res" and "address_of res host port = Some a"
  shows "get_serveraddress res m t host port = Some ((p, a), m1\<lparr>link := (link m1)(p := first_word (sockaddr_bytes a))\<rparr>)"
proof (cases "inet_pton res host")
  case None
  then obtain b where b: "gethostbyname res host = Some b"
      "a = \<lparr>sin_family = AF_INET, sin_port = htons (of_int port), sin_addr = b, sin_zero = replicate 8 0\<rparr>"
    using assms(4) by (auto simp: address_of_def)
  have "length b = 4" using resolver_okD(2) [OF assms(3) b(1)] .
  then show ?thesis using assms(1,2) None b by (simp add: get_serveraddress_def zero_sockaddr_def Let_def)
next
  case (Some b)
  then have "a = \<lparr>sin_family = AF_INET, sin_port = htons (of_int port), sin_addr = b, sin_zero = replicate 8 0\<rparr>"
    using assms(4) by (simp add: address_of_def)
  then show ?thesis using assms(1,2) Some by (simp add: get_serveraddress_def zero_sockaddr_def Let_def)
qed

text \<open>The two blocks of \<open>main\<close>.\<close>

lemma client_blocks:
  assumes fresh: "spans m = Map.empty" "4096 dvd brk m" "0 < brk m" "brk_max m < 2 ^ 63" "\<forall>u. length (caches m u) = CLASSES"
      "brk m + START_BYTES \<le> brk_max m"
    and res: "resolver_ok res" "address_of res host port = Some a"
  shows "\<exists>m1 m2 args m3 sa m4 R C. tc_central_init m = Some m1 \<and> tc_thread_init m1 0 = Some m2 \<and> tc_malloc m2 0 8 = Some (args, m3) \<and>
    get_serveraddress res m3 0 host port = Some ((sa, a), m4) \<and> args \<noteq> 0 \<and> sa \<noteq> 0 \<and> sa \<noteq> args \<and>
    tc_ok R m4 C ({0} \<times> {..<CLASSES}) {sa, args} \<and> C (0, 0) = [] \<and> args \<in> class_objs R m4 0 \<and>
    (\<forall>k<CLASSES. spare m4 k (FIRST_OBJS - 1))"
proof -
  have cl: "class_of 8 = 0" "class_of 16 = 1" by (simp_all add: class_of_def)
  let ?S = "{0 :: nat} \<times> {..<CLASSES}"
  obtain m1 m2 R2 C2 where s: "tc_central_init m = Some m1" "tc_thread_init m1 0 = Some m2" "tc_ok R2 m2 C2 ?S {}"
      "\<forall>k<CLASSES. length (C2 (0, k)) = 1" "\<forall>k<CLASSES. spare m2 k (FIRST_OBJS - 1)"
    using start_up_ok [where t = 0, OF fresh] by blast
  have slots: "(0, class_of 8) \<in> ?S" "(0, class_of 16) \<in> ?S" unfolding cl by (simp_all add: CLASSES_def)
  have "length (C2 (0, 0)) = 1" "length (C2 (0, 1)) = 1" using s(4) by (simp_all add: CLASSES_def)
  then have one: "C2 (0, 0) \<noteq> []" "tl (C2 (0, 0)) = []" "C2 (0, 1) \<noteq> []" by (auto simp: length_Suc_conv)
  have sz: "0 < (8 :: nat)" "8 \<le> THRESHALLOC" "0 < (16 :: nat)" "16 \<le> THRESHALLOC" by (simp_all add: THRESHALLOC_def)
  obtain args l3 R3 where b: "tc_malloc m2 0 8 = Some (args, set_cache m2 0 0 l3)"
      "tc_ok R3 (set_cache m2 0 0 l3) (C2((0, 0) := [])) ?S {args}" "args \<noteq> 0" "args \<in> class_objs R3 (set_cache m2 0 0 l3) 0"
    using tc_malloc_cached [OF s(3) slots(1) sz(1,2), unfolded cl(1), OF one(1)] unfolding one(2) by (elim exE conjE) (rule that)
  let ?m3 = "set_cache m2 0 0 l3" and ?C3 = "C2((0, 0) := [])"
  have ne: "?C3 (0, class_of 16) \<noteq> []" using one(3) cl by simp
  obtain sa l4 R4 where c: "tc_malloc ?m3 0 16 = Some (sa, set_cache ?m3 0 1 l4)"
      "tc_ok R4 (set_cache ?m3 0 1 l4) (?C3((0, 1) := tl (?C3 (0, 1)))) ?S {sa, args}" "sa \<notin> {args}" "sa \<noteq> 0" "keeps_live R3 ?m3 R4 (set_cache ?m3 0 1 l4) {args}"
    using tc_malloc_cached [where C = ?C3, OF b(2) slots(2) sz(3,4) ne] unfolding cl(2) by (elim exE conjE) (rule that)
  let ?m4 = "(set_cache ?m3 0 1 l4)\<lparr>link := (link (set_cache ?m3 0 1 l4))(sa := first_word (sockaddr_bytes a))\<rparr>"
  have "get_serveraddress res ?m3 0 host port = Some ((sa, a), ?m4)" by (rule get_serveraddress_ok [OF c(1,4) res])
  moreover have "tc_ok R4 ?m4 (?C3((0, 1) := tl (?C3 (0, 1)))) ?S {sa, args}" by (rule tc_ok_write [OF c(2)]) simp
  moreover have "class_objs R4 ?m4 0 = class_objs R4 (set_cache ?m3 0 1 l4) 0" by (rule class_objs_cong) simp
  then have "args \<in> class_objs R4 ?m4 0" using c(5) b(4) unfolding keeps_live_def' by auto
  moreover have "\<forall>k<CLASSES. spare ?m4 k (FIRST_OBJS - 1)" using s(5) by (simp add: spare_def set_cache_def)
  moreover have "(?C3((0, 1) := tl (?C3 (0, 1)))) (0, 0) = []" by simp
  ultimately show ?thesis using s(1,2) b(1,3) c(3,4)
    by (intro exI [of _ m1] exI [of _ m2] exI [of _ args] exI [of _ ?m3] exI [of _ sa] exI [of _ ?m4] exI [of _ R4]
        exI [of _ "?C3((0, 1) := tl (?C3 (0, 1)))"]) simp
qed

subsection \<open>Properties\<close>

text \<open>C16. Every run of \<open>client1\<close> that reaches its end has no defined result: in a new process with enough memory, with valid arguments and
  up to 14 threads, which are created and joined and whose calls of the allocator are interleaved in any order, the message that all
  requests have been served is printed; then the block \<open>args\<close> is freed, which overwrites the server address in it with NULL, and
  the address that is freed next is read from it: \<open>tc_free\<close> gets NULL and reads before the page map.\<close>

theorem client1_main_frees_NULL:
  assumes fresh: "spans m = Map.empty" "4096 dvd brk m" "0 < brk m" "brk_max m < 2 ^ 63" "\<forall>u. length (caches m u) = CLASSES"
      "brk m + START_BYTES \<le> brk_max m"
    and res: "resolver_ok res" "address_of res (cstring host) port = Some a"
    and args: "atoi port_arg = Some port" "atoi n_arg = Some n" "atoi req_arg = Some k" "0 < n" "int_range (n * k)"
    and rcs: "\<forall>i<nat n. create_rc i = 0 \<and> join_rc i = 0"
    and threads: "nat n < FIRST_OBJS - 1" "set sched \<subseteq> {1..nat n}" "\<forall>t\<in>{1..nat n}. 3 \<le> count_list sched t"
  shows "\<exists>p m1 m2. client1_start m [prog, host, port_arg, n_arg, req_arg, word] res create_rc join_rc (run_clients (nat n) len served sched) =
      Some (Returned (p, lit ''number of served client requests: '' @ int_text (n * k) @ [10], m1)) \<and>
    link m1 p \<noteq> 0 \<and> tc_free m1 0 p = Some m2 \<and> link m2 p = 0 \<and> tc_free m2 0 (link m2 p) = None \<and>
    client1_main m [prog, host, port_arg, n_arg, req_arg, word] res create_rc join_rc (run_clients (nat n) len served sched) = None"
proof -
  let ?argv = "[prog, host, port_arg, n_arg, req_arg, word]" and ?run = "run_clients (nat n) len served sched"
  let ?out = "lit ''number of served client requests: '' @ int_text (n * k) @ [10]"
  obtain a1 a2 p m3 sa m4 R C where b: "tc_central_init m = Some a1" "tc_thread_init a1 0 = Some a2" "tc_malloc a2 0 8 = Some (p, m3)"
      "get_serveraddress res m3 0 (cstring host) port = Some ((sa, a), m4)" "p \<noteq> 0" "sa \<noteq> 0"
      "tc_ok R m4 C ({0} \<times> {..<CLASSES}) {sa, p}" "C (0, 0) = []" "p \<in> class_objs R m4 0" "\<forall>k<CLASSES. spare m4 k (FIRST_OBJS - 1)"
    using client_blocks [OF fresh res] by (elim exE conjE) (rule that)
  let ?m5 = "m4\<lparr>link := (link m4)(p := sa)\<rparr>"
  have T5: "tc_ok R ?m5 C ({0} \<times> {..<CLASSES}) {sa, p}" by (rule tc_ok_write [OF b(7)]) simp
  have "threads_ok (nat n) R ?m5 {sa, p} R C {sa, p} (?m5, \<lambda>_. C_Init)"
    using T5 b(10) keeps_imp_live [OF keeps_refl] by (simp add: threads_ok_def spare_def)
  note run = run_clients_ok [where len = len and served = served, OF this threads]
  obtain m6 R' C' S' L' where r: "?run ?m5 = Some m6" "tc_ok R' m6 C' S' L'" "{0} \<times> {..<CLASSES} \<subseteq> S'" "{sa, p} \<subseteq> L'"
      "keeps_live R ?m5 R' m6 {sa, p}" "caches m6 0 = caches ?m5 0"
    using run by (elim exE conjE) (rule that)
  have "\<not> list_ex (\<lambda>i. create_rc i \<noteq> 0) [0..<nat n]" "\<not> list_ex (\<lambda>i. join_rc i \<noteq> 0) [0..<nat n]"
    using rcs by (auto simp: list_ex_iff)
  then have st: "client1_start m ?argv res create_rc join_rc ?run = Some (Returned (p, ?out, m6))"
    using b(1-5) r(1) args by (simp add: client1_start_def)
  have lk: "link m6 p = sa" using r(5) by (simp add: keeps_live_def')
  have z: "(0, 0) \<in> {0 :: nat} \<times> {..<CLASSES}" by (simp add: CLASSES_def)
  have c: "cache_ok R m4 0 (caches m4 0 ! 0) []" using tc_okD(4) [OF b(7) z] b(8) by simp
  then have "tl_objs (caches m6 0 ! 0) = 0" "tl_objlen (caches m6 0 ! 0) \<noteq> tl_max_length (caches m6 0 ! 0)"
    using r(6) by (simp_all add: cache_ok_def)
  moreover have "p \<in> class_objs R' m6 0"
    using r(5) b(9) class_objs_cong [of ?m5 m4 R 0] unfolding keeps_live_def' by auto
  moreover have "(0, 0) \<in> S'" "p \<in> L'" using r(3,4) z by auto
  ultimately obtain m7 where f: "tc_free m6 0 p = Some m7" "link m7 p = 0" "tc_free m7 0 (link m7 p) = None"
    using tc_free_pushes [OF r(2), of 0 0 p] by auto
  have "client1_main m ?argv res create_rc join_rc ?run = None" using st f by (simp add: client1_main_def)
  then show ?thesis using st f lk b(6) by (intro exI [of _ p] exI [of _ m6] exI [of _ m7]) simp
qed

theorem client1_main_frees_NULL_witness:
  "client1_main ((start_mem 4096 (2 ^ 40))\<lparr>ini_brk_addr := 0\<rparr>) [[0], [97, 0], [56, 48, 0], [50, 0], [51, 0], [97, 0]]
    \<lparr>inet_pton = (\<lambda>_. None), gethostbyname = (\<lambda>_. Some [127, 0, 0, 1])\<rparr> (\<lambda>_. 0) (\<lambda>_. 0)
    (run_clients 2 1 (\<lambda>t. t = 1) [1, 2, 2, 1, 1, 2]) = None"
proof -
  let ?res = "\<lparr>inet_pton = (\<lambda>_. None), gethostbyname = (\<lambda>_. Some [127, 0, 0, 1])\<rparr>" and ?sched = "[1, 2, 2, 1, 1, 2]"
  have at: "atoi [56, 48, 0] = Some 80" "atoi [50, 0] = Some 2" "atoi [51, 0] = Some 3"
    by (simp_all add: atoi_def terminated_def cstring_def isspace_def int_range_def)
  have res: "resolver_ok ?res" by (simp add: resolver_ok_def)
  obtain a where a: "address_of ?res (cstring [97, 0]) 80 = Some a" by (simp add: address_of_def)
  let ?m = "(start_mem 4096 (2 ^ 40))\<lparr>ini_brk_addr := 0\<rparr>"
  have fresh: "spans ?m = Map.empty" "4096 dvd brk ?m" "0 < brk ?m" "brk_max ?m < 2 ^ 63" "\<forall>u. length (caches ?m u) = CLASSES"
      "brk ?m + START_BYTES \<le> brk_max ?m"
    by (simp_all add: start_mem_def START_BYTES_def GROWTH_def SYSFETCHSIZE_def pool_numbers CLASSES_def)
  have num: "0 < (2 :: int)" "int_range (2 * 3)" "\<forall>i<nat 2. (0 :: int) = 0 \<and> (0 :: int) = 0" by (simp_all add: int_range_def)
  have sched: "nat 2 < FIRST_OBJS - 1" "set ?sched \<subseteq> {1..nat 2}" "\<forall>t\<in>{1..nat 2}. 3 \<le> count_list ?sched t"
    by (auto simp: FIRST_OBJS_def le_Suc_eq)
  have "nat 2 = 2" by simp
  then show ?thesis
    using client1_main_frees_NULL [OF fresh res a at num sched, of "[0]" "[97, 0]" 1 "\<lambda>t. t = 1"] by metis
qed

text \<open>C30. The two ways of the source to find a server agree: for a name and a port, \<open>get_serveraddress\<close> of the clients fills the block it
  allocates with the address that \<open>open_clientfd\<close> connects to, and returns NULL exactly when \<open>open_clientfd\<close> fails for every result
  of \<open>connect\<close>; the allocator's invariant is kept.\<close>

theorem addresses_agree:
  assumes T: "tc_ok R m C S L" and p: "(t, 1) \<in> S" and room: "room m GROWTH" and res: "resolver_ok res"
    and fd: "0 \<le> fd" "unused_fd fd n"
  shows "\<exists>q a m' R' C' ob. get_serveraddress res m t host port = Some ((q, a), m') \<and> tc_ok R' m' C' S (insert ob L) \<and> ob \<notin> L \<and>
    (q = 0 \<or> q = ob) \<and>
    (if q = 0 then \<forall>rc. open_clientfd res fd rc host port n = Some (-1, n)
     else open_clientfd res fd 0 host port n = Some (fd, n\<lparr>open_fds := insert fd (open_fds n), peer := (peer n)(fd \<mapsto> a)\<rparr>))"
proof -
  have cl: "class_of 16 = 1" by (simp add: class_of_def)
  obtain ob m1 R1 C1 where b: "tc_malloc m t 16 = Some (ob, m1)" "tc_ok R1 m1 C1 S (insert ob L)" "ob \<notin> L" "ob \<in> class_objs R1 m1 1"
    using tc_malloc_ok [OF T, of t 16] p room cl by (auto simp: THRESHALLOC_def)
  have "pages_ok R1 m1" using tc_okD(1) [OF b(2)] by (simp add: heap_ok_def)
  then have ob: "ob \<noteq> 0" using class_obj_nonzero b(4) by blast
  have W: "tc_ok R1 (m1\<lparr>link := (link m1)(ob := v)\<rparr>) C1 S (insert ob L)" for v by (rule tc_ok_write [OF b(2)]) simp
  have cfd: "open_clientfd res fd rc host port n = (case address_of res host port of
       Some a \<Rightarrow> if 0 \<le> fd \<and> 0 \<le> rc then Some (fd, n\<lparr>open_fds := insert fd (open_fds n), peer := (peer n)(fd \<mapsto> a)\<rparr>) else Some (-1, n)
     | None \<Rightarrow> Some (-1, n))" for rc
    using open_clientfd_result [OF _ res] fd(2) by blast
  show ?thesis
  proof (cases "address_of res host port")
    case None
    then have "inet_pton res host = None" "gethostbyname res host = None" by (auto simp: address_of_def split: option.splits)
    then obtain sa m' v where g: "get_serveraddress res m t host port = Some ((0, sa), m')" "m' = m1\<lparr>link := (link m1)(ob := v)\<rparr>"
      using b(1) ob by (simp add: get_serveraddress_def Let_def)
    then show ?thesis using None cfd W b(3)
      by (intro exI [of _ 0] exI [of _ sa] exI [of _ m'] exI [of _ R1] exI [of _ C1] exI [of _ ob]) simp
  next
    case (Some a)
    have "get_serveraddress res m t host port = Some ((ob, a), m1\<lparr>link := (link m1)(ob := first_word (sockaddr_bytes a))\<rparr>)"
      by (rule get_serveraddress_ok [OF b(1) ob res Some])
    then show ?thesis using Some cfd W b(3) ob fd(1)
      by (intro exI [of _ ob] exI [of _ a] exI [of _ "m1\<lparr>link := (link m1)(ob := first_word (sockaddr_bytes a))\<rparr>"] exI [of _ R1] exI [of _ C1]) simp
  qed
qed

theorem addresses_agree_witness:
  "\<exists>q a m'. get_serveraddress \<lparr>inet_pton = (\<lambda>_. None), gethostbyname = (\<lambda>_. None)\<rparr> ready_mem 0 [97] 80 = Some ((q, a), m') \<and>
    (if q = 0 then \<forall>rc. open_clientfd \<lparr>inet_pton = (\<lambda>_. None), gethostbyname = (\<lambda>_. None)\<rparr> 3 rc [97] 80 sample_net = Some (-1, sample_net)
     else open_clientfd \<lparr>inet_pton = (\<lambda>_. None), gethostbyname = (\<lambda>_. None)\<rparr> 3 0 [97] 80 sample_net =
       Some (3, sample_net\<lparr>open_fds := insert 3 (open_fds sample_net), peer := (peer sample_net)(3 \<mapsto> a)\<rparr>))"
proof -
  have "(0, 1) \<in> {0 :: nat} \<times> {..<CLASSES}" by (simp add: CLASSES_def)
  moreover have "unused_fd 3 sample_net" by (simp add: unused_fd_def sample_net_def)
  moreover have "resolver_ok \<lparr>inet_pton = (\<lambda>_. None), gethostbyname = (\<lambda>_. None)\<rparr>" by (simp add: resolver_ok_def)
  moreover have "(0 :: int) \<le> 3" by simp
  moreover note addresses_agree [OF ready_mem_ok(1) _ ready_mem_ok(2), of 0 "\<lparr>inet_pton = (\<lambda>_. None), gethostbyname = (\<lambda>_. None)\<rparr>" 3 sample_net "[97]" 80]
  ultimately have "\<exists>q a m' R' C' ob. get_serveraddress \<lparr>inet_pton = (\<lambda>_. None), gethostbyname = (\<lambda>_. None)\<rparr> ready_mem 0 [97] 80 = Some ((q, a), m') \<and>
      tc_ok R' m' C' ({0} \<times> {..<CLASSES}) (insert ob {}) \<and> ob \<notin> {} \<and> (q = 0 \<or> q = ob) \<and>
      (if q = 0 then \<forall>rc. open_clientfd \<lparr>inet_pton = (\<lambda>_. None), gethostbyname = (\<lambda>_. None)\<rparr> 3 rc [97] 80 sample_net = Some (-1, sample_net)
       else open_clientfd \<lparr>inet_pton = (\<lambda>_. None), gethostbyname = (\<lambda>_. None)\<rparr> 3 0 [97] 80 sample_net =
         Some (3, sample_net\<lparr>open_fds := insert 3 (open_fds sample_net), peer := (peer sample_net)(3 \<mapsto> a)\<rparr>))"
    by (simp only:)
  then show ?thesis by (elim exE conjE) (intro exI conjI)
qed

end
