(* ===== verification/Debug_Print.thy ===== *)
theory Debug_Print
  imports Query
begin

section \<open>Printing the index (helper.c)\<close>

text \<open>
  \<open>print_lists\<close> and \<open>print_words\<close>, the debug output of \<open>helper.c\<close>, as the text they write. The lemma shows that they print every word of
  an index once, in the order of the table, with its postings.
\<close>

subsection \<open>The functions\<close>

function print_nums :: "struct_LinkedList \<Rightarrow> nat \<Rightarrow> bytes \<Rightarrow> bytes option" where
  "print_nums n i out =
     (if i < ll_last_index n
      then case rd (ll_list n) i of
             None \<Rightarrow> None
           | Some line \<Rightarrow> print_nums n (Suc i) (out @ lit ''line num: '' @ decimal line @ [32])
      else Some out)"
  by pat_completeness auto
termination
  by (relation "measure (\<lambda>(n, i, out). ll_last_index n - i)") auto

declare print_nums.simps [simp del]

partial_function (option) print_lists :: "heap \<Rightarrow> addr \<Rightarrow> bytes \<Rightarrow> bytes option" where
  "print_lists h ptr out =
     (if ptr = 0 then Some out
      else do {
        n \<leftarrow> links h ptr;
        out1 \<leftarrow> print_nums n 0 (out @ lit ''docId: '' @ decimal (ll_val n) @ [10]);
        print_lists h (ll_next n) out1
      })"

text \<open>A word without a string is printed through a NULL pointer, which has no defined result.\<close>

function print_words :: "heap \<Rightarrow> struct_DynList \<Rightarrow> nat \<Rightarrow> bytes \<Rightarrow> bytes option" where
  "print_words h D i out =
     (if i < dl_phys_len D
      then case rd (dl_list D) i of
             None \<Rightarrow> None
           | Some word \<Rightarrow>
               if word = 0 then print_words h D (Suc i) out
               else do {
                 w \<leftarrow> words h word;
                 s \<leftarrow> wd_str w;
                 if \<not> terminated s then None
                 else do {
                   out1 \<leftarrow> print_lists h (wd_list w)
                     (out @ [10] @ lit ''Index:'' @ decimal i @ lit '' '' @ [10] @ cstring s @ [10]);
                   print_words h D (Suc i) out1
                 }
               }
      else Some out)"
  by pat_completeness auto
termination
  by (relation "measure (\<lambda>(h, D, i, out). dl_phys_len D - i)") auto

declare print_words.simps [simp del]

subsection \<open>What they print\<close>

definition num_text :: "nat \<Rightarrow> bytes" where
  "num_text line = lit ''line num: '' @ decimal line @ [32]"

definition posting_dump :: "posting \<Rightarrow> bytes" where
  "posting_dump = (\<lambda>(d, ls). lit ''docId: '' @ decimal d @ [10] @ concat (map num_text ls))"

definition word_dump :: "nat \<Rightarrow> bytes \<Rightarrow> posting list \<Rightarrow> bytes" where
  "word_dump i t ps = [10] @ lit ''Index:'' @ decimal i @ lit '' '' @ [10] @ t @ [10] @ concat (map posting_dump ps)"

lemma print_nums_text:
  assumes "node_ok n" and "i \<le> ll_last_index n"
  shows "print_nums n i out = Some (out @ concat (map num_text (drop i (node_lines n))))"
  using assms(2)
proof (induction "ll_last_index n - i" arbitrary: i out)
  case 0
  then show ?case using assms(1) by (subst print_nums.simps) (simp add: node_lines_def)
next
  case (Suc k)
  have i: "i < ll_last_index n" "i < length (ll_list n)"
    using Suc.hyps(2) assms(1) unfolding node_ok_def by linarith+
  have d: "drop i (node_lines n) = ll_list n ! i # drop (Suc i) (node_lines n)"
    using i by (simp add: node_lines_def drop_nth_Cons [of i "take (ll_last_index n) (ll_list n)"])
  have "print_nums n i out = print_nums n (Suc i) (out @ num_text (ll_list n ! i))"
    using i by (subst print_nums.simps) (simp add: c_step num_text_def)
  then show ?case using Suc.hyps(1) [of "Suc i"] Suc.hyps(2) i unfolding d by simp
qed

lemma print_lists_text: "chain h p as \<Longrightarrow> print_lists h p out = Some (out @ concat (map (posting_dump \<circ> posting_at h) as))"
proof (induction as arbitrary: p out)
  case Nil
  then show ?case by (subst print_lists.simps) (simp add: chain_def)
next
  case (Cons a as)
  then obtain n where n: "links h a = Some n" "p = a" "a \<noteq> 0" "chain h (ll_next n) as" "node_ok n"
    by (auto simp: chain_def link_next_def)
  have "posting_dump (posting_at h a) = lit ''docId: '' @ decimal (ll_val n) @ [10] @ concat (map num_text (node_lines n))"
    using n(1) by (simp add: posting_dump_def posting_at_def doc_def)
  then show ?case using n(1-3) print_nums_text [OF n(5), of 0] Cons.IH [OF n(4)] by (subst print_lists.simps) (simp add: comp_def)
qed

text \<open>The occupied slots from \<open>i\<close> on, each with its index.\<close>

definition used_slots :: "struct_DynList \<Rightarrow> nat \<Rightarrow> nat list" where
  "used_slots D i = filter (\<lambda>j. dl_list D ! j \<noteq> 0) [i..<length (dl_list D)]"

lemma print_words_text:
  assumes rep: "index_rep A D h P idx" and "i \<le> length (dl_list D)"
  shows "print_words h D i out =
    Some (out @ concat (map (\<lambda>j. word_dump j (key h (dl_list D ! j)) (the (idx (key h (dl_list D ! j))))) (used_slots D i)))"
  using assms(2)
proof (induction "length (dl_list D) - i" arbitrary: i out)
  case 0
  then show ?case using table_ok_D(1) [OF index_rep_D(3) [OF rep]] by (subst print_words.simps) (simp add: used_slots_def)
next
  case (Suc k)
  let ?n = "length (dl_list D)"
  have i: "i < ?n" "k = ?n - Suc i" using Suc.hyps(2) by simp_all
  have n: "dl_phys_len D = ?n" using table_ok_D(1) [OF index_rep_D(3) [OF rep]] .
  have u: "used_slots D i = (if dl_list D ! i \<noteq> 0 then i # used_slots D (Suc i) else used_slots D (Suc i))"
    using i(1) by (simp add: used_slots_def upt_rec [of i ?n])
  show ?case
  proof (cases "dl_list D ! i = 0")
    case True
    then have "print_words h D i out = print_words h D (Suc i) out" using i(1) n by (subst print_words.simps) (simp add: c_step)
    then show ?thesis using Suc.hyps(1) [OF i(2)] i(1) u True by simp
  next
    case False
    let ?a = "dl_list D ! i"
    have a: "?a \<in> table_words D" using False i(1) by (simp add: table_words_def)
    obtain w where w: "words h ?a = Some w" "chain h (wd_list w) (P ?a)" "idx (key h ?a) = Some (map (posting_at h) (P ?a))"
      using index_rep_D(5) [OF rep a] by blast
    obtain s where s: "wd_str w = Some s" "terminated s"
      using table_ok_D(3) [OF index_rep_D(3) [OF rep] a] w(1) by (auto simp: word_ok_def)
    have k: "key h ?a = cstring s" using w(1) s(1) by (simp add: key_def)
    have "print_words h D i out = print_words h D (Suc i) (out @ word_dump i (key h ?a) (the (idx (key h ?a))))"
      using i(1) n False w s print_lists_text [OF w(2)] k by (subst print_words.simps) (simp add: c_step word_dump_def)
    then show ?thesis using Suc.hyps(1) [OF i(2)] i(1) u False by simp
  qed
qed

text \<open>\<open>print_words\<close> on a table that represents an index: it ends, and prints every word of the index exactly once, by increasing
  slots, each with all of its postings.\<close>

theorem print_words_prints_index:
  assumes "represents A (D, h) idx"
  shows "\<exists>ws. print_words h D 0 [] = Some (concat (map (\<lambda>(i, t). word_dump i t (the (idx t))) ws)) \<and>
    distinct (map snd ws) \<and> set (map snd ws) = dom idx \<and> sorted_wrt (<) (map fst ws)"
proof -
  obtain P where P: "index_rep A D h P idx" using assms by (auto simp: represents_def)
  note T = index_rep_D(3) [OF P]
  let ?js = "used_slots D 0" and ?k = "\<lambda>j. key h (dl_list D ! j)"
  let ?ws = "map (\<lambda>j. (j, ?k j)) ?js"
  have "print_words h D 0 [] = Some (concat (map (\<lambda>(i, t). word_dump i t (the (idx t))) ?ws))"
    using print_words_text [OF P, of 0 "[]"] by (simp add: comp_def)
  moreover have "distinct (map snd ?ws)"
  proof -
    have "inj_on ?k (set ?js)" using table_ok_D(6) [OF T] by (intro inj_onI) (auto simp: used_slots_def)
    then show ?thesis by (simp add: distinct_map comp_def used_slots_def)
  qed
  moreover have "set (map snd ?ws) = dom idx"
    unfolding index_rep_D(6) [OF P] by (force simp: used_slots_def table_words_def in_set_conv_nth image_iff)
  moreover have "sorted_wrt (<) (map fst ?ws)" by (simp add: comp_def used_slots_def sorted_wrt_filter)
  ultimately show ?thesis by blast
qed

end
