(* ===== verification/Spec2Isabelle.thy ===== *)
theory Spec2Isabelle
  imports Client_Main Debug_Print
begin

text \<open>
  This development models the C search engine of this repository: a server that indexes the words of a directory of
  text files and answers queries over TCP with a pool of threads, its two clients, and the thread-caching memory allocator
  that comes with it.

  \<^bold>\<open>The program and its parts.\<close> \<open>src/server.c\<close> (\<open>main\<close>) reads a directory: \<open>read_dir\<close> lists it, \<open>tokenizer\<close> reads every file line
  by line, \<open>parse\<close> cuts each line into words with the string routines of \<open>src/helper.c\<close> and stores, per word, the documents
  and lines it occurs in, in the hash table of \<open>src/helper.c\<close> and \<open>src/server.c\<close> (\<open>hash_function\<close>, \<open>insert_DYNLIST\<close>, \<open>lookup\<close>,
  \<open>disperse_keys\<close>). Then an event loop around \<open>select\<close> accepts connections and hands every ready one to the thread pool of
  \<open>src/thread_pool.c\<close>, whose workers run \<open>thread_job\<close>: receive a packet (\<open>src/common.h\<close>), look the word up, send the response.
  \<open>src/tc_malloc.c\<close> and \<open>src/tc_malloc.h\<close> are the allocator: size classes, spans of pages, a page heap, a central cache and a
  cache per thread. \<open>src/client1.c\<close> asks for one word from several threads, \<open>src/client2.c\<close> is a command line; both send a packet, receive the
  response and allocate with the same allocator.

  \<^bold>\<open>How C is modelled.\<close> \<open>C_Prelude\<close> fixes the conventions. An operation has a result in \<open>option\<close>, where \<^term>\<open>None\<close> is an
  execution without a defined C result (an access outside an object, a NULL dereference, a failed \<open>assert\<close>, a loop that does
  not end); so an equation \<open>f x = Some y\<close> is total correctness. Bytes are \<open>8 word\<close>, the fields of packets and hash values
  \<open>32 word\<close>; where a \<open>size_t\<close> or \<open>int\<close> can wrap or be converted the wrap is written out (\<open>size_sub\<close>, \<open>u32\<close>, \<open>to_int\<close>).
  Heap structures are maps from addresses to records, so that aliasing is visible. Results of the system (\<open>read\<close>, \<open>write\<close>,
  \<open>accept\<close>, \<open>select\<close>, \<open>readdir\<close>, file contents, allocation, \<open>sbrk\<close>) are parameters or event lists.

  \<^bold>\<open>Theories and the code they model.\<close>
  \<^item> \<open>Str_Methods\<close>: \<open>StrGetLength\<close>, \<open>StrCopy\<close>, \<open>StrCompare\<close>, \<open>StrTok\<close>, \<open>StrStrip\<close>, \<open>StrSplit\<close>, \<open>StrConcat\<close>, \<open>StrSearch\<close>.
  \<^item> \<open>Index_Lists\<close>: the lists, words and dynamic arrays of \<open>helper.c\<close>; \<open>Hash_Table\<close>: the table, its growth and its flaws.
  \<^item> \<open>Inverted_Index\<close>, \<open>Parse_Lines\<close>, \<open>Directory\<close>: \<open>parse\<close>, \<open>tokenizer\<close>, \<open>read_dir\<close>, as refinements of an abstract index that
    maps a word to its postings.
  \<^item> \<open>Wire\<close>: packet headers, \<open>recv_from_host\<close>, \<open>send_to_host\<close>; \<open>Query\<close>: \<open>thread_job\<close>; \<open>Server\<close>: the first half of \<open>main\<close> and the
    theorem for the whole server; \<open>Event_Loop\<close>: the loop of \<open>main\<close>.
  \<^item> \<open>Job_Queue\<close>, \<open>Thread_Pool\<close>: the queue as a refinement of a list, the pool as a step relation in which each access under the mutex,
    each wait and each signal is a step of its own, with spurious wake-ups.
  \<^item> \<open>Size_Class\<close>: \<open>get_index\<close>, \<open>index_to_size\<close>; \<open>Span_Lists\<close>: the state of the allocator (\<open>tcmem\<close>) and the circular lists of spans
    (\<open>spanlist_push\<close>, \<open>spanlist_pop\<close>, \<open>remove_span\<close>); \<open>Page_Heap\<close>: \<open>alloc_span\<close>, \<open>fetch_span\<close>, \<open>split_spans\<close>,
    \<open>return_span_to_pgcache\<close> and the page map; \<open>Central_Cache\<close>, \<open>Central_Objects\<close>: \<open>get_span_central\<close>, \<open>fetch_objs\<close>,
    \<open>return_objs_to_centralcache\<close>; \<open>Thread_Cache\<close>: \<open>allocate\<close>, \<open>deallocate\<close>, start-up, \<open>tc_malloc\<close> and \<open>tc_free\<close>, an instance of the contract of
    \<open>Block_Store\<close>; \<open>Allocator_Start\<close>: that start-up, of up to 15 threads, establishes the invariant; \<open>Client_Threads\<close>: what the
    threads of \<open>client1\<close> do to the memory, under any schedule.
  \<^item> \<open>Sockets\<close>: \<open>open_listenfd\<close> and \<open>open_clientfd\<close> of \<open>common.h\<close>; \<open>Clients\<close>: \<open>request_server\<close> of the two clients, and the theorem that puts
    client and server together; \<open>Client_Main\<close>: \<open>get_serveraddress\<close> and \<open>main\<close> of the clients, on the memory of the allocator. \<open>Debug_Print\<close>: the debug output
    \<open>print_lists\<close> and \<open>print_words\<close> of \<open>helper.c\<close>.

  \<^bold>\<open>What the lemmas show.\<close> For the index: after \<open>read_dir\<close> the heap represents exactly the fold of the abstract update over files, lines
  and words, within stated limits (line and word length, number of files, room in the table), and \<open>thread_job\<close> answers from it; the theorems on the
  limits show what happens beyond them (words lost when the table grows, when it is full, or in the second half of a long line; a file list that
  grows; packet overruns). For the pool: every job runs exactly once and in order, mutual exclusion, no lost wake-up, progress, and the deadlock
  after a failed allocation. For the allocator: \<open>pages_ok\<close> says that no page belongs to two spans, by the page map;
  \<open>central_ok\<close> that each object of a span is either on the free list of the span or out, and that the reference count is the number
  of those that are out; \<open>tc_ok\<close> that the objects that are out are each in exactly one slot of one thread or in use. Every operation
  preserves them and start-up establishes them, so blocks in use never overlap in any run of \<open>tc_malloc\<close> and \<open>tc_free\<close>. For the
  clients: what they send and print for every answer, up to the text that a search prints for the files of a directory; which answers
  overrun their buffers; that \<open>client2\<close> does not end with its input but repeats requests; and that \<open>client1\<close>, however its threads are
  scheduled, frees NULL at its end.

  \<^bold>\<open>Bounds.\<close> Loops are total functions with a measure, or \<open>partial_function (option)\<close> with a proof that they return. The allocator
  theorems assume \<open>room m GROWTH\<close>: one call moves the break by at most one fetch from the system (256 MiB) and three chunks of the
  span pool, and the page map covers 32 GiB, so that much must be left below the limit and below the end of the map. Start-up needs \<open>START_BYTES\<close>: one such fetch, which carries
  the \<open>CLASSES\<close> spans of \<open>BATCH\<close> pages that \<open>tc_central_init\<close> asks for, and a chunk of the span pool for each of them. Such a
  span has at least \<open>FIRST_OBJS\<close> (16) objects, of which a thread that starts takes one, so 15 threads start without another fetch.

  \<^bold>\<open>Assumptions on what is not under src/.\<close> Only the allocator moves the program break, which is page-aligned when \<open>tc_central_init\<close>
  runs. The counter \<open>obj_len\<close> of a span, a \<open>size_t\<close> that only grows while objects move to and fro, does not reach \<open>2 ^ 64\<close>. \<open>tc_calloc\<close>
  and \<open>tc_realloc\<close>, which the index code calls and the repository does not define, are a parameter (\<open>allocator\<close>), which in the index, query and pool
  code stands for \<open>tc_malloc\<close> too; the properties that need it name what they require: \<open>alloc_ok\<close>, no call fails and no address is given twice,
  and \<open>realloc_ok\<close>, \<open>tc_realloc\<close> keeps the old contents. What it leaves in the grown part is not assumed to be zero: the theorems on the
  whole server are for directories whose file list does not grow, and \<open>growth_hides_words\<close> and \<open>file_list_growth_needs_zeroes\<close> say
  what growth does for any contents. Nothing is assumed of the storage of a directory entry after \<open>readdir\<close> has returned the next one: the
  replies are stated with the strings found at the stored addresses when a request is served (\<open>stored_name\<close>), and are undefined
  without them (\<open>answerable\<close>). The name service is a parameter that yields addresses of four bytes (\<open>resolver_ok\<close>).

  \<^bold>\<open>Not modelled.\<close> Messages to \<open>stderr\<close>, and the spin
  locks of the allocator, around which a call is taken as one step.
\<close>

end
